(* ===== verification/Prelude.thy ===== *)
theory Prelude
  imports Main "HOL-Library.Word"
begin

text \<open>
  Shared vocabulary of the development: the machine integer types of the kernel sources,
  the error numbers its functions return, flag tests on words, and the facts on lists,
  words and bit masks that the component theories use.
\<close>

unbundle bit_operations_syntax

type_synonym u8 = "8 word"
type_synonym u16 = "16 word"
type_synonym u32 = "32 word"
type_synonym u64 = "64 word"

text \<open>The collections the component proofs draw on.\<close>

named_theorems kdefs \<open>definitions of model operations\<close>
named_theorems kinv \<open>preservation of component invariants\<close>
named_theorems klen \<open>lengths of arrays after an update\<close>

text \<open>Flag words: \<open>x & f\<close> used as a condition in C.\<close>

definition has_flag :: "'a::len word \<Rightarrow> 'a word \<Rightarrow> bool" where
  "has_flag w f \<longleftrightarrow> w AND f \<noteq> 0"

definition set_flag :: "'a::len word \<Rightarrow> 'a word \<Rightarrow> 'a word" where
  "set_flag w f = w OR f"

definition clr_flag :: "'a::len word \<Rightarrow> 'a word \<Rightarrow> 'a word" where
  "clr_flag w f = w AND NOT f"

subsection \<open>Lists\<close>

lemma nth_fold_update:
  "distinct is \<Longrightarrow> j < length xs \<Longrightarrow>
    fold (\<lambda>i xs. xs[i := v]) is xs ! j = (if j \<in> set is then v else xs ! j)"
  by (induction "is" arbitrary: xs) auto

lemma length_fold_update [simp, klen]:
  "length (fold (\<lambda>i xs. xs[i := f i]) is xs) = length xs"
  by (induction "is" arbitrary: xs) auto

text \<open>
  Reading and writing a run of bytes of an array, as \<^verbatim>\<open>memcpy\<close> and
  \<^verbatim>\<open>memset\<close> do on a region that lies inside it.
\<close>

definition mem_read :: "'a list \<Rightarrow> nat \<Rightarrow> nat \<Rightarrow> 'a list" where
  "mem_read xs off n = take n (drop off xs)"

definition mem_write :: "'a list \<Rightarrow> nat \<Rightarrow> 'a list \<Rightarrow> 'a list" where
  "mem_write xs off ys = take off xs @ ys @ drop (off + length ys) xs"

lemma length_mem_read [simp, klen]: "off + n \<le> length xs \<Longrightarrow> length (mem_read xs off n) = n"
  by (simp add: mem_read_def)

lemma length_mem_write [simp, klen]:
  "off + length ys \<le> length xs \<Longrightarrow> length (mem_write xs off ys) = length xs"
  by (simp add: mem_write_def)

lemma nth_mem_read: "off + n \<le> length xs \<Longrightarrow> i < n \<Longrightarrow> mem_read xs off n ! i = xs ! (off + i)"
  by (simp add: mem_read_def)

lemma nth_mem_write:
  assumes "off + length ys \<le> length xs" "i < length xs"
  shows "mem_write xs off ys ! i = (if off \<le> i \<and> i < off + length ys then ys ! (i - off) else xs ! i)"
  using assms by (auto simp: mem_write_def nth_append)

subsection \<open>Bits of words\<close>

lemma bit_exp_minus_1:
  "bit (push_bit n 1 - 1 :: 'a::len word) i \<longleftrightarrow> i < n \<and> i < LENGTH('a)"
proof -
  have "(push_bit n 1 - 1 :: 'a word) = mask n"
    by (simp add: mask_eq_exp_minus_1 push_bit_eq_mult)
  then show ?thesis
    by (simp add: bit_mask_iff not_le) linarith
qed

lemma bit_field_mask:
  "bit (push_bit s (push_bit (e - s) 1 - 1) :: 'a::len word) b \<longleftrightarrow> s \<le> b \<and> b < e \<and> b < LENGTH('a)"
  by (simp only: bit_push_bit_iff bit_exp_minus_1) auto

lemma word_eq_iff_bits:
  "(a :: 'a::len word) = b \<longleftrightarrow> (\<forall>i < LENGTH('a). bit a i = bit b i)"
  by (auto intro: bit_word_eqI)

lemma has_flag_exp: "has_flag w (2 ^ k) \<longleftrightarrow> bit w k"
  by (simp add: has_flag_def and_exp_eq_0_iff_not_bit)

text \<open>Case analysis on an error value inside a loop that may not return.\<close>

lemma sum_case_mono [partial_function_mono]:
  assumes "\<And>x. monotone orda ordb (\<lambda>f. F f x)" "\<And>y. monotone orda ordb (\<lambda>f. G f y)"
  shows "monotone orda ordb (\<lambda>f. case r of Inl x \<Rightarrow> F f x | Inr y \<Rightarrow> G f y)"
  using assms by (cases r) simp_all

end
