(* ===== verification/Bitmap.thy ===== *)
theory Bitmap
  imports Prelude
begin

text \<open>
  Bit arrays over bytes: the macros \<^verbatim>\<open>setbit\<close>, \<^verbatim>\<open>clrbit\<close> and
  \<^verbatim>\<open>isset\<close> of \<^verbatim>\<open>sys/param.h\<close>, and the range clear
  \<^verbatim>\<open>clrbits\<close> of \<^verbatim>\<open>kern/tty_subr.c\<close>.  The contract of a bit
  array is the locale \<open>bitmap\<close>; the byte array is its first instance.
\<close>

subsection \<open>The contract of a bit array\<close>

locale bitmap =
  fixes test :: "'a \<Rightarrow> nat \<Rightarrow> bool"
    and on :: "'a \<Rightarrow> nat \<Rightarrow> 'a"
    and off :: "'a \<Rightarrow> nat \<Rightarrow> 'a"
    and nbits :: "'a \<Rightarrow> nat"
  assumes test_on: "i < nbits a \<Longrightarrow> j < nbits a \<Longrightarrow> test (on a i) j = (j = i \<or> test a j)"
    and test_off: "i < nbits a \<Longrightarrow> j < nbits a \<Longrightarrow> test (off a i) j = (j \<noteq> i \<and> test a j)"
    and nbits_on [simp]: "nbits (on a i) = nbits a"
    and nbits_off [simp]: "nbits (off a i) = nbits a"
begin

lemma nbits_fold_off [simp]: "nbits (fold (\<lambda>k a. off a (f k)) ks a) = nbits a"
  by (induction ks arbitrary: a) auto

lemma test_fold_off:
  assumes "\<forall>k \<in> set ks. f k < nbits a" and "j < nbits a"
  shows "test (fold (\<lambda>k a. off a (f k)) ks a) j = (j \<notin> f ` set ks \<and> test a j)"
  using assms
proof (induction ks arbitrary: a)
  case Nil
  then show ?case by simp
next
  case (Cons k ks)
  then have "test (fold (\<lambda>k a. off a (f k)) ks (off a (f k))) j
      = (j \<notin> f ` set ks \<and> test (off a (f k)) j)"
    by simp
  with Cons.prems show ?case by (auto simp: test_off)
qed

lemma on_off_set:
  "i < nbits a \<Longrightarrow> {j. j < nbits a \<and> test (on a i) j} = insert i {j. j < nbits a \<and> test a j}"
  by (auto simp: test_on)

lemma off_set:
  "i < nbits a \<Longrightarrow> {j. j < nbits a \<and> test (off a i) j} = {j. j < nbits a \<and> test a j} - {i}"
  by (auto simp: test_off)

end

subsection \<open>The byte array macros\<close>

abbreviation NBBY :: nat where "NBBY \<equiv> 8"

definition setbit :: "u8 list \<Rightarrow> nat \<Rightarrow> u8 list" where
  "setbit a i = a[i div NBBY := a ! (i div NBBY) OR push_bit (i mod NBBY) 1]"

definition clrbit :: "u8 list \<Rightarrow> nat \<Rightarrow> u8 list" where
  "clrbit a i = a[i div NBBY := a ! (i div NBBY) AND NOT (push_bit (i mod NBBY) 1)]"

definition isset :: "u8 list \<Rightarrow> nat \<Rightarrow> bool" where
  "isset a i \<longleftrightarrow> a ! (i div NBBY) AND push_bit (i mod NBBY) 1 \<noteq> 0"

lemma isset_bit: "isset a i = bit (a ! (i div NBBY)) (i mod NBBY)"
  by (simp add: isset_def bit_iff_and_push_bit_not_eq_0)

lemma length_setbit [simp, klen]: "length (setbit a i) = length a"
  by (simp add: setbit_def)

lemma length_clrbit [simp, klen]: "length (clrbit a i) = length a"
  by (simp add: clrbit_def)

lemma div_mod_eqD: "i div NBBY = j div NBBY \<Longrightarrow> i mod NBBY = j mod NBBY \<Longrightarrow> i = j"
  by (metis div_mult_mod_eq)

lemma isset_setbit:
  assumes "i < NBBY * length a" "j < NBBY * length a"
  shows "isset (setbit a i) j = (j = i \<or> isset a j)"
proof -
  have "i div NBBY < length a" "j div NBBY < length a"
    using assms by auto
  then show ?thesis
    by (auto simp: isset_bit setbit_def nth_list_update bit_or_iff bit_exp_iff
        dest: div_mod_eqD)
qed

lemma isset_clrbit:
  assumes "i < NBBY * length a" "j < NBBY * length a"
  shows "isset (clrbit a i) j = (j \<noteq> i \<and> isset a j)"
proof -
  have "i div NBBY < length a" "j div NBBY < length a"
    using assms by auto
  then show ?thesis
    by (auto simp: isset_bit clrbit_def nth_list_update bit_and_iff bit_not_iff bit_exp_iff
        dest: div_mod_eqD)
qed

interpretation bytebits: bitmap isset setbit clrbit "\<lambda>a. NBBY * length a"
  by unfold_locales (simp_all add: isset_setbit isset_clrbit)

lemma bitmap_eqI:
  assumes "length a = length b" and "\<And>i. i < NBBY * length a \<Longrightarrow> isset a i = isset b i"
  shows "a = b"
proof (rule nth_equalityI)
  fix k assume k: "k < length a"
  show "a ! k = b ! k"
  proof (rule bit_word_eqI)
    fix n assume "n < LENGTH(8)"
    then have "NBBY * k + n < NBBY * length a" "(NBBY * k + n) div NBBY = k"
      "(NBBY * k + n) mod NBBY = n"
      using k by auto
    then show "bit (a ! k) n = bit (b ! k) n"
      using assms(2) [of "NBBY * k + n"] by (simp add: isset_bit)
  qed
qed (rule assms)

subsection \<open>Clearing a range\<close>

text \<open>
  \<^verbatim>\<open>clrbits\<close> clears a run of bits byte by byte.  Its comment gives the loop it
  replaces, which is \<open>clrbits_ref\<close>.
\<close>

definition clrbits :: "u8 list \<Rightarrow> nat \<Rightarrow> nat \<Rightarrow> u8 list" where
  "clrbits cp off len =
     (if len = 1 then clrbit cp off
      else
        let sby = off div NBBY; sbi = off mod NBBY;
            eby = (off + len) div NBBY; ebi = (off + len) mod NBBY
        in if sby = eby then
             let mask = push_bit sbi (push_bit (ebi - sbi) 1 - 1)
             in cp[sby := cp ! sby AND NOT mask]
           else
             let mask = push_bit sbi 1 - 1;
                 cp = cp[sby := cp ! sby AND mask];
                 cp = fold (\<lambda>i cp. cp[i := 0]) [sby + 1..<eby] cp;
                 mask = push_bit ebi 1 - 1
             in if mask \<noteq> 0 then cp[eby := cp ! eby AND NOT mask] else cp)"

definition clrbits_ref :: "u8 list \<Rightarrow> nat \<Rightarrow> nat \<Rightarrow> u8 list" where
  "clrbits_ref cp off len = fold (\<lambda>i cp. clrbit cp (off + i)) [0..<len] cp"

lemma isset_clrbits_ref:
  assumes "off + len \<le> NBBY * length cp" "j < NBBY * length cp"
  shows "isset (clrbits_ref cp off len) j = ((j < off \<or> off + len \<le> j) \<and> isset cp j)"
proof -
  have "j \<notin> (+) off ` set [0..<len] \<longleftrightarrow> j < off \<or> off + len \<le> j"
    by (auto simp: image_iff)
  then show ?thesis
    unfolding clrbits_ref_def
    using bytebits.test_fold_off [of "[0..<len]" "\<lambda>i. off + i" cp j] assms by auto
qed

lemma length_clrbits [simp, klen]: "length (clrbits cp off len) = length cp"
  by (simp add: clrbits_def Let_def)

lemma length_clrbits_ref [simp, klen]: "length (clrbits_ref cp off len) = length cp"
  unfolding clrbits_ref_def by (induction len) auto

lemma less_same_byte: "(i::nat) div NBBY = j div NBBY \<Longrightarrow> i < j \<longleftrightarrow> i mod NBBY < j mod NBBY"
  using div_mult_mod_eq [of i NBBY] div_mult_mod_eq [of j NBBY] by linarith

lemma less_byte: "(i::nat) div NBBY < j div NBBY \<Longrightarrow> i < j"
  by (meson div_le_mono not_le)

lemma not_same_byte:
  "off div NBBY = (off + len) div NBBY \<Longrightarrow> j div NBBY \<noteq> off div NBBY \<Longrightarrow> j < off \<or> off + len \<le> j"
  using less_byte [of j off] less_byte [of "off + len" j] by linarith

lemma clrbits_nth_same:
  assumes "off div NBBY = (off + len) div NBBY" and "j < NBBY * length cp"
  shows "bit ((cp[off div NBBY := cp ! (off div NBBY) AND NOT (push_bit (off mod NBBY)
            (push_bit ((off + len) mod NBBY - off mod NBBY) 1 - 1))]) ! (j div NBBY)) (j mod NBBY)
       = ((j < off \<or> off + len \<le> j) \<and> isset cp j)"
proof (cases "j div NBBY = off div NBBY")
  case True
  then have "j div NBBY < length cp" using assms by auto
  then have "bit ((cp[off div NBBY := cp ! (off div NBBY) AND NOT (push_bit (off mod NBBY)
            (push_bit ((off + len) mod NBBY - off mod NBBY) 1 - 1))]) ! (j div NBBY)) (j mod NBBY)
       = (bit (cp ! (j div NBBY)) (j mod NBBY)
            \<and> \<not> (off mod NBBY \<le> j mod NBBY \<and> j mod NBBY < (off + len) mod NBBY))"
    unfolding True by (simp add: bit_and_iff bit_not_iff bit_field_mask del: push_bit_of_1)
  moreover have "j < off \<longleftrightarrow> j mod NBBY < off mod NBBY"
    "off + len \<le> j \<longleftrightarrow> (off + len) mod NBBY \<le> j mod NBBY"
    using less_same_byte [OF True] less_same_byte [of j "off + len"] True assms(1)
    by (simp_all add: not_less [symmetric])
  ultimately show ?thesis
    unfolding isset_bit by linarith
next
  case False
  with assms(1) have "j < off \<or> off + len \<le> j" by (rule not_same_byte)
  with False show ?thesis by (simp add: isset_bit)
qed

text \<open>The run that spans several bytes: first byte, whole bytes, last byte.\<close>

definition clrspan :: "u8 list \<Rightarrow> nat \<Rightarrow> u8 \<Rightarrow> nat \<Rightarrow> u8 \<Rightarrow> u8 list" where
  "clrspan cp sby m1 eby m2 =
     (let cp = fold (\<lambda>i cp. cp[i := 0]) [sby + 1..<eby] (cp[sby := cp ! sby AND m1])
      in if m2 \<noteq> 0 then cp[eby := cp ! eby AND NOT m2] else cp)"

lemma clrbits_span:
  "len \<noteq> 1 \<Longrightarrow> off div NBBY < (off + len) div NBBY \<Longrightarrow>
   clrbits cp off len = clrspan cp (off div NBBY) (push_bit (off mod NBBY) 1 - 1)
     ((off + len) div NBBY) (push_bit ((off + len) mod NBBY) 1 - 1)"
  unfolding clrbits_def clrspan_def Let_def by (simp del: push_bit_of_1)

lemma bit_clrspan:
  assumes "sby < eby" "k < length cp"
  shows "bit (clrspan cp sby m1 eby m2 ! k) b =
    (bit (cp ! k) b \<and> b < NBBY \<and>
       (if k = eby then \<not> bit m2 b else if k = sby then bit m1 b else k < sby \<or> eby < k))"
proof -
  let ?c1 = "cp[sby := cp ! sby AND m1]"
  let ?c2 = "fold (\<lambda>i cp. cp[i := 0]) [sby + 1..<eby] ?c1"
  have c2: "?c2 ! k = (if sby < k \<and> k < eby then 0 else ?c1 ! k)"
    using assms(2) by (subst nth_fold_update) auto
  have "clrspan cp sby m1 eby m2 ! k = (if k = eby \<and> m2 \<noteq> 0 then ?c2 ! k AND NOT m2 else ?c2 ! k)"
    using assms(2) by (simp add: clrspan_def Let_def)
  then show ?thesis
    unfolding c2 using assms
    by (auto simp: bit_and_iff bit_not_iff nth_list_update dest: bit_imp_le_length)
qed

lemma bit_clrspan_masks:
  assumes "s < e" "k < length cp" "si < NBBY" "ei < NBBY" "b < NBBY"
  shows "bit (clrspan cp s (push_bit si 1 - 1) e (push_bit ei 1 - 1) ! k) b
    = ((k * NBBY + b < s * NBBY + si \<or> e * NBBY + ei \<le> k * NBBY + b) \<and> bit (cp ! k) b)"
  unfolding bit_clrspan [OF assms(1,2)] bit_exp_minus_1
  using assms by (cases "k = e"; cases "k = s") auto

lemma clrbits_nth_span:
  assumes "off div NBBY < (off + len) div NBBY" and "j < NBBY * length cp"
  shows "bit (clrspan cp (off div NBBY) (push_bit (off mod NBBY) 1 - 1) ((off + len) div NBBY)
       (push_bit ((off + len) mod NBBY) 1 - 1) ! (j div NBBY)) (j mod NBBY)
     = ((j < off \<or> off + len \<le> j) \<and> bit (cp ! (j div NBBY)) (j mod NBBY))"
proof -
  have "j div NBBY < length cp" using assms(2) by auto
  then show ?thesis
    by (subst bit_clrspan_masks [OF assms(1)]) (simp_all only: div_mult_mod_eq mod_less_divisor zero_less_numeral)
qed

lemma isset_clrbits:
  assumes "off + len \<le> NBBY * length cp" and j: "j < NBBY * length cp"
  shows "isset (clrbits cp off len) j = ((j < off \<or> off + len \<le> j) \<and> isset cp j)"
proof -
  let ?sby = "off div NBBY" and ?eby = "(off + len) div NBBY"
  consider "len = 1" | "len \<noteq> 1" "?sby = ?eby" | "len \<noteq> 1" "?sby < ?eby"
    using div_le_mono [of off "off + len" NBBY] by fastforce
  then show ?thesis
  proof cases
    case 1
    then show ?thesis using assms by (auto simp: clrbits_def isset_clrbit)
  next
    case 2
    then show ?thesis
      using clrbits_nth_same [OF 2(2) j] by (simp add: clrbits_def Let_def isset_bit)
  next
    case 3
    show ?thesis
      unfolding clrbits_span [OF 3] isset_bit
      by (rule clrbits_nth_span [OF 3(2) j])
  qed
qed

lemma clrbits_eq_ref:
  assumes "off + len \<le> NBBY * length cp"
  shows "clrbits cp off len = clrbits_ref cp off len"
  by (rule bitmap_eqI) (simp_all add: assms isset_clrbits isset_clrbits_ref)

text \<open>
  C40 (clrbits_refines_loop): \<^verbatim>\<open>clrbits\<close>, which masks the edge bytes and clears whole
  bytes between them, computes the bit-by-bit loop that its comment gives as its meaning, on
  every range inside the bit array.
\<close>

theorem clrbits_refines_loop:
  assumes "off + len \<le> NBBY * length cp"
  shows "clrbits cp off len = clrbits_ref cp off len"
  using assms by (rule clrbits_eq_ref)

theorem clrbits_refines_loop_witness:
  "clrbits [0xff, 0xff, 0xff] 3 15 = clrbits_ref [0xff, 0xff, 0xff] 3 15
   \<and> clrbits [0xff, 0xff, 0xff] 3 15 = [0x07, 0, 0xfc]"
  by (rule conjI, rule clrbits_refines_loop, simp, code_simp)

end
