(* ===== verification/Clist.thy ===== *)
theory Clist
  imports Bitmap
begin

text \<open>
  The character queues of the tty layer, \<^verbatim>\<open>kern/tty_subr.c\<close>.  A
  \<^verbatim>\<open>struct clist\<close> is a ring buffer of \<^verbatim>\<open>c_cn\<close> bytes with an
  optional bit array that marks quoted characters.  The ring is refined to the list of the
  characters it holds; every operation is a list operation under the ring invariant.

  Pointers into the ring are offsets from \<^verbatim>\<open>c_cs\<close>, with \<open>None\<close> for
  \<^verbatim>\<open>NULL\<close>.  A character travels as a C \<^verbatim>\<open>int\<close>: eight bits of data,
  \<^verbatim>\<open>TTY_QUOTE\<close> above them, and \<open>-1\<close> for ``no character''.  The interrupt level
  changes (\<^verbatim>\<open>spltty\<close>, \<^verbatim>\<open>splx\<close>) make each operation atomic, which
  state passing already says.
\<close>

record clist =
  c_cc :: nat
  c_cn :: nat
  c_cf :: "nat option"
  c_cl :: "nat option"
  c_cs :: "u8 list option"
  c_ce :: nat
  c_cq :: "u8 list option"

definition TTY_QUOTE :: u32 where
  "TTY_QUOTE = 0x100"

definition QMEM :: "nat \<Rightarrow> nat" where
  "QMEM n = (n - 1) div NBBY + 1"

definition clalloc :: "clist \<Rightarrow> nat \<Rightarrow> bool \<Rightarrow> clist" where
  "clalloc clp sz quot =
     clp\<lparr>c_cs := Some (replicate sz 0),
         c_cq := (if quot then Some (replicate (QMEM sz) 0) else None),
         c_cf := None, c_cl := None, c_ce := sz, c_cn := sz, c_cc := 0\<rparr>"

definition clfree :: "clist \<Rightarrow> clist" where
  "clfree clp = clp\<lparr>c_cs := None, c_cq := None\<rparr>"

text \<open>The character at an offset of the ring, with its quote mark.\<close>

definition clist_char :: "clist \<Rightarrow> nat \<Rightarrow> u32" where
  "clist_char clp i =
     (let c = ucast (the (c_cs clp) ! i) AND 0xff
      in case c_cq clp of None \<Rightarrow> c
         | Some q \<Rightarrow> if isset q i then c OR TTY_QUOTE else c)"

text \<open>The bit array is touched only where the queue has one.\<close>

definition put_quote :: "u32 \<Rightarrow> nat \<Rightarrow> u8 list option \<Rightarrow> u8 list option" where
  "put_quote c i = map_option (\<lambda>q. if has_flag c TTY_QUOTE then setbit q i else clrbit q i)"

definition clr_quote :: "nat \<Rightarrow> u8 list option \<Rightarrow> u8 list option" where
  "clr_quote i = map_option (\<lambda>q. clrbit q i)"

definition clr_quotes :: "nat \<Rightarrow> nat \<Rightarrow> u8 list option \<Rightarrow> u8 list option" where
  "clr_quotes off len = map_option (\<lambda>q. clrbits q off len)"

definition clist_reset :: "clist \<Rightarrow> clist" where
  "clist_reset clp = (if c_cc clp = 0 then clp\<lparr>c_cf := None, c_cl := None\<rparr> else clp)"

definition getc :: "clist \<Rightarrow> u32 \<times> clist" where
  "getc clp =
     (if c_cc clp = 0 then (- 1, clp)
      else
        let cf = the (c_cf clp);
            c = clist_char clp cf;
            clp = clp\<lparr>c_cs := Some ((the (c_cs clp))[cf := 0]),
                      c_cq := clr_quote cf (c_cq clp)\<rparr>;
            cf = cf + 1;
            cf = (if cf = c_ce clp then 0 else cf);
            clp = clp\<lparr>c_cc := c_cc clp - 1, c_cf := Some cf\<rparr>
        in (c, clist_reset clp))"

text \<open>
  The bulk loops move one contiguous run at a time.  \<open>clist_run\<close> is the length of the
  run from \<^verbatim>\<open>c_cf\<close> to \<^verbatim>\<open>c_cl\<close> or to the end of the ring.
\<close>

definition clist_run :: "clist \<Rightarrow> int \<Rightarrow> nat" where
  "clist_run clp count =
     (let cf = int (the (c_cf clp)); cl = int (the (c_cl clp));
          cc = cl - cf;
          cc = (if cf \<ge> cl then int (c_ce clp) - cf else cc);
          cc = (if cc > count then count else cc)
      in nat cc)"

definition advance_cf :: "clist \<Rightarrow> nat \<Rightarrow> clist" where
  "advance_cf clp n =
     (let cf = the (c_cf clp) + n
      in clp\<lparr>c_cc := c_cc clp - n, c_cf := Some (if cf = c_ce clp then 0 else cf)\<rparr>)"

partial_function (option) q_to_b_loop :: "clist \<Rightarrow> u8 list \<Rightarrow> int \<Rightarrow> (u8 list \<times> clist) option" where
  "q_to_b_loop clp p count =
     (if count > 0 \<and> c_cc clp > 0 then
        let cc = clist_run clp count;
            cf = the (c_cf clp);
            cs = the (c_cs clp);
            p = p @ mem_read cs cf cc;
            clp = clp\<lparr>c_cs := Some (mem_write cs cf (replicate cc 0)),
                      c_cq := clr_quotes cf cc (c_cq clp)\<rparr>
        in q_to_b_loop (advance_cf clp cc) p (count - int cc)
      else Some (p, clp))"

definition q_to_b :: "clist \<Rightarrow> int \<Rightarrow> (u8 list \<times> clist) option" where
  "q_to_b clp count = map_option (map_prod id clist_reset) (q_to_b_loop clp [] count)"

fun ndqb_quote :: "u8 list \<Rightarrow> u8 list \<Rightarrow> u32 \<Rightarrow> nat \<Rightarrow> nat \<Rightarrow> nat \<Rightarrow> nat \<Rightarrow> nat" where
  "ndqb_quote cs cq flag cn 0 i count = count"
| "ndqb_quote cs cq flag cn (Suc cc) i count =
     (if ucast (cs ! i) AND (flag AND NOT TTY_QUOTE) \<noteq> 0 \<or> isset cq (i + 1) then count
      else if i + 1 = cn then count + 1
      else ndqb_quote cs cq flag cn cc (i + 1) (count + 1))"

fun ndqb_plain :: "u8 list \<Rightarrow> u32 \<Rightarrow> nat \<Rightarrow> nat \<Rightarrow> nat \<Rightarrow> nat \<Rightarrow> nat" where
  "ndqb_plain cs flag cn 0 i count = count"
| "ndqb_plain cs flag cn (Suc cc) i count =
     (if ucast (cs ! i) AND flag \<noteq> 0 then count
      else if i + 1 = cn then count + 1
      else ndqb_plain cs flag cn cc (i + 1) (count + 1))"

definition ndqb :: "clist \<Rightarrow> u32 \<Rightarrow> nat" where
  "ndqb clp flag =
     (if c_cc clp = 0 then 0
      else
        let cf = the (c_cf clp); cl = the (c_cl clp)
        in if flag = 0 then
             (let count = int cl - int cf in nat (if count \<le> 0 then int (c_ce clp) - int cf else count))
           else if has_flag flag TTY_QUOTE then
             ndqb_quote (the (c_cs clp)) (the (c_cq clp)) flag (c_cn clp) (c_cc clp) cf 0
           else ndqb_plain (the (c_cs clp)) flag (c_cn clp) (c_cc clp) cf 0)"

partial_function (option) ndflush_loop :: "clist \<Rightarrow> int \<Rightarrow> clist option" where
  "ndflush_loop clp count =
     (if count > 0 \<and> c_cc clp > 0 then
        let cc = clist_run clp count
        in ndflush_loop (advance_cf clp cc) (count - int cc)
      else Some clp)"

definition ndflush :: "clist \<Rightarrow> int \<Rightarrow> clist option" where
  "ndflush clp count =
     (if count = int (c_cc clp) then Some (clp\<lparr>c_cc := 0, c_cf := None, c_cl := None\<rparr>)
      else map_option clist_reset (ndflush_loop clp count))"

text \<open>An empty queue starts again at the beginning of the ring, allocating it if need be.\<close>

definition clist_start :: "clist \<Rightarrow> clist" where
  "clist_start clp =
     (if c_cc clp = 0 then
        let clp = (if c_cs clp = None then clalloc clp 1024 True else clp)
        in clp\<lparr>c_cf := Some 0, c_cl := Some 0\<rparr>
      else clp)"

definition putc :: "u32 \<Rightarrow> clist \<Rightarrow> u32 \<times> clist" where
  "putc c clp =
     (if c_cc clp = c_cn clp then (- 1, clp)
      else
        let clp = clist_start clp;
            i = the (c_cl clp);
            clp = clp\<lparr>c_cs := Some ((the (c_cs clp))[i := ucast (c AND 0xff)]),
                      c_cq := put_quote c i (c_cq clp)\<rparr>;
            cl = i + 1
        in (0, clp\<lparr>c_cc := c_cc clp + 1, c_cl := Some (if cl = c_ce clp then 0 else cl)\<rparr>))"

text \<open>The length of the free run from \<^verbatim>\<open>c_cl\<close>.\<close>

definition clist_room :: "clist \<Rightarrow> int \<Rightarrow> nat" where
  "clist_room clp count =
     (let cf = int (the (c_cf clp)); cl = int (the (c_cl clp));
          cc = int (c_ce clp) - cl;
          cc = (if cf > cl then cf - cl else cc);
          cc = (if cc > count then count else cc)
      in nat cc)"

partial_function (option) b_to_q_loop :: "u8 list \<Rightarrow> int \<Rightarrow> clist \<Rightarrow> (int \<times> clist) option" where
  "b_to_q_loop p count clp =
     (if count > 0 \<and> c_cc clp < c_cn clp then
        let n = clist_room clp count;
            i = the (c_cl clp);
            clp = clp\<lparr>c_cs := Some (mem_write (the (c_cs clp)) i (take n p)),
                      c_cq := clr_quotes i n (c_cq clp)\<rparr>;
            clp = clp\<lparr>c_cc := c_cc clp + n, c_cl := Some (if i + n = c_ce clp then 0 else i + n)\<rparr>
        in b_to_q_loop (drop n p) (count - int n) clp
      else Some (count, clp))"

definition b_to_q :: "u8 list \<Rightarrow> int \<Rightarrow> clist \<Rightarrow> (int \<times> clist) option" where
  "b_to_q cp count clp =
     (if count \<le> 0 then Some (0, clp)
      else if c_cc clp = c_cn clp then Some (count, clp)
      else b_to_q_loop cp count (clist_start clp))"

text \<open>
  \<^verbatim>\<open>nextc\<close> and \<^verbatim>\<open>firstc\<close> walk the queue; the number of characters left to
  visit is the file's static variable \<^verbatim>\<open>cc\<close>, passed here explicitly.  Each returns
  the new pointer with the character it points at, and the counter.
\<close>

definition nextc :: "clist \<Rightarrow> nat option \<Rightarrow> nat \<Rightarrow> (nat \<times> u32) option \<times> nat" where
  "nextc clp cp cc =
     (let cc = (if c_cf clp = cp then c_cc clp else cc)
      in if cc = 0 \<or> cp = None then (None, cc)
         else if cc - 1 = 0 then (None, cc - 1)
         else let i = the cp + 1; i = (if i = c_ce clp then 0 else i)
              in (Some (i, clist_char clp i), cc - 1))"

definition firstc :: "clist \<Rightarrow> (nat \<times> u32) option \<times> nat" where
  "firstc clp =
     (let cc = c_cc clp
      in if cc = 0 then (None, cc)
         else (let cf = the (c_cf clp) in (Some (cf, clist_char clp cf), cc)))"

definition unputc :: "clist \<Rightarrow> u32 \<times> clist" where
  "unputc clp =
     (if c_cc clp = 0 then (- 1, clp)
      else
        let cl = (if c_cl clp = Some 0 then c_ce clp - 1 else the (c_cl clp) - 1);
            c = clist_char clp cl;
            clp = clp\<lparr>c_cs := Some ((the (c_cs clp))[cl := 0]),
                      c_cq := clr_quote cl (c_cq clp),
                      c_cl := Some cl, c_cc := c_cc clp - 1\<rparr>
        in (c, clist_reset clp))"

lemmas quote_defs = put_quote_def clr_quote_def clr_quotes_def

lemma quote_None [simp]:
  "put_quote c i cq = None \<longleftrightarrow> cq = None" "clr_quote i cq = None \<longleftrightarrow> cq = None"
  "clr_quotes i n cq = None \<longleftrightarrow> cq = None"
  by (simp_all add: quote_defs)

lemma c_cc_getc: "c_cc clp \<noteq> 0 \<Longrightarrow> c_cc (snd (getc clp)) = c_cc clp - 1"
  by (simp add: getc_def Let_def clist_reset_def)

function catq_loop :: "clist \<Rightarrow> clist \<Rightarrow> clist \<times> clist" where
  "catq_loop frm tq =
     (let (c, frm') = getc frm
      in if c \<noteq> - 1 then catq_loop frm' (snd (putc c tq)) else (frm', tq))"
  by pat_completeness auto
termination
proof (relation "measure (\<lambda>(frm, tq). c_cc frm)")
  fix frm tq :: clist and x c frm'
  assume "x = getc frm" "(c, frm') = x" "c \<noteq> - 1"
  then have "c_cc frm \<noteq> 0" "frm' = snd (getc frm)"
    by (auto simp: getc_def split: if_splits) (metis snd_conv)
  then show "((frm', snd (putc c tq)), frm, tq) \<in> measure (\<lambda>(frm, tq). c_cc frm)"
    by (simp add: c_cc_getc)
qed simp

declare catq_loop.simps [simp del]

definition catq :: "clist \<Rightarrow> clist \<Rightarrow> clist \<times> clist" where
  "catq frm tq =
     (if c_cc frm = 0 then (frm, tq)
      else if c_cc tq = 0 \<and> c_cn frm = c_cn tq then (tq, frm)
      else catq_loop frm tq)"

subsection \<open>The ring invariant and the list it holds\<close>

definition storage_ok :: "clist \<Rightarrow> bool" where
  "storage_ok clp \<longleftrightarrow>
     (case c_cs clp of None \<Rightarrow> False | Some cs \<Rightarrow> length cs = c_cn clp)
     \<and> (case c_cq clp of None \<Rightarrow> True | Some q \<Rightarrow> c_cn clp \<le> NBBY * length q)
     \<and> c_ce clp = c_cn clp \<and> 0 < c_cn clp \<and> c_cc clp \<le> c_cn clp"

definition ring_ok :: "clist \<Rightarrow> bool" where
  "ring_ok clp \<longleftrightarrow>
     (case (c_cf clp, c_cl clp) of
        (Some cf, Some cl) \<Rightarrow> cf < c_cn clp \<and> cl = (cf + c_cc clp) mod c_cn clp
      | _ \<Rightarrow> False)"

definition clist_inv :: "clist \<Rightarrow> bool" where
  "clist_inv clp \<longleftrightarrow> storage_ok clp \<and> (c_cc clp = 0 \<or> ring_ok clp)"

definition clist_list :: "clist \<Rightarrow> u32 list" where
  "clist_list clp =
     map (\<lambda>k. clist_char clp ((the (c_cf clp) + k) mod c_cn clp)) [0..<c_cc clp]"

text \<open>What a queue keeps of a character: nine bits with quoting, eight without.\<close>

definition char_norm :: "clist \<Rightarrow> u32 \<Rightarrow> u32" where
  "char_norm clp c = (if c_cq clp = None then c AND 0xff else c AND 0x1ff)"

lemma length_clist_list [simp]: "length (clist_list clp) = c_cc clp"
  by (simp add: clist_list_def)

lemma clist_list_empty: "c_cc clp = 0 \<Longrightarrow> clist_list clp = []"
  by (simp add: clist_list_def)

lemma ring_idx:
  "cf < n \<Longrightarrow> k \<le> n \<Longrightarrow> (cf + k) mod n = (if cf + k < n then cf + k else cf + k - (n::nat))"
  by (simp add: mod_if)

lemma ring_inj:
  "cf < n \<Longrightarrow> k < n \<Longrightarrow> k' < n \<Longrightarrow> (cf + k) mod n = (cf + k') mod n \<Longrightarrow> k = (k'::nat)"
  by (simp add: ring_idx split: if_splits)

lemma ring_okD:
  assumes "ring_ok clp"
  obtains cf where "c_cf clp = Some cf" "cf < c_cn clp"
    "c_cl clp = Some ((cf + c_cc clp) mod c_cn clp)"
  using assms by (auto simp: ring_ok_def split: option.splits)

lemma storage_okD:
  assumes "storage_ok clp"
  obtains cs where "c_cs clp = Some cs" "length cs = c_cn clp" "c_ce clp = c_cn clp"
    "0 < c_cn clp" "c_cc clp \<le> c_cn clp"
    "\<And>q. c_cq clp = Some q \<Longrightarrow> c_cn clp \<le> NBBY * length q"
  using assms by (auto simp: storage_ok_def split: option.splits)

subsection \<open>Characters after a write\<close>

lemma has_quote: "has_flag c TTY_QUOTE = bit c 8"
  by (simp add: has_flag_def TTY_QUOTE_def bit_iff_and_push_bit_not_eq_0)

lemma bit_quote: "bit TTY_QUOTE n \<longleftrightarrow> n = 8"
proof -
  have "TTY_QUOTE = 2 ^ 8" by (simp add: TTY_QUOTE_def)
  then have "bit TTY_QUOTE n = bit (2 ^ 8 :: u32) n" by simp
  then show ?thesis by (simp add: bit_exp_iff del: power_numeral) auto
qed

lemma low_bits: "(0xff :: u32) = mask 8" "(0x1ff :: u32) = mask 9"
  by (simp_all add: mask_eq_exp_minus_1)

lemma char_bits:
  "ucast (ucast (c AND 0xff) :: u8) AND 0xff = (c AND 0xff :: u32)"
  "has_flag c TTY_QUOTE \<Longrightarrow> (c AND 0xff) OR TTY_QUOTE = c AND 0x1ff"
  "\<not> has_flag c TTY_QUOTE \<Longrightarrow> c AND 0x1ff = c AND 0xff"
proof -
  show "ucast (ucast (c AND 0xff) :: u8) AND 0xff = (c AND 0xff :: u32)"
    unfolding low_bits by (rule bit_word_eqI) (auto simp: bit_simps)
  have "bit ((c AND mask 8) OR TTY_QUOTE) n = bit (c AND mask 9) n"
    if "bit c 8" for n
    using that by (cases "n = 8") (auto simp: TTY_QUOTE_def bit_simps bit_exp_iff less_Suc_eq
        numeral_eq_Suc simp flip: power_0)
  then show "has_flag c TTY_QUOTE \<Longrightarrow> (c AND 0xff) OR TTY_QUOTE = c AND 0x1ff"
    unfolding low_bits has_quote by (auto intro: bit_word_eqI)
  have "bit (c AND mask 9) n = bit (c AND mask 8) n" if "\<not> bit c 8" for n
    using that by (cases "n = 8") (auto simp: bit_simps)
  then show "\<not> has_flag c TTY_QUOTE \<Longrightarrow> c AND 0x1ff = c AND 0xff"
    unfolding low_bits has_quote by (auto intro: bit_word_eqI)
qed

lemma byte: "ucast (b :: u8) AND 0xff = (ucast b :: u32)"
  unfolding low_bits by (rule bit_word_eqI) (auto simp: bit_simps dest: bit_imp_le_length)

lemma clist_char_write:
  assumes "storage_ok clp" "i < c_cn clp" "j < c_cn clp"
  shows "clist_char (clp\<lparr>c_cs := Some ((the (c_cs clp))[i := ucast (c AND 0xff)]),
      c_cq := put_quote c i (c_cq clp)\<rparr>) j
    = (if j = i then char_norm clp c else clist_char clp j)"
  using assms(1)
proof (rule storage_okD)
  fix cs
  assume cs: "c_cs clp = Some cs" "length cs = c_cn clp"
    and q: "\<And>q. c_cq clp = Some q \<Longrightarrow> c_cn clp \<le> NBBY * length q"
  show ?thesis
  proof (cases "c_cq clp")
    case None
    then show ?thesis using cs assms by (simp add: clist_char_def char_norm_def char_bits quote_defs)
  next
    case (Some a)
    then have "i < NBBY * length a" "j < NBBY * length a" using q assms by fastforce+
    then show ?thesis
      using Some cs assms
      by (auto simp: clist_char_def char_norm_def char_bits isset_setbit isset_clrbit quote_defs Let_def)
  qed
qed

lemma clist_char_frame [simp]:
  "clist_char (clp\<lparr>c_cc := x\<rparr>) i = clist_char clp i"
  "clist_char (clp\<lparr>c_cf := y\<rparr>) i = clist_char clp i"
  "clist_char (clp\<lparr>c_cl := y\<rparr>) i = clist_char clp i"
  by (simp_all add: clist_char_def)

lemma clist_char_bulk:
  assumes "storage_ok clp" "i + n \<le> c_cn clp" "length ys = n" "j < c_cn clp"
  shows "clist_char (clp\<lparr>c_cs := Some (mem_write (the (c_cs clp)) i ys),
      c_cq := clr_quotes i n (c_cq clp)\<rparr>) j
    = (if i \<le> j \<and> j < i + n then ucast (ys ! (j - i)) else clist_char clp j)"
  using assms(1)
proof (rule storage_okD)
  fix cs
  assume cs: "c_cs clp = Some cs" "length cs = c_cn clp"
    and q: "\<And>q. c_cq clp = Some q \<Longrightarrow> c_cn clp \<le> NBBY * length q"
  show ?thesis
  proof (cases "c_cq clp")
    case None
    then show ?thesis using cs assms by (simp add: clist_char_def nth_mem_write byte quote_defs)
  next
    case (Some a)
    then have "i + n \<le> NBBY * length a" "j < NBBY * length a" using q assms by fastforce+
    then show ?thesis
      using Some cs assms
      by (auto simp: clist_char_def nth_mem_write isset_clrbits byte quote_defs Let_def)
  qed
qed

subsection \<open>Single characters\<close>

lemma clist_start_ok:
  assumes "clist_inv clp"
  shows "storage_ok (clist_start clp)" "ring_ok (clist_start clp)"
    "clist_list (clist_start clp) = clist_list clp"
    "c_cc (clist_start clp) = c_cc clp" "c_cn (clist_start clp) = c_cn clp"
    "c_cq (clist_start clp) = c_cq clp" "c_cs (clist_start clp) = c_cs clp"
  using assms
  by (auto simp: clist_inv_def clist_start_def storage_ok_def ring_ok_def clist_list_def
      split: option.splits)

lemma putc_full: "c_cc clp = c_cn clp \<Longrightarrow> putc c clp = (- 1, clp)"
  by (simp add: putc_def)

lemma putc_correct:
  assumes inv: "clist_inv clp" and room: "c_cc clp < c_cn clp"
  shows "fst (putc c clp) = 0" "clist_inv (snd (putc c clp))"
    "clist_list (snd (putc c clp)) = clist_list clp @ [char_norm clp c]"
    "c_cn (snd (putc c clp)) = c_cn clp"
    "(c_cq (snd (putc c clp)) = None) = (c_cq clp = None)"
proof -
  note st = clist_start_ok [OF inv]
  obtain cs where cs: "c_cs (clist_start clp) = Some cs" "length cs = c_cn clp"
    "c_ce (clist_start clp) = c_cn clp"
    using st(1,5) by (metis storage_okD)
  obtain cf where cf: "c_cf (clist_start clp) = Some cf" "cf < c_cn clp"
    "c_cl (clist_start clp) = Some ((cf + c_cc clp) mod c_cn clp)"
    using st(2,4,5) by (metis ring_okD)
  let ?i = "(cf + c_cc clp) mod c_cn clp"
  let ?w = "(clist_start clp)\<lparr>c_cs := Some (cs[?i := ucast (c AND 0xff)]),
      c_cq := put_quote c ?i (c_cq (clist_start clp))\<rparr>"
  have put: "putc c clp = (0, ?w\<lparr>c_cc := c_cc clp + 1,
      c_cl := Some (if ?i + 1 = c_cn clp then 0 else ?i + 1)\<rparr>)"
    using room cs cf st(4) by (simp add: putc_def Let_def)
  have i: "?i < c_cn clp" using room by simp
  have w: "clist_char ?w j = (if j = ?i then char_norm clp c else clist_char (clist_start clp) j)"
    if "j < c_cn clp" for j
    using clist_char_write [OF st(1), of ?i j c] that i cs st(5,6) by (simp add: char_norm_def)
  show "fst (putc c clp) = 0" "c_cn (snd (putc c clp)) = c_cn clp"
    "(c_cq (snd (putc c clp)) = None) = (c_cq clp = None)"
    using put st(5,6) by simp_all
  show "clist_inv (snd (putc c clp))"
    using put st room cs cf i
    by (auto simp: clist_inv_def storage_ok_def ring_ok_def mod_Suc quote_defs split: option.splits)
  have "(cf + k) mod c_cn clp \<noteq> ?i" if "k < c_cc clp" for k
    using ring_inj [of cf "c_cn clp" k "c_cc clp"] that cf room by auto
  then have "map (\<lambda>k. clist_char ?w ((cf + k) mod c_cn clp)) [0..<c_cc clp]
      = map (\<lambda>k. clist_char (clist_start clp) ((cf + k) mod c_cn clp)) [0..<c_cc clp]"
    using cf by (auto simp: w)
  then show "clist_list (snd (putc c clp)) = clist_list clp @ [char_norm clp c]"
    using put st(3,4,5) cf i w [of ?i] by (simp add: clist_list_def)
qed

lemma clist_reset_simps [simp]:
  "clist_list (clist_reset clp) = clist_list clp" "c_cc (clist_reset clp) = c_cc clp"
  "c_cn (clist_reset clp) = c_cn clp" "c_cq (clist_reset clp) = c_cq clp"
  "storage_ok (clist_reset clp) = storage_ok clp"
  by (simp_all add: clist_reset_def clist_list_def storage_ok_def split: option.splits)

lemma ring_ok_frame [simp]:
  "ring_ok (clp\<lparr>c_cs := x\<rparr>) = ring_ok clp" "ring_ok (clp\<lparr>c_cq := y\<rparr>) = ring_ok clp"
  by (simp_all add: ring_ok_def split: option.splits)

lemma clist_inv_reset: "storage_ok clp \<Longrightarrow> ring_ok clp \<Longrightarrow> clist_inv (clist_reset clp)"
  by (auto simp: clist_inv_def clist_reset_def storage_ok_def ring_ok_def split: option.splits)

lemma not_flag_0 [simp]: "\<not> has_flag 0 f"
  by (simp add: has_flag_def)

lemma clr_quote_put: "clr_quote i = put_quote 0 i"
  by (simp add: quote_defs)

lemma clist_char_clear:
  assumes "storage_ok clp" "i < c_cn clp" "j < c_cn clp" "j \<noteq> i"
  shows "clist_char (clp\<lparr>c_cs := Some ((the (c_cs clp))[i := 0]),
      c_cq := clr_quote i (c_cq clp)\<rparr>) j = clist_char clp j"
  using clist_char_write [OF assms(1-3), of 0] assms(4) by (simp add: clr_quote_put)

lemma storage_ok_clear:
  "storage_ok clp \<Longrightarrow>
    storage_ok (clp\<lparr>c_cs := Some ((the (c_cs clp))[i := 0]), c_cq := clr_quote i (c_cq clp)\<rparr>)"
  by (auto simp: storage_ok_def quote_defs split: option.splits)

lemma advance_cf_cf:
  assumes "storage_ok clp" "c_cf clp = Some cf" "cf < c_cn clp" "cf + n \<le> c_cn clp"
  shows "c_cf (advance_cf clp n) = Some ((cf + n) mod c_cn clp)"
proof -
  have "c_ce clp = c_cn clp" using assms(1) by (rule storage_okD)
  then show ?thesis using assms by (auto simp: advance_cf_def Let_def)
qed

lemma advance_cf_ok:
  assumes "storage_ok clp" "ring_ok clp" "n \<le> c_cc clp" "the (c_cf clp) + n \<le> c_cn clp"
  shows "storage_ok (advance_cf clp n)" "ring_ok (advance_cf clp n)"
    "clist_list (advance_cf clp n) = drop n (clist_list clp)"
    "c_cn (advance_cf clp n) = c_cn clp" "c_cq (advance_cf clp n) = c_cq clp"
    "c_cc (advance_cf clp n) = c_cc clp - n"
proof -
  obtain cf where cf: "c_cf clp = Some cf" "cf < c_cn clp"
    "c_cl clp = Some ((cf + c_cc clp) mod c_cn clp)"
    using assms(2) by (rule ring_okD)
  have cf': "c_cf (advance_cf clp n) = Some ((cf + n) mod c_cn clp)"
    using cf assms(4) by (intro advance_cf_cf [OF assms(1)]) auto
  have "((cf + n) mod c_cn clp + (c_cc clp - n)) mod c_cn clp = (cf + c_cc clp) mod c_cn clp"
    using assms(3) by (simp only: mod_add_left_eq add.assoc le_add_diff_inverse)
  then show "ring_ok (advance_cf clp n)"
    using cf' cf by (simp add: ring_ok_def advance_cf_def Let_def)
  show "storage_ok (advance_cf clp n)"
    using assms(1) by (auto simp: storage_ok_def advance_cf_def Let_def split: option.splits)
  have "((cf + n) mod c_cn clp + k) mod c_cn clp = (cf + (n + k)) mod c_cn clp" for k
    by (simp add: mod_simps add.assoc)
  then show "clist_list (advance_cf clp n) = drop n (clist_list clp)"
    using cf cf' by (intro nth_equalityI) (auto simp: clist_list_def advance_cf_def Let_def)
qed (simp_all add: advance_cf_def Let_def)

lemma clist_list_cong:
  assumes "c_cc a = c_cc b" "c_cn a = c_cn b" "c_cf a = c_cf b"
    and "\<And>k. k < c_cc b \<Longrightarrow> clist_char a ((the (c_cf b) + k) mod c_cn b)
        = clist_char b ((the (c_cf b) + k) mod c_cn b)"
  shows "clist_list a = clist_list b"
  using assms by (simp add: clist_list_def)

lemma getc_empty: "c_cc clp = 0 \<Longrightarrow> getc clp = (- 1, clp)"
  by (simp add: getc_def)

lemma getc_correct:
  assumes inv: "clist_inv clp" and ne: "clist_list clp = c # cs"
  shows "fst (getc clp) = c" "clist_inv (snd (getc clp))" "clist_list (snd (getc clp)) = cs"
    "c_cn (snd (getc clp)) = c_cn clp" "(c_cq (snd (getc clp)) = None) = (c_cq clp = None)"
proof -
  have cc: "0 < c_cc clp" using ne length_clist_list [of clp] by auto
  with inv have st: "storage_ok clp" and ring: "ring_ok clp" by (auto simp: clist_inv_def)
  obtain cf where cf: "c_cf clp = Some cf" "cf < c_cn clp" using ring by (rule ring_okD)
  let ?w = "clp\<lparr>c_cs := Some ((the (c_cs clp))[cf := 0]), c_cq := clr_quote cf (c_cq clp)\<rparr>"
  let ?a = "advance_cf clp 1"
  let ?wa = "advance_cf ?w 1"
  have get: "getc clp = (clist_char clp cf, clist_reset ?wa)"
    using cc cf by (simp add: getc_def advance_cf_def Let_def)
  have "ring_ok ?w" using ring by simp
  note adv = advance_cf_ok [OF st ring, of 1]
    and advw = advance_cf_ok [OF storage_ok_clear [OF st] this, of 1]
  have "clist_list ?wa = clist_list ?a"
  proof (rule clist_list_cong)
    fix k assume k: "k < c_cc ?a"
    let ?j = "(the (c_cf ?a) + k) mod c_cn ?a"
    have "?j = (cf + Suc k) mod c_cn clp"
      using cf cc adv(4) by (simp add: advance_cf_cf [OF st] mod_simps)
    moreover have "Suc k < c_cn clp"
      using k st by (auto simp: advance_cf_def Let_def storage_ok_def)
    then have "(cf + Suc k) mod c_cn clp \<noteq> cf"
      using ring_inj [of cf "c_cn clp" "Suc k" 0] cf by auto
    ultimately have "clist_char ?w ?j = clist_char clp ?j"
      using cf by (intro clist_char_clear [OF st]) auto
    then show "clist_char ?wa ?j = clist_char ?a ?j" by (simp add: advance_cf_def Let_def)
  qed (simp_all add: advance_cf_def Let_def)
  then show "clist_list (snd (getc clp)) = cs"
    using get adv(3) cc cf ne by simp
  have "clist_char clp cf = clist_list clp ! 0" using cc cf by (simp add: clist_list_def)
  then show "fst (getc clp) = c" using get ne by simp
  show "clist_inv (snd (getc clp))"
    using get advw(1,2) cc cf by (simp add: clist_inv_reset)
  show "c_cn (snd (getc clp)) = c_cn clp" "(c_cq (snd (getc clp)) = None) = (c_cq clp = None)"
    using get by (simp_all add: advance_cf_def Let_def)
qed

lemma unputc_empty: "c_cc clp = 0 \<Longrightarrow> unputc clp = (- 1, clp)"
  by (simp add: unputc_def)

lemma unputc_correct:
  assumes inv: "clist_inv clp" and ne: "clist_list clp = cs @ [c]"
  shows "fst (unputc clp) = c" "clist_inv (snd (unputc clp))" "clist_list (snd (unputc clp)) = cs"
    "c_cn (snd (unputc clp)) = c_cn clp" "(c_cq (snd (unputc clp)) = None) = (c_cq clp = None)"
proof -
  have cc: "0 < c_cc clp" and len: "length cs = c_cc clp - 1"
    using ne length_clist_list [of clp] by auto
  with inv have st: "storage_ok clp" and ring: "ring_ok clp" by (auto simp: clist_inv_def)
  obtain cf where cf: "c_cf clp = Some cf" "cf < c_cn clp"
    "c_cl clp = Some ((cf + c_cc clp) mod c_cn clp)" using ring by (rule ring_okD)
  have ce: "c_ce clp = c_cn clp" "0 < c_cn clp" "c_cc clp \<le> c_cn clp"
    using st by (auto simp: storage_ok_def)
  let ?i = "(cf + (c_cc clp - 1)) mod c_cn clp"
  let ?w = "clp\<lparr>c_cs := Some ((the (c_cs clp))[?i := 0]), c_cq := clr_quote ?i (c_cq clp)\<rparr>"
  have i: "?i = (if c_cl clp = Some 0 then c_ce clp - 1 else the (c_cl clp) - 1)"
    using cf cc ce ring_idx [of cf "c_cn clp" "c_cc clp - 1"] ring_idx [of cf "c_cn clp" "c_cc clp"]
    by (auto split: if_splits)
  let ?r = "?w\<lparr>c_cl := Some ?i, c_cc := c_cc clp - 1\<rparr>"
  have un: "unputc clp = (clist_char clp ?i, clist_reset ?r)"
    unfolding i using cc by (simp add: unputc_def Let_def)
  have w: "clist_char ?w ((cf + k) mod c_cn clp) = clist_list clp ! k" if "k < c_cc clp - 1" for k
  proof -
    have "k < c_cn clp" "c_cc clp - 1 < c_cn clp" using that ce by linarith+
    then have "(cf + k) mod c_cn clp \<noteq> ?i"
      using ring_inj [OF cf(2), of k "c_cc clp - 1"] that by auto
    then show ?thesis
      using that cf ce by (subst clist_char_clear [OF st]) (auto simp: clist_list_def)
  qed
  have "clist_list ?r = cs"
  proof (rule nth_equalityI)
    fix k assume "k < length (clist_list ?r)"
    then have k: "k < c_cc clp - 1" by simp
    then have "clist_list ?r ! k = clist_char ?w ((cf + k) mod c_cn clp)"
      using cf by (simp add: clist_list_def)
    then have "clist_list ?r ! k = clist_list clp ! k" by (simp only: w [OF k])
    then show "clist_list ?r ! k = cs ! k" using k len ne by (simp add: nth_append)
  qed (simp add: len)
  then show "clist_list (snd (unputc clp)) = cs" using un by simp
  have "clist_char clp ?i = clist_list clp ! (c_cc clp - 1)"
    using cc cf by (simp add: clist_list_def)
  also have "\<dots> = c" unfolding ne len [symmetric] by simp
  finally show "fst (unputc clp) = c" using un by simp
  have "storage_ok ?w" by (rule storage_ok_clear [OF st])
  then have "storage_ok ?r" by (auto simp: storage_ok_def quote_defs split: option.splits)
  moreover have "ring_ok ?r" using cf by (simp add: ring_ok_def)
  ultimately show "clist_inv (snd (unputc clp))" using un by (simp add: clist_inv_reset)
  show "c_cn (snd (unputc clp)) = c_cn clp" "(c_cq (snd (unputc clp)) = None) = (c_cq clp = None)"
    using un by simp_all
qed

subsection \<open>Runs of characters\<close>

lemma clist_run_bounds:
  assumes "storage_ok clp" "ring_ok clp" "0 < c_cc clp" "0 < count"
  shows "0 < clist_run clp count" "clist_run clp count \<le> c_cc clp"
    "the (c_cf clp) + clist_run clp count \<le> c_cn clp" "int (clist_run clp count) \<le> count"
proof -
  obtain cf where cf: "c_cf clp = Some cf" "cf < c_cn clp"
    "c_cl clp = Some ((cf + c_cc clp) mod c_cn clp)"
    using assms(2) by (rule ring_okD)
  have ce: "c_ce clp = c_cn clp" "c_cc clp \<le> c_cn clp" using assms(1) by (auto simp: storage_ok_def)
  have "clist_run clp count = nat (min count
      (if cf + c_cc clp < c_cn clp then int (c_cc clp) else int (c_cn clp) - int cf))"
    using cf ce assms(3) by (auto simp: clist_run_def Let_def ring_idx min_def)
  then show "0 < clist_run clp count" "clist_run clp count \<le> c_cc clp"
    "the (c_cf clp) + clist_run clp count \<le> c_cn clp" "int (clist_run clp count) \<le> count"
    using cf ce assms(3,4) by (auto simp: min_def)
qed

lemma byte_of_char: "ucast (clist_char clp i) = the (c_cs clp) ! i"
proof -
  have "ucast ((ucast b :: u32) OR TTY_QUOTE) = (b :: u8)" for b
    by (rule bit_word_eqI) (auto simp: bit_simps bit_quote)
  moreover have "ucast (ucast b :: u32) = (b :: u8)" for b
    by (rule bit_word_eqI) (auto simp: bit_simps)
  ultimately show ?thesis by (simp add: clist_char_def byte Let_def split: option.splits)
qed

lemma mem_read_ring:
  assumes "storage_ok clp" "c_cf clp = Some cf" "n \<le> c_cc clp" "cf + n \<le> c_cn clp"
  shows "mem_read (the (c_cs clp)) cf n = map ucast (take n (clist_list clp))"
proof -
  obtain cs where "c_cs clp = Some cs" "length cs = c_cn clp" using assms(1) by (rule storage_okD)
  then show ?thesis
    using assms by (intro nth_equalityI) (auto simp: nth_mem_read clist_list_def byte_of_char)
qed

lemma q_to_b_run:
  assumes st: "storage_ok clp" and ring: "ring_ok clp" and cf: "c_cf clp = Some cf"
    and n: "n \<le> c_cc clp" "cf + n \<le> c_cn clp"
  defines "w \<equiv> clp\<lparr>c_cs := Some (mem_write (the (c_cs clp)) cf (replicate n 0)),
      c_cq := clr_quotes cf n (c_cq clp)\<rparr>"
  shows "storage_ok (advance_cf w n)" "ring_ok (advance_cf w n)"
    "clist_list (advance_cf w n) = drop n (clist_list clp)"
proof -
  obtain cs where cs: "c_cs clp = Some cs" "length cs = c_cn clp" using st by (rule storage_okD)
  have cf': "cf < c_cn clp" using ring cf by (auto simp: ring_ok_def split: option.splits)
  have w: "storage_ok w" "ring_ok w"
    using st ring cs n by (auto simp: w_def storage_ok_def quote_defs split: option.splits)
  have w': "c_cf w = Some cf" "c_cc w = c_cc clp" "c_cn w = c_cn clp" using cf by (simp_all add: w_def)
  note adv = advance_cf_ok [OF st ring, of n] and advw = advance_cf_ok [OF w, of n]
  show "storage_ok (advance_cf w n)" "ring_ok (advance_cf w n)" using advw w' n by simp_all
  have "clist_list (advance_cf w n) = clist_list (advance_cf clp n)"
  proof (rule clist_list_cong)
    fix k assume k: "k < c_cc (advance_cf clp n)"
    let ?j = "(the (c_cf (advance_cf clp n)) + k) mod c_cn (advance_cf clp n)"
    have nk: "n + k < c_cc clp" "c_cc clp \<le> c_cn clp"
      using k n st by (auto simp: advance_cf_def Let_def storage_ok_def)
    have j: "?j = (cf + (n + k)) mod c_cn clp"
      using cf cf' n adv(4) by (simp add: advance_cf_cf [OF st] mod_simps add.assoc)
    have "\<not> (cf \<le> ?j \<and> ?j < cf + n)"
      unfolding j using ring_idx [OF cf', of "n + k"] nk n by (auto split: if_splits)
    moreover have "?j < c_cn clp" using j cf' by simp
    ultimately have "clist_char w ?j = clist_char clp ?j"
      unfolding w_def using n by (subst clist_char_bulk [OF st]) auto
    then show "clist_char (advance_cf w n) ?j = clist_char (advance_cf clp n) ?j"
      by (simp add: advance_cf_def Let_def)
  qed (simp_all add: w_def advance_cf_def Let_def)
  then show "clist_list (advance_cf w n) = drop n (clist_list clp)"
    using adv(3) cf n by simp
qed

lemma q_to_b_loop_correct:
  "storage_ok clp \<Longrightarrow> ring_ok clp \<Longrightarrow>
   \<exists>clp'. q_to_b_loop clp p count = Some (p @ map ucast (take (nat count) (clist_list clp)), clp')
     \<and> storage_ok clp' \<and> ring_ok clp' \<and> clist_list clp' = drop (nat count) (clist_list clp)
     \<and> c_cn clp' = c_cn clp \<and> (c_cq clp' = None) = (c_cq clp = None)"
proof (induction "c_cc clp" arbitrary: clp p count rule: less_induct)
  case less
  show ?case
  proof (cases "0 < count \<and> 0 < c_cc clp")
    case False
    then show ?thesis
      using less.prems by (subst q_to_b_loop.simps) (auto simp: clist_list_def)
  next
    case True
    obtain cf where cf: "c_cf clp = Some cf" using less.prems(2) by (rule ring_okD)
    let ?n = "clist_run clp count"
    note run = clist_run_bounds [OF less.prems, of count]
    have n: "0 < ?n" "?n \<le> c_cc clp" "cf + ?n \<le> c_cn clp" "int ?n \<le> count"
      using True run cf by auto
    let ?w = "clp\<lparr>c_cs := Some (mem_write (the (c_cs clp)) cf (replicate ?n 0)),
      c_cq := clr_quotes cf ?n (c_cq clp)\<rparr>"
    let ?a = "advance_cf ?w ?n"
    note a = q_to_b_run [OF less.prems cf n(2,3)]
    have "c_cc ?a < c_cc clp" using n True by (simp add: advance_cf_def Let_def)
    from less.hyps [OF this a(1,2), of "p @ mem_read (the (c_cs clp)) cf ?n" "count - int ?n"]
    obtain clp' where IH: "q_to_b_loop ?a (p @ mem_read (the (c_cs clp)) cf ?n) (count - int ?n)
        = Some ((p @ mem_read (the (c_cs clp)) cf ?n)
            @ map ucast (take (nat (count - int ?n)) (clist_list ?a)), clp')"
      "storage_ok clp'" "ring_ok clp'" "clist_list clp' = drop (nat (count - int ?n)) (clist_list ?a)"
      "c_cn clp' = c_cn ?a" "(c_cq clp' = None) = (c_cq ?a = None)"
      by (elim exE conjE) (rule that)
    have cnt: "nat count = ?n + nat (count - int ?n)" using n by simp
    have bytes: "map ucast (take (nat count) (clist_list clp)) =
        mem_read (the (c_cs clp)) cf ?n @ map ucast (take (nat (count - int ?n)) (clist_list ?a))"
      unfolding a(3) mem_read_ring [OF less.prems(1) cf n(2,3)] cnt take_add map_append ..
    have "q_to_b_loop clp p count = q_to_b_loop ?a (p @ mem_read (the (c_cs clp)) cf ?n) (count - int ?n)"
      using True cf by (subst q_to_b_loop.simps) (simp add: Let_def)
    then have "q_to_b_loop clp p count
        = Some (p @ map ucast (take (nat count) (clist_list clp)), clp')"
      unfolding IH(1) bytes by simp
    moreover have "clist_list clp' = drop (nat count) (clist_list clp)"
      using IH(4) a(3) cnt by (simp add: add.commute)
    ultimately show ?thesis
      using IH(2,3,5,6) by (auto simp: advance_cf_def Let_def)
  qed
qed

lemma q_to_b_correct:
  assumes "clist_inv clp"
  shows "\<exists>clp'. q_to_b clp count = Some (map ucast (take (nat count) (clist_list clp)), clp')
     \<and> clist_inv clp' \<and> clist_list clp' = drop (nat count) (clist_list clp)
     \<and> c_cn clp' = c_cn clp \<and> (c_cq clp' = None) = (c_cq clp = None)"
proof (cases "c_cc clp = 0")
  case True
  then have "q_to_b clp count = Some ([], clist_reset clp)"
    by (simp add: q_to_b_def q_to_b_loop.simps)
  then show ?thesis
    using True assms by (auto simp: clist_list_empty clist_inv_def)
next
  case False
  with assms have "storage_ok clp" "ring_ok clp" by (auto simp: clist_inv_def)
  from q_to_b_loop_correct [OF this, of "[]" count] show ?thesis
    by (auto simp: q_to_b_def intro: clist_inv_reset)
qed

lemma ndflush_loop_correct:
  "storage_ok clp \<Longrightarrow> ring_ok clp \<Longrightarrow>
   \<exists>clp'. ndflush_loop clp count = Some clp' \<and> storage_ok clp' \<and> ring_ok clp'
     \<and> clist_list clp' = drop (nat count) (clist_list clp) \<and> c_cn clp' = c_cn clp"
proof (induction "c_cc clp" arbitrary: clp count rule: less_induct)
  case less
  show ?case
  proof (cases "0 < count \<and> 0 < c_cc clp")
    case False
    then show ?thesis
      using less.prems by (subst ndflush_loop.simps) (auto simp: clist_list_def)
  next
    case True
    let ?n = "clist_run clp count"
    note n = clist_run_bounds [OF less.prems, of count]
    note a = advance_cf_ok [OF less.prems, of ?n]
    have "c_cc (advance_cf clp ?n) < c_cc clp" using n True a(6) by auto
    from less.hyps [OF this, of "count - int ?n"] n True a
    obtain clp' where IH: "ndflush_loop (advance_cf clp ?n) (count - int ?n) = Some clp'"
      "storage_ok clp'" "ring_ok clp'"
      "clist_list clp' = drop (nat (count - int ?n)) (drop ?n (clist_list clp))" "c_cn clp' = c_cn clp"
      by auto
    have "nat count = nat (count - int ?n) + ?n" using n True by simp
    then have "clist_list clp' = drop (nat count) (clist_list clp)" using IH(4) by simp
    then show ?thesis
      using True IH by (subst ndflush_loop.simps) (simp add: Let_def)
  qed
qed

lemma ndflush_correct:
  assumes "clist_inv clp"
  shows "\<exists>clp'. ndflush clp count = Some clp' \<and> clist_inv clp'
     \<and> clist_list clp' = drop (nat count) (clist_list clp) \<and> c_cn clp' = c_cn clp"
proof -
  consider "count = int (c_cc clp)" | "count \<noteq> int (c_cc clp)" "c_cc clp = 0"
    | "count \<noteq> int (c_cc clp)" "c_cc clp \<noteq> 0" by blast
  then show ?thesis
  proof cases
    case 1
    then show ?thesis
      using assms by (auto simp: ndflush_def clist_list_empty clist_inv_def storage_ok_def
          split: option.splits)
  next
    case 2
    then show ?thesis
      using assms by (auto simp: ndflush_def ndflush_loop.simps clist_list_empty clist_inv_def)
  next
    case 3
    with assms have "storage_ok clp" "ring_ok clp" by (auto simp: clist_inv_def)
    from ndflush_loop_correct [OF this, of count] 3(1) show ?thesis
      by (auto simp: ndflush_def intro: clist_inv_reset)
  qed
qed

lemma b_to_q_run:
  assumes st: "storage_ok clp" and cf: "c_cf clp = Some cf" "cf < c_cn clp"
    and i: "i = (cf + c_cc clp) mod c_cn clp" and n: "c_cc clp + n \<le> c_cn clp" "i + n \<le> c_cn clp"
    and ys: "length ys = n"
  defines "w \<equiv> clp\<lparr>c_cs := Some (mem_write (the (c_cs clp)) i ys),
      c_cq := clr_quotes i n (c_cq clp), c_cc := c_cc clp + n,
      c_cl := Some (if i + n = c_ce clp then 0 else i + n)\<rparr>"
  shows "storage_ok w" "ring_ok w" "clist_list w = clist_list clp @ map ucast ys"
proof -
  obtain cs where cs: "c_cs clp = Some cs" "length cs = c_cn clp" "c_ce clp = c_cn clp"
    using st by (rule storage_okD)
  show "storage_ok w"
    using st cs n ys by (auto simp: w_def storage_ok_def quote_defs split: option.splits)
  have pos: "(cf + (c_cc clp + t)) mod c_cn clp = (i + t) mod c_cn clp" for t
    unfolding i by (simp add: mod_simps add.assoc)
  then show "ring_ok w"
    using cf cs n by (auto simp: w_def ring_ok_def)
  have char: "clist_char w j = (if i \<le> j \<and> j < i + n then ucast (ys ! (j - i)) else clist_char clp j)"
    if "j < c_cn clp" for j
    using clist_char_bulk [OF st n(2) ys that] by (simp add: w_def)
  show "clist_list w = clist_list clp @ map ucast ys"
  proof (rule nth_equalityI)
    show "length (clist_list w) = length (clist_list clp @ map ucast ys)" by (simp add: w_def ys)
    fix k assume "k < length (clist_list w)"
    then have k: "k < c_cc clp + n" by (simp add: w_def)
    have nth: "clist_list w ! k = clist_char w ((cf + k) mod c_cn clp)"
      using k cf by (simp add: clist_list_def w_def)
    show "clist_list w ! k = (clist_list clp @ map ucast ys) ! k"
    proof (cases "k < c_cc clp")
      case True
      have "\<not> (i \<le> (cf + k) mod c_cn clp \<and> (cf + k) mod c_cn clp < i + n)"
      proof
        assume "i \<le> (cf + k) mod c_cn clp \<and> (cf + k) mod c_cn clp < i + n"
        then obtain t where t: "(cf + k) mod c_cn clp = i + t" "t < n"
          by (metis le_Suc_ex nat_add_left_cancel_less)
        then have "(cf + k) mod c_cn clp = (cf + (c_cc clp + t)) mod c_cn clp"
          using pos [of t] n by simp
        then show False
          using ring_inj [OF cf(2), of k "c_cc clp + t"] True t n by simp
      qed
      then have "clist_list w ! k = clist_char clp ((cf + k) mod c_cn clp)"
        unfolding nth using cf by (subst char) auto
      then show ?thesis
        using True cf by (simp add: nth_append) (simp add: clist_list_def)
    next
      case False
      then obtain t where t: "k = c_cc clp + t" "t < n" using k by (metis le_Suc_ex not_le nat_add_left_cancel_less)
      then have "(cf + k) mod c_cn clp = i + t" using pos [of t] n by simp
      then show ?thesis using t nth n char [of "i + t"] ys by (simp add: nth_append)
    qed
  qed
qed

lemma clist_room_bounds:
  assumes "storage_ok clp" "ring_ok clp" "c_cc clp < c_cn clp" "0 < count"
  shows "0 < clist_room clp count" "c_cc clp + clist_room clp count \<le> c_cn clp"
    "the (c_cl clp) + clist_room clp count \<le> c_cn clp" "clist_room clp count \<le> nat count"
proof -
  obtain cf where cf: "c_cf clp = Some cf" "cf < c_cn clp"
    "c_cl clp = Some ((cf + c_cc clp) mod c_cn clp)"
    using assms(2) by (rule ring_okD)
  have ce: "c_ce clp = c_cn clp" using assms(1) by (auto simp: storage_ok_def)
  have "clist_room clp count = nat (min count
      (if cf + c_cc clp < c_cn clp then int (c_cn clp) - int (cf + c_cc clp)
       else int (c_cn clp) - int (c_cc clp)))"
    using cf ce assms(3) by (auto simp: clist_room_def Let_def ring_idx min_def)
  then show "0 < clist_room clp count" "c_cc clp + clist_room clp count \<le> c_cn clp"
    "the (c_cl clp) + clist_room clp count \<le> c_cn clp" "clist_room clp count \<le> nat count"
    using cf ce assms(3,4) by (auto simp: min_def ring_idx)
qed

lemma b_to_q_loop_correct:
  "storage_ok clp \<Longrightarrow> ring_ok clp \<Longrightarrow> 0 \<le> count \<Longrightarrow> nat count \<le> length p \<Longrightarrow>
   m = min (nat count) (c_cn clp - c_cc clp) \<Longrightarrow>
   \<exists>clp'. b_to_q_loop p count clp = Some (count - int m, clp')
     \<and> storage_ok clp' \<and> ring_ok clp' \<and> clist_list clp' = clist_list clp @ map ucast (take m p)
     \<and> c_cn clp' = c_cn clp \<and> (c_cq clp' = None) = (c_cq clp = None)"
proof (induction "nat count" arbitrary: clp p count m rule: less_induct)
  case less
  show ?case
  proof (cases "0 < count \<and> c_cc clp < c_cn clp")
    case False
    then have "m = 0" using less.prems by auto
    then show ?thesis using False less.prems by (subst b_to_q_loop.simps) auto
  next
    case True
    obtain cf where cf: "c_cf clp = Some cf" "cf < c_cn clp"
      "c_cl clp = Some ((cf + c_cc clp) mod c_cn clp)" using less.prems(2) by (rule ring_okD)
    define i where "i = (cf + c_cc clp) mod c_cn clp"
    define n where "n = clist_room clp count"
    have n: "0 < n" "c_cc clp + n \<le> c_cn clp" "i + n \<le> c_cn clp" "n \<le> nat count"
      using clist_room_bounds [OF less.prems(1,2)] True cf unfolding n_def i_def by auto
    have ln: "length (take n p) = n" using n less.prems(4) by simp
    let ?w = "clp\<lparr>c_cs := Some (mem_write (the (c_cs clp)) i (take n p)),
      c_cq := clr_quotes i n (c_cq clp), c_cc := c_cc clp + n,
      c_cl := Some (if i + n = c_ce clp then 0 else i + n)\<rparr>"
    note w = b_to_q_run [OF less.prems(1) cf(1,2) i_def n(2,3) ln]
    have step: "b_to_q_loop p count clp = b_to_q_loop (drop n p) (count - int n) ?w"
      using True cf(3) by (subst b_to_q_loop.simps) (simp add: Let_def n_def i_def)
    have lt: "nat (count - int n) < nat count" "0 \<le> count - int n"
      using n True by linarith+
    have lp: "nat (count - int n) \<le> length (drop n p)"
      using n less.prems(4) by simp
    have lm: "m - n = min (nat (count - int n)) (c_cn ?w - c_cc ?w)"
      using n True less.prems(5) by (auto simp: min_def nat_diff_distrib')
    from less.hyps [OF lt(1) w(1,2) lt(2) lp lm]
    obtain clp' where IH: "b_to_q_loop (drop n p) (count - int n) ?w = Some (count - int n - int (m - n), clp')"
      "storage_ok clp'" "ring_ok clp'"
      "clist_list clp' = clist_list ?w @ map ucast (take (m - n) (drop n p))"
      "c_cn clp' = c_cn ?w" "(c_cq clp' = None) = (c_cq ?w = None)"
      by (elim exE conjE) (rule that)
    have nm: "n \<le> m" using n less.prems(5) by simp
    then have "take m p = take n p @ take (m - n) (drop n p)"
      by (metis take_add le_add_diff_inverse)
    then have "clist_list clp' = clist_list clp @ map ucast (take m p)"
      unfolding IH(4) w(3) by simp
    moreover have "b_to_q_loop p count clp = Some (count - int m, clp')"
      unfolding step IH(1) using nm by simp
    ultimately show ?thesis using IH(2,3,5,6) by simp
  qed
qed

lemma b_to_q_correct:
  assumes "clist_inv clp" "nat count \<le> length cp"
    and m: "m = min (nat count) (c_cn clp - c_cc clp)"
  shows "\<exists>clp'. b_to_q cp count clp = Some (if count \<le> 0 then 0 else count - int m, clp')
     \<and> clist_inv clp' \<and> clist_list clp' = clist_list clp @ map ucast (take m cp)
     \<and> c_cn clp' = c_cn clp \<and> (c_cq clp' = None) = (c_cq clp = None)"
proof -
  note st = clist_start_ok [OF assms(1)]
  consider "count \<le> 0" | "0 < count" "c_cc clp = c_cn clp" | "0 < count" "c_cc clp \<noteq> c_cn clp"
    by linarith
  then show ?thesis
  proof cases
    case 3
    from b_to_q_loop_correct [OF st(1,2), of count cp m] 3(1) assms(2) m st(4,5)
    obtain clp' where *: "b_to_q_loop cp count (clist_start clp) = Some (count - int m, clp')"
      "storage_ok clp'" "ring_ok clp'" "clist_list clp' = clist_list clp @ map ucast (take m cp)"
      "c_cn clp' = c_cn clp" "(c_cq clp' = None) = (c_cq clp = None)"
      using st(3,6) by auto
    then show ?thesis
      using 3 by (auto simp: b_to_q_def clist_inv_def)
  qed (use assms(1) m in \<open>auto simp: b_to_q_def\<close>)
qed

subsection \<open>The interface of a bounded character queue\<close>

text \<open>
  What the line disciplines rely on: a first-in first-out queue with a capacity, that can
  give back the character stored last.  \<open>keep\<close> is what the queue stores of a character.
\<close>

locale char_queue =
  fixes put :: "u32 \<Rightarrow> 'q \<Rightarrow> u32 \<times> 'q"
    and get :: "'q \<Rightarrow> u32 \<times> 'q"
    and unput :: "'q \<Rightarrow> u32 \<times> 'q"
    and chars :: "'q \<Rightarrow> u32 list"
    and cap :: "'q \<Rightarrow> nat"
    and keep :: "'q \<Rightarrow> u32 \<Rightarrow> u32"
    and inv :: "'q \<Rightarrow> bool"
  assumes inv_put: "inv q \<Longrightarrow> inv (snd (put c q))"
    and inv_get: "inv q \<Longrightarrow> inv (snd (get q))"
    and inv_unput: "inv q \<Longrightarrow> inv (snd (unput q))"
    and chars_put: "inv q \<Longrightarrow> length (chars q) < cap q \<Longrightarrow>
      fst (put c q) = 0 \<and> chars (snd (put c q)) = chars q @ [keep q c]"
    and put_full: "inv q \<Longrightarrow> cap q \<le> length (chars q) \<Longrightarrow> put c q = (- 1, q)"
    and chars_get: "inv q \<Longrightarrow> chars q = c # cs \<Longrightarrow> fst (get q) = c \<and> chars (snd (get q)) = cs"
    and get_empty: "inv q \<Longrightarrow> chars q = [] \<Longrightarrow> get q = (- 1, q)"
    and chars_unput: "inv q \<Longrightarrow> chars q = cs @ [c] \<Longrightarrow> fst (unput q) = c \<and> chars (snd (unput q)) = cs"
    and unput_empty: "inv q \<Longrightarrow> chars q = [] \<Longrightarrow> unput q = (- 1, q)"
    and cap_put [simp]: "inv q \<Longrightarrow> cap (snd (put c q)) = cap q"
    and cap_get [simp]: "inv q \<Longrightarrow> cap (snd (get q)) = cap q"
    and keep_put [simp]: "inv q \<Longrightarrow> keep (snd (put c q)) = keep q"
    and keep_get [simp]: "inv q \<Longrightarrow> keep (snd (get q)) = keep q"
    and keep_no_eof: "inv q \<Longrightarrow> c \<in> set (chars q) \<Longrightarrow> c \<noteq> - 1"
begin

lemma put_then_unput:
  "inv q \<Longrightarrow> length (chars q) < cap q \<Longrightarrow>
     fst (unput (snd (put c q))) = keep q c \<and> chars (snd (unput (snd (put c q)))) = chars q"
  using chars_unput [of "snd (put c q)" "chars q" "keep q c"] by (simp add: inv_put chars_put)

lemma put_many:
  "inv q \<Longrightarrow> inv (fold (\<lambda>c q. snd (put c q)) cs q)
     \<and> chars (fold (\<lambda>c q. snd (put c q)) cs q)
       = chars q @ take (cap q - length (chars q)) (map (keep q) cs)
     \<and> cap (fold (\<lambda>c q. snd (put c q)) cs q) = cap q"
proof (induction cs arbitrary: q)
  case Nil
  then show ?case by simp
next
  case (Cons c cs)
  show ?case
  proof (cases "length (chars q) < cap q")
    case True
    then have "cap q - length (chars q) = Suc (cap q - length (chars (snd (put c q))))"
      using chars_put [OF Cons.prems True, of c] by simp
    then show ?thesis
      using Cons.IH [OF inv_put [OF Cons.prems, of c]] chars_put [OF Cons.prems True, of c] Cons.prems
      by simp
  next
    case False
    then show ?thesis using Cons.IH [OF Cons.prems] put_full [OF Cons.prems, of c] by simp
  qed
qed

lemma get_all:
  "inv q \<Longrightarrow> n \<le> length (chars q) \<Longrightarrow>
     inv (((\<lambda>q. snd (get q)) ^^ n) q) \<and> chars (((\<lambda>q. snd (get q)) ^^ n) q) = drop n (chars q)
     \<and> cap (((\<lambda>q. snd (get q)) ^^ n) q) = cap q"
proof (induction n)
  case 0
  then show ?case by simp
next
  case (Suc n)
  let ?q = "((\<lambda>q. snd (get q)) ^^ n) q"
  from Suc have IH: "inv ?q" "chars ?q = drop n (chars q)" "cap ?q = cap q" by auto
  then have "chars ?q = chars q ! n # drop (Suc n) (chars q)"
    using Suc.prems(2) by (simp add: Cons_nth_drop_Suc)
  from chars_get [OF IH(1) this] show ?case
    using IH by (simp add: inv_get)
qed

end

lemma clist_inv_cc: "clist_inv clp \<Longrightarrow> c_cc clp \<le> c_cn clp"
  by (simp add: clist_inv_def storage_ok_def)

lemma clist_inv_putc [kinv]: "clist_inv clp \<Longrightarrow> clist_inv (snd (putc c clp))"
  using putc_correct(2) [of clp c] putc_full [of clp c] clist_inv_cc [of clp]
  by (cases "c_cc clp = c_cn clp") auto

lemma clist_inv_getc [kinv]: "clist_inv clp \<Longrightarrow> clist_inv (snd (getc clp))"
  using getc_correct(2) [of clp] getc_empty [of clp] length_clist_list [of clp]
  by (cases "clist_list clp") auto

lemma clist_inv_unputc [kinv]: "clist_inv clp \<Longrightarrow> clist_inv (snd (unputc clp))"
  using unputc_correct(2) [of clp] unputc_empty [of clp] length_clist_list [of clp]
  by (cases "clist_list clp" rule: rev_cases) auto

lemma clist_char_not_eof: "clist_char clp i \<noteq> - 1"
proof -
  have "\<not> bit (clist_char clp i) 31"
    by (auto simp: clist_char_def byte Let_def bit_simps bit_quote split: option.splits
        dest: bit_imp_le_length)
  then show ?thesis by auto
qed

lemma char_norm_cong: "(c_cq a = None) = (c_cq b = None) \<Longrightarrow> char_norm a = char_norm b"
  by (auto simp: char_norm_def fun_eq_iff)

lemma clist_frame_putc:
  "clist_inv clp \<Longrightarrow> c_cn (snd (putc c clp)) = c_cn clp"
  "clist_inv clp \<Longrightarrow> (c_cq (snd (putc c clp)) = None) = (c_cq clp = None)"
  using putc_correct(4,5) [of clp c] putc_full [of clp c] clist_inv_cc [of clp]
  by (cases "c_cc clp = c_cn clp"; simp)+

lemma clist_frame_getc:
  "clist_inv clp \<Longrightarrow> c_cn (snd (getc clp)) = c_cn clp"
  "clist_inv clp \<Longrightarrow> (c_cq (snd (getc clp)) = None) = (c_cq clp = None)"
  using getc_correct(4,5) [of clp] getc_empty [of clp] length_clist_list [of clp]
  by (cases "clist_list clp"; simp)+

interpretation ttyq: char_queue putc getc unputc clist_list c_cn char_norm clist_inv
proof
  fix clp :: clist and c c' :: u32 and cs
  assume inv: "clist_inv clp"
  show "clist_inv (snd (putc c clp))" "clist_inv (snd (getc clp))" "clist_inv (snd (unputc clp))"
    using inv by (rule kinv)+
  show "fst (putc c clp) = 0 \<and> clist_list (snd (putc c clp)) = clist_list clp @ [char_norm clp c]"
    if "length (clist_list clp) < c_cn clp" using putc_correct [OF inv] that by simp
  show "putc c clp = (- 1, clp)" if "c_cn clp \<le> length (clist_list clp)"
    using putc_full that clist_inv_cc [OF inv] by simp
  show "fst (getc clp) = c' \<and> clist_list (snd (getc clp)) = cs" if "clist_list clp = c' # cs"
    using getc_correct [OF inv that] by simp
  show "getc clp = (- 1, clp)" "unputc clp = (- 1, clp)" if "clist_list clp = []"
    using getc_empty unputc_empty that length_clist_list [of clp] by auto
  show "fst (unputc clp) = c' \<and> clist_list (snd (unputc clp)) = cs" if "clist_list clp = cs @ [c']"
    using unputc_correct [OF inv that] by simp
  show "c_cn (snd (putc c clp)) = c_cn clp" "c_cn (snd (getc clp)) = c_cn clp"
    using clist_frame_putc clist_frame_getc inv by simp_all
  show "char_norm (snd (putc c clp)) = char_norm clp" "char_norm (snd (getc clp)) = char_norm clp"
    using clist_frame_putc clist_frame_getc inv by (auto intro: char_norm_cong)
  show "c \<noteq> - 1" if "c \<in> set (clist_list clp)"
    using that clist_char_not_eof by (auto simp: clist_list_def)
qed

subsection \<open>Appending one queue to another\<close>

lemma catq_loop_correct:
  "clist_inv frm \<Longrightarrow> clist_inv tq \<Longrightarrow> catq_loop frm tq = (frm', tq') \<Longrightarrow>
     clist_inv frm' \<and> clist_list frm' = [] \<and> tq' = fold (\<lambda>c q. snd (putc c q)) (clist_list frm) tq"
proof (induction frm tq rule: catq_loop.induct)
  case (1 frm tq)
  show ?case
  proof (cases "clist_list frm")
    case Nil
    then have "getc frm = (- 1, frm)" using "1.prems" by (simp add: ttyq.get_empty)
    then show ?thesis using "1.prems" Nil by (simp add: catq_loop.simps [of frm])
  next
    case (Cons c cs)
    note g = ttyq.chars_get [OF "1.prems"(1) Cons]
    have "c \<noteq> - 1" using ttyq.keep_no_eof [OF "1.prems"(1)] Cons by simp
    then have "catq_loop frm tq = catq_loop (snd (getc frm)) (snd (putc c tq))"
      using g by (subst catq_loop.simps) (simp add: split_beta)
    moreover have "getc frm = (c, snd (getc frm))" using g by (metis prod.collapse)
    ultimately show ?thesis
      using "1.IH" [OF refl, of c "snd (getc frm)"] \<open>c \<noteq> - 1\<close> "1.prems" g Cons
      by (simp add: kinv)
  qed
qed

lemma catq_correct:
  assumes "clist_inv frm" "clist_inv tq" "catq frm tq = (frm', tq')"
  shows "clist_inv frm'" "clist_inv tq'" "clist_list frm' = []"
    "clist_list tq' = (if c_cc tq = 0 \<and> c_cn frm = c_cn tq then clist_list frm
       else clist_list tq @ take (c_cn tq - c_cc tq) (map (char_norm tq) (clist_list frm)))"
proof -
  consider "c_cc frm = 0" | "c_cc frm \<noteq> 0" "c_cc tq = 0" "c_cn frm = c_cn tq"
    | "c_cc frm \<noteq> 0" "\<not> (c_cc tq = 0 \<and> c_cn frm = c_cn tq)" by metis
  then have "clist_inv frm' \<and> clist_inv tq' \<and> clist_list frm' = [] \<and>
    clist_list tq' = (if c_cc tq = 0 \<and> c_cn frm = c_cn tq then clist_list frm
       else clist_list tq @ take (c_cn tq - c_cc tq) (map (char_norm tq) (clist_list frm)))"
  proof cases
    case 1
    then show ?thesis using assms by (auto simp: catq_def clist_list_empty)
  next
    case 2
    then show ?thesis using assms by (auto simp: catq_def clist_list_empty)
  next
    case 3
    then have "catq_loop frm tq = (frm', tq')" using assms(3) by (auto simp: catq_def)
    from catq_loop_correct [OF assms(1,2) this] ttyq.put_many [OF assms(2), of "clist_list frm"] 3
    show ?thesis by auto
  qed
  then show "clist_inv frm'" "clist_inv tq'" "clist_list frm' = []"
    "clist_list tq' = (if c_cc tq = 0 \<and> c_cn frm = c_cn tq then clist_list frm
       else clist_list tq @ take (c_cn tq - c_cc tq) (map (char_norm tq) (clist_list frm)))"
    by auto
qed

subsection \<open>Walking a queue\<close>

text \<open>A walk calls \<^verbatim>\<open>firstc\<close> once and then \<^verbatim>\<open>nextc\<close> until it returns
  \<^verbatim>\<open>NULL\<close>.\<close>

primrec walk_from :: "nat \<Rightarrow> clist \<Rightarrow> nat option \<Rightarrow> nat \<Rightarrow> u32 list" where
  "walk_from 0 clp cp cc = []"
| "walk_from (Suc fuel) clp cp cc =
     (case nextc clp cp cc of
        (None, cc') \<Rightarrow> []
      | (Some (i, c), cc') \<Rightarrow> c # walk_from fuel clp (Some i) cc')"

definition clist_walk :: "clist \<Rightarrow> u32 list" where
  "clist_walk clp =
     (case firstc clp of
        (None, cc) \<Rightarrow> []
      | (Some (i, c), cc) \<Rightarrow> c # walk_from (c_cc clp) clp (Some i) cc)"

lemma walk_from_correct:
  assumes "storage_ok clp" "ring_ok clp" "c_cf clp = Some cf"
  shows "k < c_cc clp \<Longrightarrow> c_cc clp - k \<le> fuel \<Longrightarrow>
    walk_from fuel clp (Some ((cf + k) mod c_cn clp)) (c_cc clp - k) = drop (Suc k) (clist_list clp)"
proof (induction fuel arbitrary: k)
  case 0
  then show ?case by simp
next
  case (Suc fuel)
  have cn: "cf < c_cn clp" "c_ce clp = c_cn clp" "c_cc clp \<le> c_cn clp"
    using assms by (auto simp: ring_ok_def storage_ok_def split: option.splits)
  have start: "c_cf clp = Some ((cf + k) mod c_cn clp) \<longleftrightarrow> k = 0"
    using ring_inj [of cf "c_cn clp" k 0] cn Suc.prems(1) assms(3) by auto
  show ?case
  proof (cases "Suc k < c_cc clp")
    case True
    have "(if Suc ((cf + k) mod c_cn clp) = c_ce clp then 0 else Suc ((cf + k) mod c_cn clp))
        = (cf + Suc k) mod c_cn clp"
      using cn by (simp add: mod_Suc)
    then have "nextc clp (Some ((cf + k) mod c_cn clp)) (c_cc clp - k)
        = (Some ((cf + Suc k) mod c_cn clp, clist_list clp ! Suc k), c_cc clp - Suc k)"
      using True start assms(3) by (auto simp: nextc_def Let_def clist_list_def)
    then show ?thesis
      using Suc.IH [OF True] Suc.prems(2) True by (simp add: Cons_nth_drop_Suc)
  next
    case False
    then have "c_cc clp - k = 1" using Suc.prems(1) by simp
    then show ?thesis
      using start False by (auto simp: nextc_def Let_def)
  qed
qed

lemma clist_walk_correct:
  assumes "clist_inv clp"
  shows "clist_walk clp = clist_list clp"
proof (cases "c_cc clp = 0")
  case True
  then show ?thesis by (simp add: clist_walk_def firstc_def clist_list_empty)
next
  case False
  with assms have ok: "storage_ok clp" "ring_ok clp" by (auto simp: clist_inv_def)
  obtain cf where cf: "c_cf clp = Some cf" "cf < c_cn clp" using ok(2) by (rule ring_okD)
  have "clist_list clp = clist_list clp ! 0 # drop 1 (clist_list clp)"
    using False Cons_nth_drop_Suc [of 0 "clist_list clp"] by simp
  then show ?thesis
    using walk_from_correct [OF ok cf(1), of 0 "c_cc clp"] False cf
    by (simp add: clist_walk_def firstc_def Let_def clist_list_def)
qed

subsection \<open>Contiguous characters\<close>

lemma ndqb_plain_correct:
  "i < cn \<Longrightarrow> cn \<le> length cs \<Longrightarrow>
   ndqb_plain cs flag cn cc i count
     = count + length (takeWhile (\<lambda>b. ucast b AND flag = 0) (mem_read cs i (min cc (cn - i))))"
proof (induction cs flag cn cc i count rule: ndqb_plain.induct)
  case (1 cs flag cn i count)
  then show ?case by (simp add: mem_read_def)
next
  case (2 cs flag cn cc i count)
  have "mem_read cs i (min (Suc cc) (cn - i)) = cs ! i # mem_read cs (Suc i) (min cc (cn - Suc i))"
    using 2 by (auto simp: mem_read_def Cons_nth_drop_Suc [symmetric] take_Cons' min_def)
  then show ?case
    using 2 by (cases "Suc i = cn") (auto simp: mem_read_def)
qed

lemma ndqb_all:
  assumes "storage_ok clp" "ring_ok clp" "c_cf clp = Some cf"
  shows "ndqb clp 0 = min (c_cc clp) (c_cn clp - cf)"
proof -
  have cn: "cf < c_cn clp" "c_ce clp = c_cn clp" "c_cc clp \<le> c_cn clp"
    "c_cl clp = Some ((cf + c_cc clp) mod c_cn clp)"
    using assms by (auto simp: ring_ok_def storage_ok_def split: option.splits)
  then show ?thesis
    using assms(3) ring_idx [of cf "c_cn clp" "c_cc clp"] by (auto simp: ndqb_def Let_def)
qed

lemma ndqb_flagged:
  assumes "storage_ok clp" "ring_ok clp" "c_cf clp = Some cf" "flag \<noteq> 0" "\<not> has_flag flag TTY_QUOTE"
  shows "ndqb clp flag = length (takeWhile (\<lambda>b. ucast b AND flag = 0)
      (mem_read (the (c_cs clp)) cf (min (c_cc clp) (c_cn clp - cf))))"
proof -
  obtain cs where "c_cs clp = Some cs" "length cs = c_cn clp" using assms(1) by (rule storage_okD)
  moreover have "cf < c_cn clp" using assms(2,3) by (auto simp: ring_ok_def split: option.splits)
  ultimately show ?thesis
    using assms(3-5) by (cases "c_cc clp = 0") (simp_all add: ndqb_def ndqb_plain_correct mem_read_def)
qed

subsection \<open>Properties\<close>

text \<open>A queue of four characters with a quote bit array, as \<^verbatim>\<open>clalloc\<close> leaves it.\<close>

definition small_queue :: clist where
  "small_queue =
     clalloc \<lparr>c_cc = 0, c_cn = 0, c_cf = None, c_cl = None, c_cs = None, c_ce = 0, c_cq = None\<rparr> 4 True"

text \<open>
  C25 (putc_getc_fifo): on a well-formed queue \<^verbatim>\<open>putc\<close> either appends the character,
  reduced to the bits the queue stores, or reports a full queue and leaves it alone;
  \<^verbatim>\<open>getc\<close> returns the oldest character and removes it, or reports an empty queue; both keep
  the ring invariant.
\<close>

theorem putc_getc_fifo:
  assumes "clist_inv clp"
  shows "clist_inv (snd (putc c clp)) \<and> clist_inv (snd (getc clp))
    \<and> (if c_cc clp < c_cn clp
       then fst (putc c clp) = 0 \<and> clist_list (snd (putc c clp)) = clist_list clp @ [char_norm clp c]
       else putc c clp = (- 1, clp))
    \<and> (case clist_list clp of [] \<Rightarrow> getc clp = (- 1, clp)
       | d # ds \<Rightarrow> fst (getc clp) = d \<and> clist_list (snd (getc clp)) = ds)"
proof -
  have "\<not> c_cc clp < c_cn clp \<Longrightarrow> c_cc clp = c_cn clp"
    using clist_inv_cc [OF assms] by simp
  moreover have "clist_list clp = [] \<Longrightarrow> c_cc clp = 0"
    by (metis length_clist_list list.size(3))
  ultimately show ?thesis
    using assms by (auto simp: clist_inv_putc clist_inv_getc putc_correct putc_full getc_empty getc_correct
        split: list.splits)
qed

theorem putc_getc_fifo_witness:
  "clist_inv (snd (putc 0x141 small_queue)) \<and> clist_list (snd (putc 0x141 small_queue)) = [0x141]
   \<and> fst (getc (snd (putc 0x141 small_queue))) = 0x141
   \<and> clist_list (snd (getc (snd (putc 0x141 small_queue)))) = []"
proof -
  have inv: "clist_inv small_queue" by code_simp
  have l: "clist_list (snd (putc 0x141 small_queue)) = [0x141]" by code_simp
  from putc_getc_fifo [OF inv, of "0x141"] have i: "clist_inv (snd (putc 0x141 small_queue))" by simp
  from putc_getc_fifo [OF i, of "0x141"] l i show ?thesis by simp
qed



text \<open>
  \<^verbatim>\<open>unputc\<close> after a successful \<^verbatim>\<open>putc\<close> returns the
  character just stored and restores the contents; on an empty queue it returns -1.
\<close>

theorem unputc_undoes_putc:
  assumes "clist_inv clp"
  shows "clist_inv (snd (unputc clp)) \<and> (c_cc clp = 0 \<longrightarrow> unputc clp = (- 1, clp))
    \<and> (c_cc clp < c_cn clp \<longrightarrow> fst (unputc (snd (putc c clp))) = char_norm clp c
         \<and> clist_list (snd (unputc (snd (putc c clp)))) = clist_list clp)"
  using assms ttyq.put_then_unput [OF assms, of c] by (simp add: clist_inv_unputc unputc_empty)

theorem unputc_undoes_putc_witness:
  "fst (unputc (snd (putc 0x141 small_queue))) = 0x141 \<and> unputc small_queue = (- 1, small_queue)"
proof -
  have h: "clist_inv small_queue" "c_cc small_queue = 0" "c_cn small_queue = 4" by code_simp+
  have n: "char_norm small_queue 0x141 = 0x141" by code_simp
  from unputc_undoes_putc [OF h(1), of "0x141"] h n show ?thesis by simp
qed

text \<open>
  C34 (bulk_transfer): the block routines always return.  \<^verbatim>\<open>b_to_q\<close> appends as many bytes as
  there is room for and returns the number it could not store; \<^verbatim>\<open>q_to_b\<close> takes the
  oldest bytes out in order, at most as many as asked for; \<^verbatim>\<open>ndflush\<close> drops them.
  All three keep the ring invariant although they cross the end of the array.
\<close>

theorem bulk_transfer:
  assumes "clist_inv clp" "0 < count" "nat count \<le> length cp"
  shows "(\<exists>m q. m = min (nat count) (c_cn clp - c_cc clp) \<and> b_to_q cp count clp = Some (count - int m, q)
      \<and> clist_inv q \<and> clist_list q = clist_list clp @ map ucast (take m cp))
    \<and> (\<exists>q. q_to_b clp count = Some (map ucast (take (nat count) (clist_list clp)), q)
      \<and> clist_inv q \<and> clist_list q = drop (nat count) (clist_list clp))
    \<and> (\<exists>q. ndflush clp count = Some q \<and> clist_inv q \<and> clist_list q = drop (nat count) (clist_list clp))"
  using b_to_q_correct [OF assms(1,3) refl] q_to_b_correct [OF assms(1), of count]
    ndflush_correct [OF assms(1), of count] assms(2)
  by auto

theorem bulk_transfer_witness:
  "\<exists>q. b_to_q [1, 2, 3, 4, 5, 6] 6 small_queue = Some (2, q) \<and> clist_inv q \<and> clist_list q = [1, 2, 3, 4]"
proof -
  have h: "clist_inv small_queue" "c_cc small_queue = 0" "c_cn small_queue = 4" by code_simp+
  then have l: "clist_list small_queue = []" by (simp add: clist_list_empty)
  from bulk_transfer [OF h(1), of 6 "[1, 2, 3, 4, 5, 6]"] h l show ?thesis by simp
qed

text \<open>
  \<^verbatim>\<open>catq\<close> empties the source queue and appends its characters to the
  destination; the characters that find no room there are lost, and the pointer swap that it
  uses for an empty destination of equal size moves them unchanged.
\<close>

theorem catq_moves:
  assumes "clist_inv frm" "clist_inv tq" "catq frm tq = (frm', tq')"
  shows "clist_inv frm' \<and> clist_inv tq' \<and> clist_list frm' = []
    \<and> clist_list tq' = (if c_cc tq = 0 \<and> c_cn frm = c_cn tq then clist_list frm
        else clist_list tq @ take (c_cn tq - c_cc tq) (map (char_norm tq) (clist_list frm)))"
  using catq_correct [OF assms] by blast

theorem catq_moves_witness:
  "\<exists>f t. catq (snd (putc 0x61 small_queue)) (snd (putc 0x62 small_queue)) = (f, t)
     \<and> clist_list f = [] \<and> clist_list t = [0x62, 0x61]"
proof -
  let ?a = "snd (putc 0x61 small_queue)" and ?b = "snd (putc 0x62 small_queue)"
  have h: "clist_inv ?a" "clist_inv ?b" "c_cc ?b \<noteq> 0" "clist_list ?b @ take (c_cn ?b - c_cc ?b)
      (map (char_norm ?b) (clist_list ?a)) = [0x62, 0x61]" by code_simp+
  obtain f t where c: "catq ?a ?b = (f, t)" by (cases "catq ?a ?b")
  from catq_moves [OF h(1,2) c] h(3,4) c show ?thesis by auto
qed

text \<open>
  Stepping with \<^verbatim>\<open>firstc\<close> and \<^verbatim>\<open>nextc\<close> visits every
  character of the queue once, in order, and stops.
\<close>

theorem walk_lists_queue: "clist_inv clp \<Longrightarrow> clist_walk clp = clist_list clp"
  by (rule clist_walk_correct)

theorem walk_lists_queue_witness:
  "clist_walk (snd (putc 0x162 (snd (putc 0x61 small_queue)))) = [0x61, 0x162]"
proof -
  let ?q = "snd (putc 0x162 (snd (putc 0x61 small_queue)))"
  have "clist_inv ?q" "clist_list ?q = [0x61, 0x162]" by code_simp+
  with walk_lists_queue [of ?q] show ?thesis by simp
qed

text \<open>
  \<^verbatim>\<open>ndqb\<close> counts the whole first run of the ring when asked
  with no flag; asked to stop at quoted characters it stops one character early, since it
  tests the quote bit after it has advanced the index: with \<open>a\<close> plain and \<open>b\<close> quoted it counts 0,
  not 1, and with the order exchanged it counts the quoted character.
\<close>

theorem ndqb_reads_next_quote:
  "(clist_inv clp \<and> c_cc clp \<noteq> 0 \<longrightarrow> ndqb clp 0 = min (c_cc clp) (c_cn clp - the (c_cf clp)))
   \<and> ndqb (snd (putc 0x162 (snd (putc 0x61 small_queue)))) TTY_QUOTE = 0
   \<and> ndqb (snd (putc 0x61 (snd (putc 0x162 small_queue)))) TTY_QUOTE = 2"
proof -
  have "clist_inv clp \<Longrightarrow> c_cc clp \<noteq> 0 \<Longrightarrow> ndqb clp 0 = min (c_cc clp) (c_cn clp - the (c_cf clp))"
    using ndqb_all [of clp "the (c_cf clp)"]
    by (auto simp: clist_inv_def ring_ok_def split: option.splits)
  then show ?thesis by (intro conjI impI) (simp, code_simp+)
qed

theorem ndqb_reads_next_quote_witness: "ndqb (snd (putc 0x61 small_queue)) 0 = 1"
proof -
  let ?q = "snd (putc 0x61 small_queue)"
  have "clist_inv ?q" "c_cc ?q = 1" "min (c_cc ?q) (c_cn ?q - the (c_cf ?q)) = 1" by code_simp+
  with ndqb_reads_next_quote [of ?q] show ?thesis by simp
qed

end
