(* ===== verification/Mbuf.thy ===== *)
theory Mbuf
  imports Prelude
begin

text \<open>
  Network buffers, \<^verbatim>\<open>kern/uipc_mbuf.c\<close>, \<^verbatim>\<open>kern/uipc_mbuf2.c\<close> and
  \<^verbatim>\<open>sys/mbuf.h\<close>.  A packet is a chain of mbufs linked by \<^verbatim>\<open>m_next\<close>,
  here a list.  The data of an mbuf lies in its own \<^verbatim>\<open>M_databuf\<close> or, with
  \<^verbatim>\<open>M_EXT\<close>, in an external buffer that several mbufs may share; external buffers
  live in the store, so that sharing is visible.  \<^verbatim>\<open>m_data\<close> is the offset of the data
  in the buffer it points into.  The ring of \<^verbatim>\<open>ext_nextref\<close> pointers is the number of
  mbufs on it.

  The packet header keeps its length, priority and tags; its other fields are only moved with
  the header and are left out.  The pools hand out recycled memory: \<open>mb_junk\<close>,
  \<open>cl_junk\<close> and \<open>tag_junk\<close> are what it holds, \<open>mb_avail\<close>, \<open>cl_avail\<close> and \<open>tag_avail\<close>
  count the free items.  A caller that may sleep always gets one.
\<close>

subsection \<open>Constants and data\<close>

definition MSIZE :: nat where "MSIZE = 256"
definition MLEN :: nat where "MLEN = MSIZE - 32"
definition MHLEN :: nat where "MHLEN = MLEN - 72"
definition MCLBYTES :: nat where "MCLBYTES = 2048"
definition MAXMCLBYTES :: nat where "MAXMCLBYTES = 64 * 1024"
definition MINCLSIZE :: nat where "MINCLSIZE = MHLEN + MLEN + 1"
definition M_COPYALL :: int where "M_COPYALL = 1000000000"

definition mclsizes :: "nat list" where
  "mclsizes = [MCLBYTES, 4 * 1024, 8 * 1024, 9 * 1024, 12 * 1024, 16 * 1024, 64 * 1024]"

definition m_pktdat :: nat where "m_pktdat = MLEN - MHLEN"

definition M_EXT :: u16 where "M_EXT = 0x0001"
definition M_PKTHDR :: u16 where "M_PKTHDR = 0x0002"
definition M_EXTWR :: u16 where "M_EXTWR = 0x0008"
definition M_ZEROIZE :: u16 where "M_ZEROIZE = 0x2000"
definition M_COPYFLAGS :: u16 where "M_COPYFLAGS = 0xfff6"

definition MT_DATA :: nat where "MT_DATA = 1"
definition IFQ_DEFPRIO :: nat where "IFQ_DEFPRIO = 3"
definition PACKET_TAG_MAXSIZE :: nat where "PACKET_TAG_MAXSIZE = 52"

record m_tag =
  m_tag_id :: u16
  m_tag_data :: "u8 list"

record pkthdr =
  ph_len :: int
  ph_tags :: "m_tag list"
  ph_tagsset :: u16
  ph_prio :: nat

record mbuf =
  m_type :: nat
  m_flags :: u16
  m_data :: nat
  m_len :: nat
  m_dat :: "u8 list"
  m_pkthdr :: pkthdr
  m_ext :: nat

record mstore =
  mb_avail :: nat
  mb_junk :: mbuf
  cl_avail :: "nat \<Rightarrow> nat"
  cl_junk :: "nat \<Rightarrow> u8 list"
  tag_avail :: nat
  tag_junk :: "nat \<Rightarrow> u8 list"
  m_mtypes :: "nat \<Rightarrow> u16"
  ext_mem :: "nat \<Rightarrow> u8 list"
  ext_ref :: "nat \<Rightarrow> nat"
  ext_pool :: "nat \<Rightarrow> nat"
  ext_next :: nat

text \<open>The buffer an mbuf's data lies in, the bytes it holds, and the bytes of a chain.\<close>

definition is_ext :: "mbuf \<Rightarrow> bool" where
  "is_ext m \<longleftrightarrow> has_flag (m_flags m) M_EXT"

definition is_pkthdr :: "mbuf \<Rightarrow> bool" where
  "is_pkthdr m \<longleftrightarrow> has_flag (m_flags m) M_PKTHDR"

definition m_buf :: "mstore \<Rightarrow> mbuf \<Rightarrow> u8 list" where
  "m_buf st m = (if is_ext m then ext_mem st (m_ext m) else m_dat m)"

definition m_bytes :: "mstore \<Rightarrow> mbuf \<Rightarrow> u8 list" where
  "m_bytes st m = mem_read (m_buf st m) (m_data m) (m_len m)"

definition chain_bytes :: "mstore \<Rightarrow> mbuf list \<Rightarrow> u8 list" where
  "chain_bytes st ms = concat (map (m_bytes st) ms)"

text \<open>A store into the buffer of an mbuf, \<open>off\<close> bytes from its data pointer.\<close>

definition mb_write :: "mstore \<Rightarrow> mbuf \<Rightarrow> nat \<Rightarrow> u8 list \<Rightarrow> mstore \<times> mbuf" where
  "mb_write st m off ys =
     (if is_ext m
      then (st\<lparr>ext_mem := (ext_mem st)(m_ext m := mem_write (ext_mem st (m_ext m)) (m_data m + off) ys)\<rparr>, m)
      else (st, m\<lparr>m_dat := mem_write (m_dat m) (m_data m + off) ys\<rparr>))"

definition MCLISREFERENCED :: "mstore \<Rightarrow> mbuf \<Rightarrow> bool" where
  "MCLISREFERENCED st m \<longleftrightarrow> ext_ref st (m_ext m) > 1"

definition M_READONLY :: "mstore \<Rightarrow> mbuf \<Rightarrow> bool" where
  "M_READONLY st m \<longleftrightarrow> is_ext m \<and> (\<not> has_flag (m_flags m) M_EXTWR \<or> MCLISREFERENCED st m)"

subsection \<open>Packet tags\<close>

definition m_tag_get :: "mstore \<Rightarrow> u16 \<Rightarrow> nat \<Rightarrow> bool \<Rightarrow> string + (m_tag option \<times> mstore)" where
  "m_tag_get st type len wait =
     (if len > PACKET_TAG_MAXSIZE then Inl ''requested tag size for pool is too big''
      else if tag_avail st = 0 \<and> \<not> wait then Inr (None, st)
      else Inr (Some \<lparr>m_tag_id = type, m_tag_data = tag_junk st len\<rparr>,
                st\<lparr>tag_avail := tag_avail st - 1\<rparr>))"

definition tags_of :: "m_tag list \<Rightarrow> u16" where
  "tags_of ts = fold (\<lambda>t s. s OR m_tag_id t) ts 0"

definition m_tag_prepend :: "mbuf \<Rightarrow> m_tag \<Rightarrow> mbuf" where
  "m_tag_prepend m t =
     (let h = m_pkthdr m
      in m\<lparr>m_pkthdr := h\<lparr>ph_tags := t # ph_tags h, ph_tagsset := ph_tagsset h OR m_tag_id t\<rparr>\<rparr>)"

definition m_tag_delete :: "mstore \<Rightarrow> mbuf \<Rightarrow> m_tag \<Rightarrow> mstore \<times> mbuf" where
  "m_tag_delete st m t =
     (let h = m_pkthdr m; ts = remove1 t (ph_tags h)
      in (st\<lparr>tag_avail := tag_avail st + 1\<rparr>,
          m\<lparr>m_pkthdr := h\<lparr>ph_tags := ts, ph_tagsset := tags_of ts\<rparr>\<rparr>))"

definition m_tag_delete_chain :: "mstore \<Rightarrow> mbuf \<Rightarrow> mstore \<times> mbuf" where
  "m_tag_delete_chain st m =
     (let h = m_pkthdr m
      in (st\<lparr>tag_avail := tag_avail st + length (ph_tags h)\<rparr>,
          m\<lparr>m_pkthdr := h\<lparr>ph_tags := [], ph_tagsset := 0\<rparr>\<rparr>))"

text \<open>\<^verbatim>\<open>m_tag_find\<close> from the start of the chain, or after a tag of it.\<close>

definition m_tag_find :: "mbuf \<Rightarrow> u16 \<Rightarrow> m_tag option \<Rightarrow> m_tag option" where
  "m_tag_find m type t =
     (if ph_tagsset (m_pkthdr m) AND type = 0 then None
      else
        let ts = (case t of None \<Rightarrow> ph_tags (m_pkthdr m)
                  | Some t \<Rightarrow> tl (dropWhile (\<lambda>p. p \<noteq> t) (ph_tags (m_pkthdr m))))
        in find (\<lambda>p. m_tag_id p = type) ts)"

definition m_tag_copy :: "mstore \<Rightarrow> m_tag \<Rightarrow> bool \<Rightarrow> string + (m_tag option \<times> mstore)" where
  "m_tag_copy st t wait =
     (case m_tag_get st (m_tag_id t) (length (m_tag_data t)) wait of
        Inl e \<Rightarrow> Inl e
      | Inr (None, st) \<Rightarrow> Inr (None, st)
      | Inr (Some p, st) \<Rightarrow> Inr (Some (p\<lparr>m_tag_data := m_tag_data t\<rparr>), st))"

text \<open>The loop of \<^verbatim>\<open>m_tag_copy_chain\<close>: each copy goes to the end of the new chain.\<close>

fun tag_copy_loop :: "mstore \<Rightarrow> mbuf \<Rightarrow> m_tag list \<Rightarrow> bool \<Rightarrow> string + (bool \<times> mstore \<times> mbuf)" where
  "tag_copy_loop st to [] wait = Inr (True, st, to)"
| "tag_copy_loop st to (p # ps) wait =
     (case m_tag_copy st p wait of
        Inl e \<Rightarrow> Inl e
      | Inr (None, st) \<Rightarrow> (let (st, to) = m_tag_delete_chain st to in Inr (False, st, to))
      | Inr (Some t, st) \<Rightarrow>
          let h = m_pkthdr to
          in tag_copy_loop st
               (to\<lparr>m_pkthdr := h\<lparr>ph_tags := ph_tags h @ [t], ph_tagsset := ph_tagsset h OR m_tag_id t\<rparr>\<rparr>)
               ps wait)"

definition m_tag_copy_chain :: "mstore \<Rightarrow> mbuf \<Rightarrow> mbuf \<Rightarrow> bool \<Rightarrow> string + (bool \<times> mstore \<times> mbuf)" where
  "m_tag_copy_chain st to frm wait =
     (let (st, to) = m_tag_delete_chain st to
      in tag_copy_loop st to (ph_tags (m_pkthdr frm)) wait)"

definition m_tag_init :: "mbuf \<Rightarrow> mbuf" where
  "m_tag_init m = m\<lparr>m_pkthdr := (m_pkthdr m)\<lparr>ph_tags := []\<rparr>\<rparr>"

definition m_tag_first :: "mbuf \<Rightarrow> m_tag option" where
  "m_tag_first m = (case ph_tags (m_pkthdr m) of [] \<Rightarrow> None | t # ts \<Rightarrow> Some t)"

definition m_tag_next :: "mbuf \<Rightarrow> m_tag \<Rightarrow> m_tag option" where
  "m_tag_next m t = (case tl (dropWhile (\<lambda>p. p \<noteq> t) (ph_tags (m_pkthdr m))) of [] \<Rightarrow> None | p # ps \<Rightarrow> Some p)"

subsection \<open>Allocation and release\<close>

definition count_mtype :: "mstore \<Rightarrow> nat \<Rightarrow> u16 \<Rightarrow> mstore" where
  "count_mtype st type d = st\<lparr>m_mtypes := (m_mtypes st)(type := m_mtypes st type + d)\<rparr>"

definition m_get :: "mstore \<Rightarrow> bool \<Rightarrow> nat \<Rightarrow> mbuf option \<times> mstore" where
  "m_get st wait type =
     (if mb_avail st = 0 \<and> \<not> wait then (None, st)
      else
        let st = count_mtype (st\<lparr>mb_avail := mb_avail st - 1\<rparr>) type 1
        in (Some ((mb_junk st)\<lparr>m_type := type, m_data := 0, m_flags := 0\<rparr>), st))"

definition m_inithdr :: "mbuf \<Rightarrow> mbuf" where
  "m_inithdr m =
     m\<lparr>m_data := m_pktdat, m_flags := M_PKTHDR,
       m_pkthdr := \<lparr>ph_len = 0, ph_tags = [], ph_tagsset = 0, ph_prio = IFQ_DEFPRIO\<rparr>\<rparr>"

definition m_gethdr :: "mstore \<Rightarrow> bool \<Rightarrow> nat \<Rightarrow> mbuf option \<times> mstore" where
  "m_gethdr st wait type =
     (if mb_avail st = 0 \<and> \<not> wait then (None, st)
      else
        let st = count_mtype (st\<lparr>mb_avail := mb_avail st - 1\<rparr>) type 1
        in (Some (m_inithdr ((mb_junk st)\<lparr>m_type := type\<rparr>)), st))"

definition m_getclr :: "mstore \<Rightarrow> bool \<Rightarrow> nat \<Rightarrow> mbuf option \<times> mstore" where
  "m_getclr st wait type =
     (case m_get st wait type of
        (None, st) \<Rightarrow> (None, st)
      | (Some m, st) \<Rightarrow> (let (st, m) = mb_write st m 0 (replicate MLEN 0) in (Some m, st)))"

text \<open>The smallest cluster pool whose items are large enough.\<close>

definition m_clpool :: "nat \<Rightarrow> nat option" where
  "m_clpool pktlen = find (\<lambda>pi. pktlen \<le> mclsizes ! pi) [0..<length mclsizes]"

text \<open>\<^verbatim>\<open>MEXTADD\<close> of a fresh pool buffer.\<close>

definition mextadd :: "mstore \<Rightarrow> mbuf \<Rightarrow> nat \<Rightarrow> mstore \<times> mbuf" where
  "mextadd st m pi =
     (let i = ext_next st
      in (st\<lparr>ext_mem := (ext_mem st)(i := cl_junk st (mclsizes ! pi)),
             ext_ref := (ext_ref st)(i := 1), ext_pool := (ext_pool st)(i := pi), ext_next := i + 1\<rparr>,
          m\<lparr>m_data := 0, m_ext := i, m_flags := set_flag (m_flags m) (M_EXT OR M_EXTWR)\<rparr>))"

definition m_extref :: "mstore \<Rightarrow> mbuf \<Rightarrow> mbuf \<Rightarrow> mstore \<times> mbuf" where
  "m_extref st old n =
     (st\<lparr>ext_ref := (ext_ref st)(m_ext old := ext_ref st (m_ext old) + 1)\<rparr>,
      n\<lparr>m_flags := set_flag (m_flags n) (m_flags old AND (M_EXT OR M_EXTWR))\<rparr>)"

definition m_extunref :: "mstore \<Rightarrow> mbuf \<Rightarrow> bool \<times> mstore" where
  "m_extunref st m =
     (if \<not> MCLISREFERENCED st m then (False, st)
      else (True, st\<lparr>ext_ref := (ext_ref st)(m_ext m := ext_ref st (m_ext m) - 1)\<rparr>))"

definition m_extfree_pool :: "mstore \<Rightarrow> nat \<Rightarrow> mstore" where
  "m_extfree_pool st i =
     (let pi = ext_pool st i
      in st\<lparr>cl_avail := (cl_avail st)(pi := cl_avail st pi + 1), ext_ref := (ext_ref st)(i := 0)\<rparr>)"

definition m_extfree :: "mstore \<Rightarrow> mbuf \<Rightarrow> mstore \<times> mbuf" where
  "m_extfree st m =
     (let (refs, st) = m_extunref st m;
          st = (if refs then st else m_extfree_pool st (m_ext m))
      in (st, m\<lparr>m_flags := clr_flag (m_flags m) (M_EXT OR M_EXTWR)\<rparr>))"

definition m_zero :: "mstore \<Rightarrow> mbuf \<Rightarrow> mstore \<times> mbuf" where
  "m_zero st m =
     (if is_ext m
      then (st\<lparr>ext_mem := (ext_mem st)(m_ext m := replicate (length (ext_mem st (m_ext m))) 0)\<rparr>, m)
      else if is_pkthdr m then (st, m\<lparr>m_dat := mem_write (m_dat m) m_pktdat (replicate MHLEN 0)\<rparr>)
      else (st, m\<lparr>m_dat := replicate MLEN 0\<rparr>))"

text \<open>Release the first mbuf of a chain and return the rest.\<close>

fun m_free :: "mstore \<Rightarrow> mbuf list \<Rightarrow> mstore \<times> mbuf list" where
  "m_free st [] = (st, [])"
| "m_free st (m # ms) =
     (let st = count_mtype st (m_type m) (- 1);
          (st, m, ms) =
            (if has_flag (m_flags m) M_ZEROIZE then
               (let (st, m) = m_zero st m
                in (st, m, (case ms of [] \<Rightarrow> []
                            | n # ns \<Rightarrow> n\<lparr>m_flags := set_flag (m_flags n) M_ZEROIZE\<rparr> # ns)))
             else (st, m, ms));
          (st, m) = (if is_pkthdr m then m_tag_delete_chain st m else (st, m));
          (st, m) = (if is_ext m then m_extfree st m else (st, m))
      in (st\<lparr>mb_avail := mb_avail st + 1\<rparr>, ms))"

lemma length_m_free: "length (snd (m_free st ms)) = length ms - 1"
  by (cases ms) (auto simp: m_free.simps split_beta Let_def split: list.splits)

declare m_free.simps [simp del]

function m_freem :: "mstore \<Rightarrow> mbuf list \<Rightarrow> mstore" where
  "m_freem st ms = (if ms = [] then st else (let (st, ms) = m_free st ms in m_freem st ms))"
  by pat_completeness auto
termination
proof (relation "measure (\<lambda>(st, ms). length ms)")
  fix st :: mstore and ms :: "mbuf list" and x y z
  assume "ms \<noteq> []" "x = m_free st ms" "(y, z) = x"
  then have "length z = length ms - 1" using length_m_free [of st ms] by (metis snd_conv)
  with \<open>ms \<noteq> []\<close> show "((y, z), st, ms) \<in> measure (\<lambda>(st, ms). length ms)" by simp
qed simp

declare m_freem.simps [simp del]

text \<open>
  \<^verbatim>\<open>m_clget\<close> adds a cluster to an mbuf, or to a new one when it is given none.  A request
  larger than every pool is a panic.  The callers that pass an mbuf ignore the returned pointer
  and test \<^verbatim>\<open>M_EXT\<close>: \<open>mclgeti\<close> gives back their mbuf.
\<close>

definition m_clget :: "mstore \<Rightarrow> mbuf option \<Rightarrow> bool \<Rightarrow> nat \<Rightarrow> string + (mstore \<times> mbuf option)" where
  "m_clget st mo how pktlen =
     (case m_clpool pktlen of
        None \<Rightarrow> Inl ''m_clget: request for too large a cluster''
      | Some pi \<Rightarrow>
          let (m, st') = (case mo of None \<Rightarrow> m_gethdr st how MT_DATA | Some m \<Rightarrow> (Some m, st))
          in case m of
               None \<Rightarrow> Inr (st', None)
             | Some m \<Rightarrow>
                 if cl_avail st' pi = 0 \<and> \<not> how
                 then Inr ((if mo = None then m_freem st' [m] else st'), None)
                 else let (st', m) = mextadd (st'\<lparr>cl_avail := (cl_avail st')(pi := cl_avail st' pi - 1)\<rparr>) m pi
                      in Inr (st', Some m))"

definition mclgeti :: "mstore \<Rightarrow> mbuf \<Rightarrow> bool \<Rightarrow> nat \<Rightarrow> string + (mstore \<times> mbuf)" where
  "mclgeti st m how len =
     (case m_clget st (Some m) how len of
        Inl e \<Rightarrow> Inl e
      | Inr (st, None) \<Rightarrow> Inr (st, m)
      | Inr (st, Some m) \<Rightarrow> Inr (st, m))"

definition m_leadingspace :: "mstore \<Rightarrow> mbuf \<Rightarrow> int" where
  "m_leadingspace st m =
     (if M_READONLY st m then 0
      else if is_ext m then int (m_data m)
      else if is_pkthdr m then int (m_data m) - int m_pktdat
      else int (m_data m))"

definition m_trailingspace :: "mstore \<Rightarrow> mbuf \<Rightarrow> int" where
  "m_trailingspace st m =
     (if M_READONLY st m then 0
      else if is_ext m then int (length (ext_mem st (m_ext m))) - (int (m_data m) + int (m_len m))
      else int MLEN - (int (m_data m) + int (m_len m)))"

text \<open>Moving and duplicating the packet header.\<close>

definition m_move_pkthdr :: "mbuf \<Rightarrow> mbuf \<Rightarrow> mbuf \<times> mbuf" where
  "m_move_pkthdr to frm =
     (let to = to\<lparr>m_flags := (m_flags to AND (M_EXT OR M_EXTWR)) OR (m_flags frm AND M_COPYFLAGS),
                  m_pkthdr := m_pkthdr frm\<rparr>;
          frm = frm\<lparr>m_flags := clr_flag (m_flags frm) M_PKTHDR,
                    m_pkthdr := (m_pkthdr frm)\<lparr>ph_tags := []\<rparr>\<rparr>
      in ((if is_ext to then to else to\<lparr>m_data := m_pktdat\<rparr>), frm))"

definition m_dup_pkthdr :: "mstore \<Rightarrow> mbuf \<Rightarrow> mbuf \<Rightarrow> bool \<Rightarrow> string + (bool \<times> mstore \<times> mbuf)" where
  "m_dup_pkthdr st to frm wait =
     (if \<not> is_pkthdr frm then Inl ''KASSERT''
      else
        let to = to\<lparr>m_flags := (m_flags to AND (M_EXT OR M_EXTWR)) OR (m_flags frm AND M_COPYFLAGS),
                    m_pkthdr := (m_pkthdr frm)\<lparr>ph_tags := []\<rparr>\<rparr>
        in case m_tag_copy_chain st to frm wait of
             Inl e \<Rightarrow> Inl e
           | Inr (False, st, to) \<Rightarrow> Inr (False, st, to)
           | Inr (True, st, to) \<Rightarrow>
               Inr (True, st, (if is_ext to then to else to\<lparr>m_data := m_pktdat\<rparr>)))"

end
