(* ===== verification/Mbuf_Chain.thy ===== *)
theory Mbuf_Chain
  imports Mbuf
begin

text \<open>
  The routines of \<^verbatim>\<open>kern/uipc_mbuf.c\<close> that read, trim, copy and rearrange whole
  chains.  Each is shown to act on the bytes of the chain as a list operation.  A panic is
  \<open>Inl\<close> of its message; a \<^verbatim>\<open>NULL\<close> result is \<open>None\<close>.
\<close>

subsection \<open>Reading a chain\<close>

text \<open>The mbuf that holds byte \<open>loc\<close>: the chain from there, and the offset in it.\<close>

fun m_getptr :: "mbuf list \<Rightarrow> int \<Rightarrow> (mbuf list \<times> nat) option" where
  "m_getptr [] loc = None"
| "m_getptr (m # ms) loc =
     (if loc < 0 then None
      else if int (m_len m) > loc then Some (m # ms, nat loc)
      else
        let loc = loc - int (m_len m)
        in if ms = [] then (if loc = 0 then Some ([m], m_len m) else None)
           else m_getptr ms loc)"

fun m_copydata_loop :: "mstore \<Rightarrow> mbuf list \<Rightarrow> nat \<Rightarrow> nat \<Rightarrow> string + u8 list" where
  "m_copydata_loop st ms off 0 = Inr []"
| "m_copydata_loop st [] off (Suc len) = Inl ''m_copydata: null mbuf''"
| "m_copydata_loop st (m # ms) off (Suc len) =
     (let count = min (m_len m - off) (Suc len);
          bytes = mem_read (m_buf st m) (m_data m + off) count
      in case m_copydata_loop st ms 0 (Suc len - count) of
           Inl e \<Rightarrow> Inl e
         | Inr rest \<Rightarrow> Inr (bytes @ rest))"

definition m_copydata :: "mstore \<Rightarrow> mbuf list \<Rightarrow> int \<Rightarrow> int \<Rightarrow> string + u8 list" where
  "m_copydata st ms off len =
     (if off < 0 then Inl ''m_copydata: off < 0''
      else if len < 0 then Inl ''m_copydata: len < 0''
      else case m_getptr ms off of
             None \<Rightarrow> Inl ''m_copydata: short mbuf chain''
           | Some (ms, off) \<Rightarrow> m_copydata_loop st ms off (nat len))"

text \<open>\<^verbatim>\<open>m_apply\<close> passes each contiguous piece to a function that may stop it.\<close>

fun m_apply_skip :: "mbuf list \<Rightarrow> nat \<Rightarrow> string + (mbuf list \<times> nat)" where
  "m_apply_skip ms 0 = Inr (ms, 0)"
| "m_apply_skip [] (Suc off) = Inl ''m_apply: null mbuf in skip''"
| "m_apply_skip (m # ms) (Suc off) =
     (if Suc off < m_len m then Inr (m # ms, Suc off) else m_apply_skip ms (Suc off - m_len m))"

fun m_apply_loop :: "mstore \<Rightarrow> mbuf list \<Rightarrow> nat \<Rightarrow> nat \<Rightarrow> ('s \<Rightarrow> u8 list \<Rightarrow> int \<times> 's) \<Rightarrow> 's
    \<Rightarrow> string + (int \<times> 's)" where
  "m_apply_loop st ms off 0 f s = Inr (0, s)"
| "m_apply_loop st [] off (Suc len) f s = Inl ''m_apply: null mbuf''"
| "m_apply_loop st (m # ms) off (Suc len) f s =
     (let count = min (m_len m - off) (Suc len);
          (rval, s) = f s (mem_read (m_buf st m) (m_data m + off) count)
      in if rval \<noteq> 0 then Inr (rval, s) else m_apply_loop st ms 0 (Suc len - count) f s)"

definition m_apply :: "mstore \<Rightarrow> mbuf list \<Rightarrow> int \<Rightarrow> int \<Rightarrow> ('s \<Rightarrow> u8 list \<Rightarrow> int \<times> 's) \<Rightarrow> 's
    \<Rightarrow> string + (int \<times> 's)" where
  "m_apply st ms off len f s =
     (if len < 0 then Inl ''m_apply: len < 0''
      else if off < 0 then Inl ''m_apply: off < 0''
      else case m_apply_skip ms (nat off) of
             Inl e \<Rightarrow> Inl e
           | Inr (ms, off) \<Rightarrow> m_apply_loop st ms off (nat len) f s)"

subsection \<open>Trimming\<close>

fun m_adj_head :: "mbuf list \<Rightarrow> nat \<Rightarrow> mbuf list \<times> nat" where
  "m_adj_head [] len = ([], len)"
| "m_adj_head (m # ms) len =
     (if len = 0 then (m # ms, 0)
      else if m_len m \<le> len then
        (let (ms, len) = m_adj_head ms (len - m_len m) in (m\<lparr>m_len := 0\<rparr> # ms, len))
      else (m\<lparr>m_len := m_len m - len, m_data := m_data m + len\<rparr> # ms, 0))"

definition chain_len :: "mbuf list \<Rightarrow> nat" where
  "chain_len ms = sum_list (map m_len ms)"

text \<open>Keep \<open>count\<close> bytes: shorten the mbuf they end in and empty the ones after it.\<close>

fun m_adj_trunc :: "mbuf list \<Rightarrow> nat \<Rightarrow> mbuf list" where
  "m_adj_trunc [] count = []"
| "m_adj_trunc (m # ms) count =
     (if m_len m \<ge> count then m\<lparr>m_len := count\<rparr> # map (\<lambda>m. m\<lparr>m_len := 0\<rparr>) ms
      else m # m_adj_trunc ms (count - m_len m))"

definition set_pktlen :: "mbuf list \<Rightarrow> (int \<Rightarrow> int) \<Rightarrow> mbuf list" where
  "set_pktlen ms f =
     (case ms of [] \<Rightarrow> []
      | m # ms \<Rightarrow> (if is_pkthdr m then m\<lparr>m_pkthdr := (m_pkthdr m)\<lparr>ph_len := f (ph_len (m_pkthdr m))\<rparr>\<rparr>
                  else m) # ms)"

definition m_adj :: "mbuf list \<Rightarrow> int \<Rightarrow> mbuf list" where
  "m_adj mp req_len =
     (if mp = [] then []
      else if req_len \<ge> 0 then
        (let (ms, len) = m_adj_head mp (nat req_len)
         in set_pktlen ms (\<lambda>l. l - (req_len - int len)))
      else
        let len = nat (- req_len); m = last mp
        in if m_len m \<ge> len then
             set_pktlen (butlast mp @ [m\<lparr>m_len := m_len m - len\<rparr>]) (\<lambda>l. l - int len)
           else
             let count = chain_len mp - len
             in m_adj_trunc (set_pktlen mp (\<lambda>_. int count)) count)"

subsection \<open>Joining chains\<close>

function m_cat_loop :: "mstore \<Rightarrow> mbuf \<Rightarrow> mbuf list \<Rightarrow> mstore \<times> mbuf list" where
  "m_cat_loop st m [] = (st, [m])"
| "m_cat_loop st m (n # ns) =
     (if M_READONLY st m \<or> int (m_len n) > m_trailingspace st m then (st, m # n # ns)
      else
        let (st', m') = mb_write st m (m_len m) (m_bytes st n);
            m' = m'\<lparr>m_len := m_len m + m_len n\<rparr>
        in m_cat_loop (fst (m_free st' (n # ns))) m' (snd (m_free st' (n # ns))))"
  by pat_completeness auto
termination
  by (relation "measure (\<lambda>(st, m, ns). length ns)") (auto simp: length_m_free)

definition m_cat :: "mstore \<Rightarrow> mbuf list \<Rightarrow> mbuf list \<Rightarrow> mstore \<times> mbuf list" where
  "m_cat st ms ns = (let (st, tail) = m_cat_loop st (last ms) ns in (st, butlast ms @ tail))"

text \<open>Room for \<open>len\<close> bytes in front of the chain; \<open>None\<close> frees the chain.\<close>

definition align_down :: "nat \<Rightarrow> nat" where
  "align_down n = n - n mod 8"

definition m_prepend :: "mstore \<Rightarrow> mbuf list \<Rightarrow> nat \<Rightarrow> bool \<Rightarrow> string + (mstore \<times> mbuf list option)" where
  "m_prepend st ms len how =
     (case ms of
        [] \<Rightarrow> Inl ''null mbuf''
      | m # rest \<Rightarrow>
          if len > MHLEN then Inl ''mbuf prepend length too big''
          else if m_leadingspace st m \<ge> int len then
            Inr (st, Some (set_pktlen (m\<lparr>m_data := m_data m - len, m_len := m_len m + len\<rparr> # rest)
              (\<lambda>l. l + int len)))
          else
            case m_get st how (m_type m) of
              (None, st) \<Rightarrow> Inr (m_freem st ms, None)
            | (Some mn, st) \<Rightarrow>
                let (mn, m) = (if is_pkthdr m then m_move_pkthdr mn m else (mn, m));
                    mn = mn\<lparr>m_data := m_data mn + align_down (MHLEN - len), m_len := len\<rparr>
                in Inr (st, Some (set_pktlen (mn # m # rest) (\<lambda>l. l + int len))))"

subsection \<open>Well-formed chains\<close>

definition wf_mbuf :: "mstore \<Rightarrow> mbuf \<Rightarrow> bool" where
  "wf_mbuf st m \<longleftrightarrow>
     length (m_dat m) = MLEN \<and> m_data m + m_len m \<le> length (m_buf st m)
     \<and> (is_pkthdr m \<and> \<not> is_ext m \<longrightarrow> m_pktdat \<le> m_data m)
     \<and> (is_ext m \<longrightarrow> 0 < ext_ref st (m_ext m))"

abbreviation wf_chain :: "mstore \<Rightarrow> mbuf list \<Rightarrow> bool" where
  "wf_chain st ms \<equiv> list_all (wf_mbuf st) ms"

lemma length_m_bytes [simp]: "wf_mbuf st m \<Longrightarrow> length (m_bytes st m) = m_len m"
  by (simp add: wf_mbuf_def m_bytes_def)

lemma chain_bytes_simps [simp]:
  "chain_bytes st [] = []" "chain_bytes st (m # ms) = m_bytes st m @ chain_bytes st ms"
  "chain_bytes st (ms @ ns) = chain_bytes st ms @ chain_bytes st ns"
  by (simp_all add: chain_bytes_def)

lemma chain_len_simps [simp]:
  "chain_len [] = 0" "chain_len (m # ms) = m_len m + chain_len ms"
  "chain_len (ms @ ns) = chain_len ms + chain_len ns"
  by (simp_all add: chain_len_def)

lemma length_chain_bytes: "wf_chain st ms \<Longrightarrow> length (chain_bytes st ms) = chain_len ms"
  by (induction ms) auto

lemma mem_read_drop: "mem_read xs (a + off) n = take n (drop off (drop a xs))"
  by (simp add: mem_read_def add.commute)

lemma mem_read_bytes:
  "off + n \<le> m_len m \<Longrightarrow> mem_read (m_buf st m) (m_data m + off) n = take n (drop off (m_bytes st m))"
  by (simp add: m_bytes_def mem_read_def drop_take take_take add.commute min_def)

subsection \<open>Reading is list reading\<close>

lemma m_getptr_Some:
  assumes "m_getptr ms loc = Some (ns, off)" "wf_chain st ms"
  shows "ns \<noteq> []" "off \<le> m_len (hd ns)" "wf_chain st ns" "0 \<le> loc" "loc \<le> int (chain_len ms)"
    "drop off (chain_bytes st ns) = drop (nat loc) (chain_bytes st ms)"
    "chain_len ns - off = chain_len ms - nat loc"
proof -
  have "ns \<noteq> [] \<and> off \<le> m_len (hd ns) \<and> wf_chain st ns \<and> 0 \<le> loc \<and> loc \<le> int (chain_len ms)
    \<and> drop off (chain_bytes st ns) = drop (nat loc) (chain_bytes st ms)
    \<and> chain_len ns - off = chain_len ms - nat loc"
    using assms
  proof (induction ms loc rule: m_getptr.induct)
    case (2 m ms loc)
    show ?case
    proof (cases "loc < int (m_len m)")
      case True
      then show ?thesis using 2 by (auto split: if_splits)
    next
      case False
      show ?thesis
      proof (cases "ms = []")
        case True
        then show ?thesis using 2 False by (auto simp: Let_def split: if_splits)
      next
        case ms: False
        then have "0 \<le> loc" "m_getptr ms (loc - int (m_len m)) = Some (ns, off)"
          using 2 False by (auto simp: Let_def split: if_splits)
        then show ?thesis
          using "2.IH" [OF _ _ refl ms] "2.prems"(2) False by (auto simp: nat_diff_distrib)
      qed
    qed
  qed simp
  then show "ns \<noteq> []" "off \<le> m_len (hd ns)" "wf_chain st ns" "0 \<le> loc" "loc \<le> int (chain_len ms)"
    "drop off (chain_bytes st ns) = drop (nat loc) (chain_bytes st ms)"
    "chain_len ns - off = chain_len ms - nat loc" by auto
qed

lemma m_getptr_None: "m_getptr ms loc = None \<longleftrightarrow> ms = [] \<or> loc < 0 \<or> int (chain_len ms) < loc"
  by (induction ms loc rule: m_getptr.induct) (auto simp: Let_def)

lemma m_copydata_loop_correct:
  "wf_chain st ms \<Longrightarrow> (ms \<noteq> [] \<longrightarrow> off \<le> m_len (hd ms)) \<Longrightarrow>
   m_copydata_loop st ms off len =
     (if len = 0 \<or> ms \<noteq> [] \<and> off + len \<le> chain_len ms
      then Inr (take len (drop off (chain_bytes st ms))) else Inl ''m_copydata: null mbuf'')"
proof (induction st ms off len rule: m_copydata_loop.induct)
  case (3 st m ms off len)
  let ?count = "min (m_len m - off) (Suc len)"
  have IH: "m_copydata_loop st ms 0 (Suc len - ?count) =
     (if Suc len - ?count = 0 \<or> ms \<noteq> [] \<and> Suc len - ?count \<le> chain_len ms
      then Inr (take (Suc len - ?count) (chain_bytes st ms)) else Inl ''m_copydata: null mbuf'')"
    using "3.IH" [OF refl] "3.prems" by (auto simp: min_def)
  have off: "off \<le> m_len m" and wf: "wf_mbuf st m" using "3.prems" by auto
  have "mem_read (m_buf st m) (m_data m + off) ?count = take (Suc len) (drop off (m_bytes st m))"
    using wf off by (subst mem_read_bytes) (auto simp: min_def)
  moreover have "Suc len - ?count = Suc len - (m_len m - off)" by auto
  ultimately show ?case
    using IH off wf by (cases "ms = []") (auto simp: Let_def)
qed auto

lemma m_copydata_correct:
  assumes "wf_chain st ms"
  shows "m_copydata st ms off len =
    (if off < 0 then Inl ''m_copydata: off < 0''
     else if len < 0 then Inl ''m_copydata: len < 0''
     else if ms = [] \<or> int (chain_len ms) < off then Inl ''m_copydata: short mbuf chain''
     else if int (chain_len ms) < off + len then Inl ''m_copydata: null mbuf''
     else Inr (take (nat len) (drop (nat off) (chain_bytes st ms))))"
proof (cases "m_getptr ms off")
  case None
  then show ?thesis using m_getptr_None [of ms off] by (auto simp: m_copydata_def)
next
  case (Some p)
  obtain ns o' where p: "p = (ns, o')" by (cases p)
  note g = m_getptr_Some [OF Some [unfolded p] assms]
  have "ms \<noteq> []" using Some m_getptr_None [of ms off] by auto
  moreover have "o' \<le> chain_len ns" using g(1,2) by (cases ns) auto
  ultimately show ?thesis
    using Some p g m_copydata_loop_correct [OF g(3), of o' "nat len"]
    by (auto simp: m_copydata_def)
qed

lemma m_apply_skip_correct:
  "wf_chain st ms \<Longrightarrow>
   (case m_apply_skip ms off of
      Inl e \<Rightarrow> chain_len ms < off
    | Inr (ns, o') \<Rightarrow> off \<le> chain_len ms \<and> wf_chain st ns \<and> o' \<le> chain_len ns
        \<and> (ns \<noteq> [] \<longrightarrow> o' \<le> m_len (hd ns)) \<and> drop o' (chain_bytes st ns) = drop off (chain_bytes st ms)
        \<and> chain_len ns - o' = chain_len ms - off)"
  by (induction ms off rule: m_apply_skip.induct) (auto split: sum.splits)

text \<open>What \<^verbatim>\<open>m_apply\<close> does on a list of pieces: stop at the first non-zero result.\<close>

fun apply_pieces :: "('s \<Rightarrow> u8 list \<Rightarrow> int \<times> 's) \<Rightarrow> u8 list list \<Rightarrow> 's \<Rightarrow> int \<times> 's" where
  "apply_pieces f [] s = (0, s)"
| "apply_pieces f (p # ps) s =
     (let (rval, s) = f s p in if rval \<noteq> 0 then (rval, s) else apply_pieces f ps s)"

lemma m_apply_loop_correct:
  "wf_chain st ms \<Longrightarrow> (ms \<noteq> [] \<longrightarrow> off \<le> m_len (hd ms)) \<Longrightarrow> off + len \<le> chain_len ms \<Longrightarrow>
   \<exists>ps. concat ps = take len (drop off (chain_bytes st ms))
     \<and> m_apply_loop st ms off len f s = Inr (apply_pieces f ps s)"
proof (induction st ms off len f s rule: m_apply_loop.induct)
  case (1 st ms off f s)
  then show ?case by (intro exI [of _ "[]"]) simp
next
  case (3 st m ms off len f s)
  let ?count = "min (m_len m - off) (Suc len)"
  let ?p = "mem_read (m_buf st m) (m_data m + off) ?count"
  obtain rval s' where f: "f s ?p = (rval, s')" by (cases "f s ?p")
  have off: "off \<le> m_len m" and wf: "wf_mbuf st m" using "3.prems" by auto
  have p: "?p = take (Suc len) (drop off (m_bytes st m))"
    using wf off by (subst mem_read_bytes) (auto simp: min_def)
  have rest: "take (Suc len) (drop off (chain_bytes st (m # ms)))
      = ?p @ take (Suc len - ?count) (chain_bytes st ms)"
    using off wf p by (auto simp: min_def)
  show ?case
  proof (cases "rval = 0")
    case True
    have "Suc len - ?count \<le> chain_len ms" using "3.prems" off by auto
    then obtain ps where "concat ps = take (Suc len - ?count) (drop 0 (chain_bytes st ms))"
      "m_apply_loop st ms 0 (Suc len - ?count) f s' = Inr (apply_pieces f ps s')"
      using "3.IH" [OF refl f [symmetric] refl] True "3.prems" by auto
    then show ?thesis using rest f True by (intro exI [of _ "?p # ps"]) (simp add: Let_def)
  next
    case False
    then show ?thesis using rest f
      by (intro exI [of _ "[?p, take (Suc len - ?count) (chain_bytes st ms)]"]) (simp add: Let_def)
  qed
qed simp

lemma m_apply_correct:
  assumes "wf_chain st ms" "0 \<le> off" "0 \<le> len" "off + len \<le> int (chain_len ms)"
  shows "\<exists>ps. concat ps = take (nat len) (drop (nat off) (chain_bytes st ms))
    \<and> m_apply st ms off len f s = Inr (apply_pieces f ps s)"
proof (cases "m_apply_skip ms (nat off)")
  case (Inl e)
  then show ?thesis using m_apply_skip_correct [OF assms(1), of "nat off"] assms by simp
next
  case (Inr p)
  obtain ns o' where p: "p = (ns, o')" by (cases p)
  note g = m_apply_skip_correct [OF assms(1), of "nat off", unfolded Inr p, simplified]
  then show ?thesis
    using m_apply_loop_correct [of st ns o' "nat len" f s] assms Inr p
    by (auto simp: m_apply_def)
qed

subsection \<open>Trimming is dropping and taking\<close>

lemma m_bytes_update [simp]:
  "m_bytes st (m\<lparr>m_len := n\<rparr>) = mem_read (m_buf st m) (m_data m) n"
  "m_bytes st (m\<lparr>m_pkthdr := h\<rparr>) = m_bytes st m"
  "m_bytes st (m\<lparr>m_len := n, m_data := d\<rparr>) = mem_read (m_buf st m) d n"
  by (simp_all add: m_bytes_def m_buf_def is_ext_def)

lemma wf_mbuf_update [simp]:
  "wf_mbuf st (m\<lparr>m_pkthdr := h\<rparr>) = wf_mbuf st m"
  "wf_mbuf st m \<Longrightarrow> n \<le> m_len m \<Longrightarrow> wf_mbuf st (m\<lparr>m_len := n\<rparr>)"
  "wf_mbuf st m \<Longrightarrow> n \<le> m_len m \<Longrightarrow>
     wf_mbuf st (m\<lparr>m_len := m_len m - n, m_data := m_data m + n\<rparr>)"
  by (auto simp: wf_mbuf_def m_buf_def is_ext_def is_pkthdr_def)

lemma mem_read_less: "n \<le> m_len m \<Longrightarrow> mem_read (m_buf st m) (m_data m) n = take n (m_bytes st m)"
  using mem_read_bytes [of 0 n m st] by simp

lemma m_adj_head_correct:
  "wf_chain st ms \<Longrightarrow> m_adj_head ms len = (ns, r) \<Longrightarrow>
   chain_bytes st ns = drop len (chain_bytes st ms) \<and> wf_chain st ns \<and> r = len - chain_len ms
   \<and> chain_len ns = chain_len ms - len \<and> (ms \<noteq> [] \<longrightarrow> ns \<noteq> [] \<and> m_pkthdr (hd ns) = m_pkthdr (hd ms)
       \<and> m_flags (hd ns) = m_flags (hd ms))"
proof (induction ms len arbitrary: ns r rule: m_adj_head.induct)
  case (2 m ms len)
  have keep: "mem_read (m_buf st m) (m_data m + len) (m_len m - len) = drop len (m_bytes st m)"
    if "len \<le> m_len m" using that 2 by (subst mem_read_bytes) simp_all
  consider "len = 0" | "len \<noteq> 0" "m_len m \<le> len" | "len \<noteq> 0" "len < m_len m" by linarith
  then show ?case
  proof cases
    case 2
    obtain ns' r' where s: "m_adj_head ms (len - m_len m) = (ns', r')"
      by (cases "m_adj_head ms (len - m_len m)")
    from "2.IH" [OF 2 _ s] "2.prems" 2 s show ?thesis
      by (auto simp: mem_read_less)
  qed (use 2 keep in auto)
qed simp

lemma m_adj_trunc_correct:
  "wf_chain st ms \<Longrightarrow> count \<le> chain_len ms \<Longrightarrow>
   chain_bytes st (m_adj_trunc ms count) = take count (chain_bytes st ms)
   \<and> wf_chain st (m_adj_trunc ms count) \<and> chain_len (m_adj_trunc ms count) = count
   \<and> (ms \<noteq> [] \<longrightarrow> m_adj_trunc ms count \<noteq> [] \<and> m_pkthdr (hd (m_adj_trunc ms count)) = m_pkthdr (hd ms)
       \<and> m_flags (hd (m_adj_trunc ms count)) = m_flags (hd ms))"
proof (induction ms count rule: m_adj_trunc.induct)
  case (2 m ms count)
  have z: "chain_bytes st (map (m_len_update (\<lambda>_. 0)) ms) = []" "wf_chain st (map (m_len_update (\<lambda>_. 0)) ms)"
    "chain_len (map (m_len_update (\<lambda>_. 0)) ms) = 0"
    using "2.prems"(1) by (induction ms) (auto simp: mem_read_less)
  show ?case using 2 z by (cases "count \<le> m_len m") (auto simp: mem_read_less)
qed simp

text \<open>The header of a packet states its length.\<close>

definition pkt_ok :: "mbuf list \<Rightarrow> bool" where
  "pkt_ok ms \<longleftrightarrow> ms \<noteq> [] \<and> (is_pkthdr (hd ms) \<longrightarrow> ph_len (m_pkthdr (hd ms)) = int (chain_len ms))"

lemma set_pktlen_simps [simp]:
  "chain_bytes st (set_pktlen ms f) = chain_bytes st ms"
  "wf_chain st (set_pktlen ms f) = wf_chain st ms"
  "chain_len (set_pktlen ms f) = chain_len ms"
  "set_pktlen ms f = [] \<longleftrightarrow> ms = []"
  by (cases ms; simp add: set_pktlen_def)+

lemma pkt_ok_set_pktlen:
  "ms \<noteq> [] \<Longrightarrow> (is_pkthdr (hd ms) \<Longrightarrow> f (ph_len (m_pkthdr (hd ms))) = int (chain_len ms)) \<Longrightarrow>
   pkt_ok (set_pktlen ms f)"
  by (cases ms) (auto simp: set_pktlen_def pkt_ok_def is_pkthdr_def)

lemma hd_set_pktlen:
  "ms \<noteq> [] \<Longrightarrow> is_pkthdr (hd (set_pktlen ms f)) = is_pkthdr (hd ms)"
  "ms \<noteq> [] \<Longrightarrow> is_pkthdr (hd ms) \<Longrightarrow>
     ph_len (m_pkthdr (hd (set_pktlen ms f))) = f (ph_len (m_pkthdr (hd ms)))"
  by (cases ms; simp add: set_pktlen_def is_pkthdr_def)+

lemma m_adj_front:
  assumes "wf_chain st mp" "pkt_ok mp" "0 \<le> req_len"
  shows "chain_bytes st (m_adj mp req_len) = drop (nat req_len) (chain_bytes st mp)
    \<and> wf_chain st (m_adj mp req_len) \<and> pkt_ok (m_adj mp req_len)"
proof -
  obtain ns r where h: "m_adj_head mp (nat req_len) = (ns, r)"
    by (cases "m_adj_head mp (nat req_len)")
  have "mp \<noteq> []" using assms(2) by (simp add: pkt_ok_def)
  with m_adj_head_correct [OF assms(1) h] assms h show ?thesis
    by (auto simp: m_adj_def pkt_ok_def [of mp] is_pkthdr_def intro!: pkt_ok_set_pktlen)
qed

lemma m_adj_back:
  assumes "wf_chain st mp" "pkt_ok mp" "req_len < 0"
  shows "chain_bytes st (m_adj mp req_len)
      = take (chain_len mp - nat (- req_len)) (chain_bytes st mp)
    \<and> wf_chain st (m_adj mp req_len) \<and> pkt_ok (m_adj mp req_len)"
proof -
  have ne: "mp \<noteq> []" using assms(2) by (simp add: pkt_ok_def)
  define len where "len = nat (- req_len)"
  obtain ms m where mp: "mp = ms @ [m]" using ne by (metis append_butlast_last_id)
  show ?thesis
  proof (cases "len \<le> m_len m")
    case True
    let ?ns = "ms @ [m\<lparr>m_len := m_len m - len\<rparr>]"
    have adj: "m_adj mp req_len = set_pktlen ?ns (\<lambda>l. l - int len)"
      using assms True by (simp add: m_adj_def mp len_def)
    have "take (chain_len mp - len) (chain_bytes st mp) = chain_bytes st ms @ take (m_len m - len) (m_bytes st m)"
      using assms(1) True by (simp add: mp length_chain_bytes)
    moreover have "pkt_ok (set_pktlen ?ns (\<lambda>l. l - int len))"
      using assms(2) True by (cases ms) (auto simp: set_pktlen_def pkt_ok_def mp is_pkthdr_def of_nat_diff)
    ultimately show ?thesis
      using assms(1) adj by (simp add: mp mem_read_less flip: len_def)
  next
    case False
    let ?count = "chain_len mp - len"
    have adj: "m_adj mp req_len = m_adj_trunc (set_pktlen mp (\<lambda>_. int ?count)) ?count"
      using assms False by (simp add: m_adj_def mp len_def Let_def)
    note t = m_adj_trunc_correct [of st "set_pktlen mp (\<lambda>_. int ?count)" ?count]
    have "pkt_ok (m_adj mp req_len)"
      using t assms ne hd_set_pktlen [OF ne] unfolding adj by (auto simp: pkt_ok_def is_pkthdr_def)
    then show ?thesis using t assms(1) adj by (simp flip: len_def)
  qed
qed

subsection \<open>Freeing and writing leave other data alone\<close>

text \<open>
  The mbufs in use, of all chains together: each is well formed, and an external buffer counts
  at least the mbufs that point to it.
\<close>

definition refs :: "nat \<Rightarrow> mbuf list \<Rightarrow> nat" where
  "refs i ms = length (filter (\<lambda>m. is_ext m \<and> m_ext m = i) ms)"

definition chain_ok :: "mstore \<Rightarrow> mbuf list \<Rightarrow> bool" where
  "chain_ok st ms \<longleftrightarrow>
     wf_chain st ms \<and> list_all (\<lambda>m. is_ext m \<longrightarrow> refs (m_ext m) ms \<le> ext_ref st (m_ext m)) ms"

lemma refs_simps [simp]:
  "refs i [] = 0" "refs i (m # ms) = (if is_ext m \<and> m_ext m = i then 1 else 0) + refs i ms"
  "refs i (ms @ ns) = refs i ms + refs i ns"
  by (simp_all add: refs_def)

lemma chain_okI:
  "wf_chain st ms \<Longrightarrow> (\<And>m. m \<in> set ms \<Longrightarrow> is_ext m \<Longrightarrow> refs (m_ext m) ms \<le> ext_ref st (m_ext m)) \<Longrightarrow>
   chain_ok st ms"
  by (simp add: chain_ok_def list_all_iff)

lemma chain_okD:
  "chain_ok st ms \<Longrightarrow> wf_chain st ms"
  "chain_ok st ms \<Longrightarrow> m \<in> set ms \<Longrightarrow> is_ext m \<Longrightarrow> refs (m_ext m) ms \<le> ext_ref st (m_ext m)"
  by (simp_all add: chain_ok_def list_all_iff)

lemma refs_0: "refs i ms = 0 \<longleftrightarrow> (\<forall>m\<in>set ms. is_ext m \<longrightarrow> m_ext m \<noteq> i)"
  by (induction ms) auto

lemma m_bytes_cong:
  "(is_ext m \<Longrightarrow> ext_mem st' (m_ext m) = ext_mem st (m_ext m)) \<Longrightarrow> m_bytes st' m = m_bytes st m"
  by (simp add: m_bytes_def m_buf_def)

lemma chain_bytes_cong:
  "(\<And>m. m \<in> set ms \<Longrightarrow> is_ext m \<Longrightarrow> ext_mem st' (m_ext m) = ext_mem st (m_ext m)) \<Longrightarrow>
   chain_bytes st' ms = chain_bytes st ms"
  unfolding chain_bytes_def by (intro arg_cong [of _ _ concat] map_cong refl m_bytes_cong)

lemma wf_mbuf_cong:
  "wf_mbuf st m \<Longrightarrow> (is_ext m \<Longrightarrow> length (ext_mem st' (m_ext m)) = length (ext_mem st (m_ext m))
     \<and> 0 < ext_ref st' (m_ext m)) \<Longrightarrow> wf_mbuf st' m"
  by (auto simp: wf_mbuf_def m_buf_def)

text \<open>Releasing an mbuf that need not be wiped.\<close>

definition zeroize :: "mbuf \<Rightarrow> bool" where
  "zeroize m \<longleftrightarrow> has_flag (m_flags m) M_ZEROIZE"

lemma m_extfree_effect:
  "ext_mem (fst (m_extfree st m)) = ext_mem st"
  "ext_ref (fst (m_extfree st m)) = (ext_ref st)(m_ext m := ext_ref st (m_ext m) - 1)"
  "mb_avail (fst (m_extfree st m)) = mb_avail st"
  by (cases "MCLISREFERENCED st m";
      simp add: m_extfree_def m_extunref_def m_extfree_pool_def MCLISREFERENCED_def Let_def)+

lemma m_tag_delete_chain_effect:
  "is_ext (snd (m_tag_delete_chain st m)) = is_ext m" "m_ext (snd (m_tag_delete_chain st m)) = m_ext m"
  "ext_mem (fst (m_tag_delete_chain st m)) = ext_mem st" "ext_ref (fst (m_tag_delete_chain st m)) = ext_ref st"
  "mb_avail (fst (m_tag_delete_chain st m)) = mb_avail st"
  by (simp_all add: m_tag_delete_chain_def Let_def is_ext_def)

lemma count_mtype_effect:
  "ext_mem (count_mtype st t d) = ext_mem st" "ext_ref (count_mtype st t d) = ext_ref st"
  "mb_avail (count_mtype st t d) = mb_avail st"
  by (simp_all add: count_mtype_def)

lemmas free_effects = m_extfree_effect m_tag_delete_chain_effect count_mtype_effect

lemma m_free_plain:
  assumes "\<not> zeroize m"
  shows "snd (m_free st (m # ms)) = ms" "ext_mem (fst (m_free st (m # ms))) = ext_mem st"
    "ext_ref (fst (m_free st (m # ms)))
       = (if is_ext m then (ext_ref st)(m_ext m := ext_ref st (m_ext m) - 1) else ext_ref st)"
    "mb_avail (fst (m_free st (m # ms))) = mb_avail st + 1"
  using assms unfolding zeroize_def
  by (cases "is_pkthdr m"; cases "is_ext m"; simp add: m_free.simps Let_def split_beta free_effects)+

lemma chain_ok_free:
  assumes "chain_ok st (m # os)" "\<not> zeroize m"
  shows "chain_ok (fst (m_free st (m # ms))) os"
    "chain_bytes (fst (m_free st (m # ms))) os = chain_bytes st os"
proof -
  let ?st = "fst (m_free st (m # ms))"
  note f = m_free_plain [OF assms(2), of st ms]
  have r: "refs (m_ext k) os \<le> ext_ref ?st (m_ext k)" if "k \<in> set os" "is_ext k" for k
    using chain_okD(2) [OF assms(1), of k] that unfolding f by (auto split: if_splits)
  moreover have "0 < refs (m_ext k) os" if "k \<in> set os" "is_ext k" for k
    using refs_0 [of "m_ext k" os] that by auto
  ultimately have "0 < ext_ref ?st (m_ext k)" if "k \<in> set os" "is_ext k" for k
    using that by (meson order_less_le_trans)
  moreover have "wf_mbuf st k" if "k \<in> set os" for k
    using chain_okD(1) [OF assms(1)] that by (simp add: list_all_iff)
  ultimately have "wf_mbuf ?st k" if "k \<in> set os" for k
    using that by (intro wf_mbuf_cong [of st k ?st]) (simp_all only: f(2))
  with r show "chain_ok ?st os" by (intro chain_okI) (auto simp: list_all_iff)
  show "chain_bytes ?st os = chain_bytes st os" by (rule chain_bytes_cong) (simp add: f)
qed

text \<open>Writing into an mbuf whose buffer nobody shares.\<close>

lemma chain_ok_write:
  assumes "chain_ok st (m # os)" "\<not> M_READONLY st m" "mb_write st m off ys = (st', m')"
    "m_data m + off + length ys \<le> length (m_buf st m)"
  shows "chain_ok st' (m' # os)" "chain_bytes st' os = chain_bytes st os"
    "m_buf st' m' = mem_write (m_buf st m) (m_data m + off) ys"
    "m_data m' = m_data m" "m_len m' = m_len m" "m_flags m' = m_flags m" "m_ext m' = m_ext m"
    "m_pkthdr m' = m_pkthdr m" "ext_ref st' = ext_ref st"
proof -
  have alone: "m_ext k \<noteq> m_ext m" if "is_ext m" "k \<in> set os" "is_ext k" for k
  proof -
    have "ext_ref st (m_ext m) \<le> 1"
      using assms(2) that(1) by (auto simp: M_READONLY_def MCLISREFERENCED_def)
    then have "refs (m_ext m) os = 0" using chain_okD(2) [OF assms(1), of m] that(1) by auto
    then show ?thesis using refs_0 that by metis
  qed
  show s: "m_data m' = m_data m" "m_len m' = m_len m" "m_flags m' = m_flags m" "m_ext m' = m_ext m"
    "m_pkthdr m' = m_pkthdr m" "ext_ref st' = ext_ref st"
    using assms(3) by (auto simp: mb_write_def split: if_splits)
  have e: "is_ext m' = is_ext m" "is_pkthdr m' = is_pkthdr m" using s by (simp_all add: is_ext_def is_pkthdr_def)
  show b: "m_buf st' m' = mem_write (m_buf st m) (m_data m + off) ys"
    using assms(3) by (auto simp: mb_write_def m_buf_def is_ext_def split: if_splits)
  have mem: "ext_mem st' (m_ext k) = ext_mem st (m_ext k)" if "k \<in> set os" "is_ext k" for k
    using assms(3) alone that by (auto simp: mb_write_def split: if_splits)
  then show "chain_bytes st' os = chain_bytes st os" by (rule chain_bytes_cong)
  have "length (m_dat m') = length (m_dat m)"
    using assms(3,4) by (auto simp: mb_write_def m_buf_def split: if_splits)
  moreover have "length (m_buf st' m') = length (m_buf st m)" using assms(4) b by simp
  moreover have wf: "wf_mbuf st m" "wf_chain st os" using chain_okD(1) [OF assms(1)] by simp_all
  ultimately have m': "wf_mbuf st' m'" using s e by (simp add: wf_mbuf_def)
  have os: "wf_mbuf st' k" if "k \<in> set os" for k
  proof (rule wf_mbuf_cong)
    show k: "wf_mbuf st k" using wf(2) that by (simp add: list_all_iff)
    then show "is_ext k \<Longrightarrow> length (ext_mem st' (m_ext k)) = length (ext_mem st (m_ext k)) \<and> 0 < ext_ref st' (m_ext k)"
      using mem [OF that] s(6) by (simp add: wf_mbuf_def)
  qed
  have refs: "refs i (m' # os) = refs i (m # os)" for i using s e by simp
  show "chain_ok st' (m' # os)"
  proof (rule chain_okI)
    show "wf_chain st' (m' # os)" using m' os by (simp add: list_all_iff)
    fix k assume k: "k \<in> set (m' # os)" "is_ext k"
    have "refs (m_ext k) (m # os) \<le> ext_ref st (m_ext k)"
    proof (cases "k = m'")
      case True
      then show ?thesis using chain_okD(2) [OF assms(1), of m] e(1) s(4) k(2) by (simp only: list.set_intros)
    next
      case False
      then show ?thesis using chain_okD(2) [OF assms(1), of k] k by (simp only: set_ConsD list.set_intros) simp
    qed
    then show "refs (m_ext k) (m' # os) \<le> ext_ref st' (m_ext k)" by (simp only: refs s(6))
  qed
qed

lemma mem_read_write_same:
  "a + length ys \<le> length xs \<Longrightarrow> mem_read (mem_write xs a ys) a (length ys) = ys"
  by (simp add: mem_read_def mem_write_def)

lemma mem_read_write_append:
  "d + l + length ys \<le> length xs \<Longrightarrow>
   mem_read (mem_write xs (d + l) ys) d (l + length ys) = mem_read xs d l @ ys"
  by (simp add: mem_read_def mem_write_def take_add drop_take)

lemma chain_ok_swap: "chain_ok st (m # n # os) \<Longrightarrow> chain_ok st (n # m # os)"
  by (auto simp: chain_ok_def list_all_iff)

lemma chain_ok_grow:
  assumes "chain_ok st (m # os)" "m_data m + k \<le> length (m_buf st m)"
  shows "chain_ok st (m\<lparr>m_len := k\<rparr> # os)"
proof -
  have "is_ext (m\<lparr>m_len := k\<rparr>) = is_ext m" "m_ext (m\<lparr>m_len := k\<rparr>) = m_ext m" by (simp_all add: is_ext_def)
  moreover have "wf_mbuf st (m\<lparr>m_len := k\<rparr>)"
    using assms by (auto simp: chain_ok_def wf_mbuf_def m_buf_def is_ext_def is_pkthdr_def)
  ultimately show ?thesis using assms(1) by (simp add: chain_ok_def)
qed

text \<open>
  Appending the bytes of the next mbuf to one with room for them, and releasing it: the step of
  \<^verbatim>\<open>m_cat\<close> and, in part, of \<^verbatim>\<open>m_pullup\<close>.
\<close>

lemma append_bytes:
  assumes ok: "chain_ok st (m # os)" and ro: "\<not> M_READONLY st m"
    and w: "mb_write st m (m_len m) ys = (st', m')"
    and room: "m_data m + m_len m + length ys \<le> length (m_buf st m)"
  defines "k \<equiv> m_len m + length ys"
  shows "chain_ok st' (m'\<lparr>m_len := k\<rparr> # os)" "chain_bytes st' os = chain_bytes st os"
    "m_bytes st' (m'\<lparr>m_len := k\<rparr>) = m_bytes st m @ ys"
proof -
  note c = chain_ok_write [OF ok ro w room]
  have "length (m_buf st' m') = length (m_buf st m)" using c(3) room by simp
  then show "chain_ok st' (m'\<lparr>m_len := k\<rparr> # os)"
    using chain_ok_grow [OF c(1), of k] c(4) room by (simp add: k_def)
  show "chain_bytes st' os = chain_bytes st os" by (fact c(2))
  show "m_bytes st' (m'\<lparr>m_len := k\<rparr>) = m_bytes st m @ ys"
    using mem_read_write_append [OF room] c(3,4) by (simp add: k_def m_bytes_def [of st m])
qed

lemma trailing_room:
  assumes "wf_mbuf st m" "int n \<le> m_trailingspace st m" "\<not> M_READONLY st m"
  shows "m_data m + m_len m + n \<le> length (m_buf st m)"
  using assms by (auto simp: m_trailingspace_def m_buf_def wf_mbuf_def split: if_splits)

lemma m_cat_loop_correct:
  assumes "chain_ok st (m # ns @ os)" "\<forall>n\<in>set ns. \<not> zeroize n" "m_cat_loop st m ns = (st', ks)"
  shows "chain_bytes st' ks = m_bytes st m @ chain_bytes st ns \<and> chain_bytes st' os = chain_bytes st os
    \<and> chain_ok st' (ks @ os) \<and> length ks \<le> Suc (length ns)"
  using assms
proof (induction st m ns arbitrary: st' ks rule: m_cat_loop.induct)
  case (2 st m n ns)
  show ?case
  proof (cases "M_READONLY st m \<or> int (m_len n) > m_trailingspace st m")
    case True
    then show ?thesis using "2.prems" by auto
  next
    case False
    let ?ys = "m_bytes st n"
    obtain s1 m1 where w: "mb_write st m (m_len m) ?ys = (s1, m1)" by (cases "mb_write st m (m_len m) ?ys")
    let ?m = "m1\<lparr>m_len := m_len m + m_len n\<rparr>"
    let ?s2 = "fst (m_free s1 (n # ns))"
    have wf: "wf_mbuf st m" "wf_mbuf st n" using "2.prems"(1) by (simp_all add: chain_ok_def)
    have room: "m_data m + m_len m + length ?ys \<le> length (m_buf st m)"
      using trailing_room [OF wf(1), of "m_len n"] False wf(2) by simp
    have ok: "chain_ok st (m # n # ns @ os)" using "2.prems"(1) by simp
    note ap = append_bytes [OF ok _ w room]
    have a: "chain_ok s1 (?m # n # ns @ os)" "chain_bytes s1 (n # ns @ os) = chain_bytes st (n # ns @ os)"
      "m_bytes s1 ?m = m_bytes st m @ ?ys"
      using ap False wf(2) by simp_all
    have z: "\<not> zeroize n" using "2.prems"(2) by simp
    note fr = m_free_plain [OF z, of s1 ns]
    note f = chain_ok_free [OF chain_ok_swap [OF a(1)] z, of ns]
    have "m_bytes s1 n = m_bytes st n" "chain_bytes s1 ns = chain_bytes st ns" "chain_bytes s1 os = chain_bytes st os"
      using a(2) wf(2) chain_okD(1) [OF a(1)] chain_okD(1) [OF ok] by (auto simp: append_eq_append_conv length_chain_bytes)
    moreover have "m_cat_loop ?s2 ?m ns = (st', ks)"
      using "2.prems"(3) False w fr(1) by simp
    moreover have "m_bytes ?s2 ?m = m_bytes st m @ ?ys" "chain_bytes ?s2 (ns @ os) = chain_bytes s1 (ns @ os)"
      using f(2) a(3) m_bytes_cong [of ?m ?s2 s1] fr(2) chain_bytes_cong [of "ns @ os" ?s2 s1] by simp_all
    ultimately show ?thesis
      using "2.IH" [OF False w [symmetric] refl, where st' = st' and ks = ks] f(1) fr(1) "2.prems"(2)
        chain_bytes_cong [of ns ?s2 s1] chain_bytes_cong [of os ?s2 s1] fr(2)
      by simp
  qed
qed simp

lemma m_cat_correct:
  assumes "chain_ok st (ms @ ns @ os)" "ms \<noteq> []" "\<forall>n\<in>set ns. \<not> zeroize n" "m_cat st ms ns = (st', ks)"
  shows "chain_bytes st' ks = chain_bytes st ms @ chain_bytes st ns" "chain_bytes st' os = chain_bytes st os"
    "chain_ok st' (ks @ os)"
proof -
  obtain s1 t where l: "m_cat_loop st (last ms) ns = (s1, t)" by (cases "m_cat_loop st (last ms) ns")
  obtain ps m where ms: "ms = ps @ [m]" using assms(2) by (metis append_butlast_last_id)
  have r: "st' = s1" "ks = ps @ t" using assms(4) l by (simp_all add: m_cat_def ms)
  have "chain_ok st (m # ns @ ps @ os)" using assms(1) by (auto simp: ms chain_ok_def list_all_iff)
  note c = m_cat_loop_correct [OF this assms(3) l [unfolded ms, simplified]]
  then have wf: "wf_chain s1 (ps @ os)" "wf_chain st (ps @ os)"
    using chain_okD(1) [of s1 "t @ ps @ os"] chain_okD(1) [OF assms(1)] by (simp_all add: ms)
  then have "chain_bytes s1 ps = chain_bytes st ps \<and> chain_bytes s1 os = chain_bytes st os"
    using c length_chain_bytes [of s1 ps] length_chain_bytes [of st ps] by (simp add: append_eq_append_conv)
  then show "chain_bytes st' ks = chain_bytes st ms @ chain_bytes st ns" "chain_bytes st' os = chain_bytes st os"
    using c by (simp_all add: r ms)
  have "chain_ok s1 (t @ ps @ os)" using c by simp
  then show "chain_ok st' (ks @ os)" by (auto simp: r chain_ok_def list_all_iff)
qed

subsection \<open>New mbufs\<close>

text \<open>
  Recycled mbufs and clusters have the right size, nothing else is known of them, and the
  external buffers not handed out yet are not in use.
\<close>

definition store_ok :: "mstore \<Rightarrow> bool" where
  "store_ok st \<longleftrightarrow>
     length (m_dat (mb_junk st)) = MLEN
     \<and> (\<forall>pi < length mclsizes. length (cl_junk st (mclsizes ! pi)) = mclsizes ! pi)
     \<and> (\<forall>i \<ge> ext_next st. ext_ref st i = 0)"

lemma msize_facts: "MHLEN = 152" "MLEN = 224" "m_pktdat = 72"
  by (simp_all add: MHLEN_def MLEN_def MSIZE_def m_pktdat_def)

lemma flag_bits:
  "has_flag (w :: u16) M_EXT \<longleftrightarrow> bit w 0" "has_flag w M_PKTHDR \<longleftrightarrow> bit w 1"
  "has_flag w M_ZEROIZE \<longleftrightarrow> bit w 13" "has_flag w M_EXTWR \<longleftrightarrow> bit w 3"
  using has_flag_exp [of w 0] has_flag_exp [of w 1] has_flag_exp [of w 13] has_flag_exp [of w 3]
  by (simp_all add: M_EXT_def M_PKTHDR_def M_ZEROIZE_def M_EXTWR_def)

lemma flag_values:
  "bit M_EXT 0" "\<not> bit M_EXT (Suc 0)" "\<not> bit M_EXT 3" "\<not> bit M_EXT 13"
  "\<not> bit M_EXTWR 0" "\<not> bit M_EXTWR (Suc 0)" "bit M_EXTWR 3" "\<not> bit M_EXTWR 13"
  "\<not> bit M_PKTHDR 0" "bit M_PKTHDR (Suc 0)" "\<not> bit M_PKTHDR 3" "\<not> bit M_PKTHDR 13"
  "\<not> bit M_COPYFLAGS 0" "bit M_COPYFLAGS (Suc 0)" "\<not> bit M_COPYFLAGS 3" "bit M_COPYFLAGS 13"
  by code_simp+

lemmas flag_simps = is_ext_def is_pkthdr_def zeroize_def flag_bits flag_values
  bit_or_iff bit_and_iff bit_not_iff clr_flag_def set_flag_def

lemma m_get_Some:
  assumes "m_get st wait t = (Some m, st')"
  shows "m_data m = 0" "m_flags m = 0" "m_dat m = m_dat (mb_junk st)" "m_len m = m_len (mb_junk st)"
    "ext_mem st' = ext_mem st" "ext_ref st' = ext_ref st" "mb_junk st' = mb_junk st" "store_ok st' = store_ok st"
    "ext_next st' = ext_next st" "cl_junk st' = cl_junk st"
  using assms by (auto simp: m_get_def count_mtype_def Let_def store_ok_def split: if_splits)

lemma m_get_wait: "\<exists>m st'. m_get st True t = (Some m, st')"
  by (simp add: m_get_def Let_def)

lemma chain_ok_new:
  assumes "chain_ok st ms" "wf_mbuf st' m" "\<not> is_ext m" "ext_mem st' = ext_mem st" "ext_ref st' = ext_ref st"
  shows "chain_ok st' (m # ms)"
proof -
  have "wf_mbuf st' k = wf_mbuf st k" for k using assms(4,5) by (simp add: wf_mbuf_def m_buf_def)
  then have "wf_chain st' ms = wf_chain st ms" by (simp add: list_all_iff)
  then show ?thesis using assms by (simp add: chain_ok_def)
qed

text \<open>Replacing the first mbuf by one with the same buffer.\<close>

lemma chain_ok_replace:
  assumes "chain_ok st (m # ms)" "wf_mbuf st m'" "is_ext m' = is_ext m" "is_ext m \<Longrightarrow> m_ext m' = m_ext m"
  shows "chain_ok st (m' # ms)"
  using assms by (auto simp: chain_ok_def list_all_iff)

lemma m_move_pkthdr_facts:
  assumes "m_move_pkthdr to frm = (to', frm')" "is_pkthdr frm"
  shows "is_pkthdr to'" "is_ext to' = is_ext to" "m_data to' = (if is_ext to then m_data to else m_pktdat)"
    "m_pkthdr to' = m_pkthdr frm"
    "\<not> is_pkthdr frm'" "is_ext frm' = is_ext frm" "m_ext frm' = m_ext frm" "m_data frm' = m_data frm"
    "m_len frm' = m_len frm" "m_dat frm' = m_dat frm" "m_dat to' = m_dat to" "zeroize frm' = zeroize frm"
    "has_flag (m_flags frm') M_EXTWR = has_flag (m_flags frm) M_EXTWR"
    "m_len to' = m_len to" "m_ext to' = m_ext to" "has_flag (m_flags to') M_EXTWR = has_flag (m_flags to) M_EXTWR"
    "zeroize to' = zeroize frm"
  using assms by (cases "bit (m_flags to) 0"; auto simp: m_move_pkthdr_def Let_def flag_simps)+

lemma align_down_le: "align_down n \<le> n"
  by (simp add: align_down_def)

lemma m_prepend_new:
  assumes ok: "chain_ok st (m # rest @ os)" and st: "store_ok st" and len: "len \<le> MHLEN"
    and g: "m_get st how (m_type m) = (Some mn, st')"
    and mv: "(mn1, m1) = (if is_pkthdr m then m_move_pkthdr mn m else (mn, m))"
  defines "mn2 \<equiv> mn1\<lparr>m_data := m_data mn1 + align_down (MHLEN - len), m_len := len\<rparr>"
  shows "chain_ok st' (mn2 # m1 # rest @ os)" "m_bytes st' m1 = m_bytes st m"
    "is_pkthdr mn2 = is_pkthdr m" "is_pkthdr m \<Longrightarrow> m_pkthdr mn2 = m_pkthdr m" "m_len m1 = m_len m"
proof -
  note n = m_get_Some [OF g]
  have mn: "\<not> is_ext mn" "\<not> is_pkthdr mn" using n(2) by (simp_all add: is_ext_def is_pkthdr_def flag_bits)
  have wfm: "wf_mbuf st m" using ok by (simp add: chain_ok_def)
  have f: "\<not> is_ext mn1" "m_dat mn1 = m_dat mn" "is_pkthdr mn1 = is_pkthdr m" "is_pkthdr m \<longrightarrow> m_pkthdr mn1 = m_pkthdr m"
    "m_data mn1 = (if is_pkthdr m then m_pktdat else 0)" "is_ext m1 = is_ext m" "m_ext m1 = m_ext m"
    "m_data m1 = m_data m" "m_len m1 = m_len m" "m_dat m1 = m_dat m" "is_pkthdr m1 \<longrightarrow> is_pkthdr m"
    using m_move_pkthdr_facts [of mn m mn1 m1] mv mn n(1) by (auto split: if_splits)
  have wf1: "wf_mbuf st m1" using wfm f by (auto simp: wf_mbuf_def m_buf_def)
  then have "chain_ok st (m1 # rest @ os)" using chain_ok_replace [OF ok] f by simp
  moreover have "wf_mbuf st' mn2"
    using f n(3) st len align_down_le [of "MHLEN - len"]
    by (auto simp: mn2_def wf_mbuf_def m_buf_def is_ext_def is_pkthdr_def store_ok_def msize_facts)
  moreover have "\<not> is_ext mn2" using f(1) by (simp add: mn2_def is_ext_def)
  ultimately show "chain_ok st' (mn2 # m1 # rest @ os)" using chain_ok_new n(5,6) by blast
  show "m_bytes st' m1 = m_bytes st m" using f n(5) by (simp add: m_bytes_def m_buf_def)
  show "is_pkthdr mn2 = is_pkthdr m" "is_pkthdr m \<Longrightarrow> m_pkthdr mn2 = m_pkthdr m" "m_len m1 = m_len m"
    using f by (simp_all add: mn2_def is_pkthdr_def)
qed

lemma m_prepend_room:
  assumes wf: "wf_mbuf st m" and room: "int len \<le> m_leadingspace st m"
  defines "m' \<equiv> m\<lparr>m_data := m_data m - len, m_len := m_len m + len\<rparr>"
  shows "wf_mbuf st m'" "drop len (m_bytes st m') = m_bytes st m" "is_pkthdr m' = is_pkthdr m"
    "is_ext m' = is_ext m" "m_ext m' = m_ext m" "m_pkthdr m' = m_pkthdr m" "m_len m' = m_len m + len"
proof -
  have l: "len \<le> m_data m" "is_pkthdr m \<and> \<not> is_ext m \<longrightarrow> m_pktdat + len \<le> m_data m"
    using assms by (auto simp: m_leadingspace_def wf_mbuf_def split: if_splits)
  show f: "is_pkthdr m' = is_pkthdr m" "is_ext m' = is_ext m" "m_ext m' = m_ext m" "m_pkthdr m' = m_pkthdr m"
    "m_len m' = m_len m + len" by (simp_all add: m'_def is_pkthdr_def is_ext_def)
  have b: "m_buf st m' = m_buf st m" by (simp add: m'_def m_buf_def is_ext_def)
  show "wf_mbuf st m'" using wf l f b by (auto simp: wf_mbuf_def) (simp_all add: m'_def)
  show "drop len (m_bytes st m') = m_bytes st m"
    using l(1) unfolding m_bytes_def b by (simp add: m'_def mem_read_def drop_take)
qed

lemma pkt_ok_Cons_pktlen:
  "(is_pkthdr m \<Longrightarrow> f (ph_len (m_pkthdr m)) = int (chain_len (m # ms))) \<Longrightarrow> pkt_ok (set_pktlen (m # ms) f)"
  by (rule pkt_ok_set_pktlen) simp_all

lemma chain_ok_set_pktlen: "chain_ok st (set_pktlen ms f @ os) = chain_ok st (ms @ os)"
  by (cases ms) (auto simp: set_pktlen_def chain_ok_def is_ext_def)

lemma m_prepend_correct:
  assumes ok: "chain_ok st (ms @ os)" and pk: "pkt_ok ms" and st: "store_ok st" and len: "len \<le> MHLEN"
    and r: "m_prepend st ms len how = Inr (st', Some ks)"
  shows "drop len (chain_bytes st' ks) = chain_bytes st ms" "chain_ok st' (ks @ os)" "pkt_ok ks"
    "len \<le> m_len (hd ks)" "chain_len ks = len + chain_len ms" "chain_bytes st' os = chain_bytes st os"
proof -
  obtain m rest where ms: "ms = m # rest" using pk by (cases ms) (auto simp: pkt_ok_def)
  have "drop len (chain_bytes st' ks) = chain_bytes st ms \<and> chain_ok st' (ks @ os) \<and> pkt_ok ks
    \<and> len \<le> m_len (hd ks) \<and> chain_len ks = len + chain_len ms \<and> chain_bytes st' os = chain_bytes st os"
  proof (cases "int len \<le> m_leadingspace st m")
    case True
    have wf: "wf_mbuf st m" using ok by (simp add: ms chain_ok_def)
    let ?m = "m\<lparr>m_data := m_data m - len, m_len := m_len m + len\<rparr>"
    note p = m_prepend_room [OF wf True]
    have k: "st' = st" "ks = set_pktlen (?m # rest) (\<lambda>l. l + int len)"
      using r True len by (auto simp: m_prepend_def ms)
    have b: "drop len (m_bytes st ?m @ chain_bytes st rest) = m_bytes st m @ chain_bytes st rest"
      using p(2) length_m_bytes [OF p(1)] by simp
    have "pkt_ok ks" unfolding k using pk p by (intro pkt_ok_Cons_pktlen) (simp add: pkt_ok_def ms)
    moreover have "chain_ok st (?m # rest @ os)" using chain_ok_replace [OF _ p(1)] p ok by (simp add: ms)
    moreover have "m_len (hd ks) = m_len m + len" by (simp add: k set_pktlen_def)
    ultimately show ?thesis using b by (simp add: k ms chain_ok_set_pktlen)
  next
    case False
    obtain mn where g: "m_get st how (m_type m) = (Some mn, st')"
      using r False len by (auto simp: m_prepend_def ms split: prod.splits option.splits if_splits)
    obtain mn1 m1 where mv: "(mn1, m1) = (if is_pkthdr m then m_move_pkthdr mn m else (mn, m))"
      by (cases "if is_pkthdr m then m_move_pkthdr mn m else (mn, m)") auto
    let ?mn = "mn1\<lparr>m_data := m_data mn1 + align_down (MHLEN - len), m_len := len\<rparr>"
    have k: "ks = set_pktlen (?mn # m1 # rest) (\<lambda>l. l + int len)"
      using r False len g mv [symmetric] by (simp add: m_prepend_def ms Let_def)
    note p = m_prepend_new [OF ok [unfolded ms, simplified] st len g mv]
    have wf: "wf_mbuf st' ?mn" using p(1) by (simp add: chain_ok_def)
    have e: "chain_bytes st' cs = chain_bytes st cs" for cs
      using m_get_Some(5) [OF g] by (intro chain_bytes_cong) simp
    have "pkt_ok ks" unfolding k using pk p by (intro pkt_ok_Cons_pktlen) (simp add: pkt_ok_def ms)
    moreover have "m_len (hd ks) = len" by (simp add: k set_pktlen_def)
    ultimately show ?thesis
      using p e [of rest] e [of os] length_m_bytes [OF wf] by (simp add: k ms chain_ok_set_pktlen)
  qed
  then show "drop len (chain_bytes st' ks) = chain_bytes st ms" "chain_ok st' (ks @ os)" "pkt_ok ks"
    "len \<le> m_len (hd ks)" "chain_len ks = len + chain_len ms" "chain_bytes st' os = chain_bytes st os" by auto
qed

lemma m_prepend_result:
  "ms \<noteq> [] \<Longrightarrow> (\<exists>e. m_prepend st ms len how = Inl e) \<longleftrightarrow> MHLEN < len"
  "ms \<noteq> [] \<Longrightarrow> len \<le> MHLEN \<Longrightarrow> \<exists>st' ks. m_prepend st ms len True = Inr (st', Some ks)"
  by (cases ms; auto simp: m_prepend_def m_get_def Let_def split: prod.splits option.splits if_splits)+

end
