(* ===== verification/Mbuf_Copy.thy ===== *)
theory Mbuf_Copy
  imports Mbuf_Chain
begin

text \<open>
  The routines of \<^verbatim>\<open>kern/uipc_mbuf.c\<close> that build new chains out of old ones:
  \<^verbatim>\<open>m_pullup\<close>, \<^verbatim>\<open>m_split\<close>, \<^verbatim>\<open>m_copym0\<close>,
  \<^verbatim>\<open>m_copyback\<close> and \<^verbatim>\<open>m_inject\<close>.  Here the empty list is the
  \<^verbatim>\<open>NULL\<close> chain.  The kernel is taken as built without the option
  \<^verbatim>\<open>DIAGNOSTIC\<close>.
\<close>

subsection \<open>Making the front contiguous\<close>

text \<open>
  The loop of \<^verbatim>\<open>m_pullup\<close>: move bytes from the chain to the end of \<open>m\<close>.  The result
  is the store, \<open>m\<close>, what is left of the chain and the number of bytes still missing.
\<close>

function m_pullup_loop :: "mstore \<Rightarrow> mbuf \<Rightarrow> mbuf list \<Rightarrow> nat \<Rightarrow> mstore \<times> mbuf \<times> mbuf list \<times> nat" where
  "m_pullup_loop st m [] len = (st, m, [], len)"
| "m_pullup_loop st m (n # ns) len =
     (let count = min len (m_len n);
          (st1, m1) = mb_write st m (m_len m) (mem_read (m_buf st n) (m_data n) count);
          m2 = m1\<lparr>m_len := m_len m + count\<rparr>;
          n1 = n\<lparr>m_len := m_len n - count\<rparr>
      in if m_len n - count \<noteq> 0 then
           (st1, m2, n1\<lparr>m_data := m_data n + count\<rparr> # ns, len - count)
         else if len - count > 0 then
           m_pullup_loop (fst (m_free st1 (n1 # ns))) m2 (snd (m_free st1 (n1 # ns))) (len - count)
         else (fst (m_free st1 (n1 # ns)), m2, snd (m_free st1 (n1 # ns)), 0))"
  by pat_completeness auto
termination
  by (relation "measure (\<lambda>(st, m, ns, len). length ns)") (auto simp: length_m_free)

declare m_pullup_loop.simps [simp del]

text \<open>The choice of the mbuf that receives the bytes: the first one, or a new one.\<close>

definition m_pullup_new :: "mstore \<Rightarrow> mbuf \<Rightarrow> nat \<Rightarrow> string + (mstore \<times> (mbuf \<times> mbuf) option)" where
  "m_pullup_new st n len =
     (if len > MAXMCLBYTES then Inr (st, None)
      else case m_get st False (m_type n) of
             (None, st) \<Rightarrow> Inr (st, None)
           | (Some m, st) \<Rightarrow>
               (case (if len > MHLEN then mclgeti st m False len else Inr (st, m)) of
                  Inl e \<Rightarrow> Inl e
                | Inr (st, m) \<Rightarrow>
                    if len > MHLEN \<and> \<not> is_ext m then Inr (fst (m_free st [m]), None)
                    else
                      let m = m\<lparr>m_len := 0\<rparr>
                      in Inr (st, Some (if is_pkthdr n then m_move_pkthdr m n else (m, n)))))"

definition m_pullup :: "mstore \<Rightarrow> mbuf list \<Rightarrow> nat \<Rightarrow> string + (mstore \<times> mbuf list)" where
  "m_pullup st ns len =
     (let n = hd ns; ns' = tl ns;
          finish = (\<lambda>(st, m, ns, len).
            if len > 0 then Inr (m_freem (fst (m_free st [m])) ns, []) else Inr (st, m # ns))
      in if \<not> is_ext n \<and> ns' \<noteq> [] \<and> m_data n + len < MLEN
           \<or> is_ext n \<and> len > MHLEN \<and> ns' \<noteq> [] \<and> m_data n + len < length (ext_mem st (m_ext n))
         then if m_len n \<ge> len then Inr (st, ns)
              else finish (m_pullup_loop st n ns' (len - m_len n))
         else case m_pullup_new st n len of
                Inl e \<Rightarrow> Inl e
              | Inr (st, None) \<Rightarrow> Inr (m_freem st ns, [])
              | Inr (st, Some (m, n)) \<Rightarrow> finish (m_pullup_loop st m (n # ns') len))"

subsection \<open>Splitting\<close>

text \<open>The mbuf in which byte \<open>len\<close> ends, with the chain before and after it.\<close>

fun m_seek :: "mbuf list \<Rightarrow> nat \<Rightarrow> (mbuf list \<times> mbuf \<times> mbuf list \<times> nat) option" where
  "m_seek [] len = None"
| "m_seek (m # ms) len =
     (if len > m_len m then
        map_option (\<lambda>(pre, r). (m # pre, r)) (m_seek ms (len - m_len m))
      else Some ([], m, ms, len))"

text \<open>The end of \<^verbatim>\<open>m_split\<close>, from \<^verbatim>\<open>extpacket\<close>: \<open>n\<close> takes the rest of \<open>m\<close>.\<close>

definition m_split_at :: "mstore \<Rightarrow> mbuf list \<Rightarrow> mbuf \<Rightarrow> mbuf list \<Rightarrow> nat \<Rightarrow> mbuf
    \<Rightarrow> mstore \<times> mbuf list \<times> mbuf list" where
  "m_split_at st pre m post len n =
     (let remain = m_len m - len;
          (st, n) =
            (if is_ext m then
               (let (st, n) = m_extref st m (n\<lparr>m_ext := m_ext m\<rparr>)
                in (st, n\<lparr>m_data := m_data m + len\<rparr>))
             else mb_write st n 0 (mem_read (m_buf st m) (m_data m + len) remain))
      in (st, pre @ [m\<lparr>m_len := len\<rparr>], n\<lparr>m_len := remain\<rparr> # post))"

definition adv_data :: "mbuf \<Rightarrow> nat \<Rightarrow> mbuf" where
  "adv_data n k = n\<lparr>m_data := m_data n + k\<rparr>"

partial_function (option) m_split :: "mstore \<Rightarrow> mbuf list \<Rightarrow> nat \<Rightarrow> bool
    \<Rightarrow> (string + (mstore \<times> mbuf list \<times> mbuf list)) option" where
  "m_split st ms len0 wait =
     (case m_seek ms len0 of
        None \<Rightarrow> Some (Inr (st, ms, []))
      | Some (pre, m, post, len) \<Rightarrow>
          if is_pkthdr (hd ms) then
            (case m_gethdr st wait (m_type (hd ms)) of
               (None, st) \<Rightarrow> Some (Inr (st, ms, []))
             | (Some n, st) \<Rightarrow>
                 (case m_dup_pkthdr st n (hd ms) wait of
                    Inl e \<Rightarrow> Some (Inl e)
                  | Inr (ok, st, n) \<Rightarrow>
                      if \<not> ok then Some (Inr (m_freem st [n], ms, []))
                      else
                      let n = hd (set_pktlen [n] (\<lambda>l. l - int len0));
                          olen = ph_len (m_pkthdr (hd ms));
                          hs = set_pktlen (pre @ [m]) (\<lambda>_. int len0);
                          pre = butlast hs; m = last hs
                      in if is_ext m then Some (Inr (m_split_at st pre m post len n))
                         else if m_len m - len > MHLEN then
                           Option.bind (m_split st (m # post) len wait)
                             (\<lambda>r. case r of
                                Inl e \<Rightarrow> Some (Inl e)
                              | Inr (st, hs, ts) \<Rightarrow>
                                  if ts = [] then
                                    Some (Inr (fst (m_free st [adv_data n (align_down MHLEN)]),
                                               set_pktlen (pre @ hs) (\<lambda>_. olen), []))
                                  else Some (Inr (st, pre @ hs, adv_data n (align_down MHLEN) # ts)))
                         else Some (Inr (m_split_at st pre m post len
                                 (adv_data n (align_down (MHLEN - (m_len m - len))))))))
          else if m_len m - len = 0 then Some (Inr (st, pre @ [m], post))
          else
            (case m_get st wait (m_type m) of
               (None, st) \<Rightarrow> Some (Inr (st, ms, []))
             | (Some n, st) \<Rightarrow>
                 Some (Inr (m_split_at st pre m post len
                   (adv_data n (align_down (MLEN - (m_len m - len))))))))"

subsection \<open>Copying\<close>

text \<open>One step of \<^verbatim>\<open>m_copym0\<close>: \<open>n\<close> gets a piece of \<open>m\<close>, shared or copied.\<close>

definition copym_piece :: "mstore \<Rightarrow> mbuf \<Rightarrow> mbuf \<Rightarrow> nat \<Rightarrow> nat \<Rightarrow> bool \<Rightarrow> bool \<Rightarrow> string + (mstore \<times> mbuf)" where
  "copym_piece st m n off len wait deep =
     (let k = min len (m_len m - off); n = n\<lparr>m_len := k\<rparr>
      in if is_ext m then
           if \<not> deep then
             Inr (m_extref st m (n\<lparr>m_data := m_data m + off, m_ext := m_ext m\<rparr>))
           else
             (case mclgeti st n wait MCLBYTES of
                Inl e \<Rightarrow> Inl e
              | Inr (st, n) \<Rightarrow>
                  let room = nat (m_trailingspace st (n\<lparr>m_len := 0\<rparr>));
                      k = min (min room len) (m_len m - off);
                      (st, n) = mb_write st (n\<lparr>m_len := k\<rparr>) 0 (mem_read (m_buf st m) (m_data m + off) k)
                  in Inr (st, n))
         else
           let (st, n) = mb_write st n 0 (mem_read (m_buf st m) (m_data m + off) k)
           in Inr (st, n))"

definition copym_hdr :: "mstore \<Rightarrow> mbuf \<Rightarrow> mbuf \<Rightarrow> int \<Rightarrow> bool \<Rightarrow> bool \<Rightarrow> string + (bool \<times> mstore \<times> mbuf)" where
  "copym_hdr st n m0 len wait copyhdr =
     (if \<not> copyhdr then Inr (True, st, n)
      else case m_dup_pkthdr st n m0 wait of
             Inl e \<Rightarrow> Inl e
           | Inr (ok, st, n) \<Rightarrow>
               Inr (ok, st, if ok \<and> len \<noteq> M_COPYALL then hd (set_pktlen [n] (\<lambda>_. len)) else n))"

partial_function (option) m_copym0_loop :: "mstore \<Rightarrow> mbuf \<Rightarrow> mbuf list \<Rightarrow> nat \<Rightarrow> int \<Rightarrow> bool \<Rightarrow> bool \<Rightarrow> bool
    \<Rightarrow> mbuf list \<Rightarrow> (string + (mstore \<times> mbuf list)) option" where
  "m_copym0_loop st m0 ms off len wait deep copyhdr acc =
     (if len \<le> 0 then Some (Inr (st, acc))
      else case ms of
        [] \<Rightarrow> Some (if len \<noteq> M_COPYALL then Inl ''m_copym0: m == NULL and not COPYALL'' else Inr (st, acc))
      | m # rest \<Rightarrow>
          (case m_get st wait (m_type m) of
             (None, st) \<Rightarrow> Some (Inr (m_freem st acc, []))
           | (Some n, st) \<Rightarrow>
               (case copym_hdr st n m0 len wait copyhdr of
                  Inl e \<Rightarrow> Some (Inl e)
                | Inr (ok, st, n) \<Rightarrow>
                    if \<not> ok then Some (Inr (m_freem st (acc @ [n]), []))
                    else
                      case copym_piece st m n off (nat len) wait deep of
                        Inl e \<Rightarrow> Some (Inl e)
                      | Inr (st, n) \<Rightarrow>
                          let len = (if len \<noteq> M_COPYALL then len - int (m_len n) else len);
                              off = off + m_len n
                          in if off = m_len m
                             then m_copym0_loop st m0 rest 0 len wait deep False (acc @ [n])
                             else m_copym0_loop st m0 (m # rest) off len wait deep False (acc @ [n]))))"

definition m_copym0 :: "mstore \<Rightarrow> mbuf list \<Rightarrow> int \<Rightarrow> int \<Rightarrow> bool \<Rightarrow> bool
    \<Rightarrow> (string + (mstore \<times> mbuf list)) option" where
  "m_copym0 st m0 off len wait deep =
     (if off < 0 \<or> len < 0 then Some (Inl ''m_copym0: off, len'')
      else case m_getptr m0 off of
             None \<Rightarrow> Some (Inl ''m_copym0: short mbuf chain'')
           | Some (ms, off') \<Rightarrow>
               m_copym0_loop st (hd m0) ms off' len wait deep (off = 0 \<and> is_pkthdr (hd m0)) [])"

definition m_copym :: "mstore \<Rightarrow> mbuf list \<Rightarrow> int \<Rightarrow> int \<Rightarrow> bool \<Rightarrow> (string + (mstore \<times> mbuf list)) option" where
  "m_copym st m off len wait = m_copym0 st m off len wait False"

definition m_copym2 :: "mstore \<Rightarrow> mbuf list \<Rightarrow> int \<Rightarrow> int \<Rightarrow> bool \<Rightarrow> (string + (mstore \<times> mbuf list)) option" where
  "m_copym2 st m off len wait = m_copym0 st m off len wait True"

subsection \<open>Writing back and making room\<close>

text \<open>A new mbuf at the end of the chain that can hold \<open>sz\<close> bytes, for \<^verbatim>\<open>m_copyback\<close>.\<close>

definition copyback_new :: "mstore \<Rightarrow> mbuf \<Rightarrow> nat \<Rightarrow> bool \<Rightarrow> string + (mstore \<times> mbuf option)" where
  "copyback_new st m sz wait =
     (case m_get st wait (m_type m) of
        (None, st) \<Rightarrow> Inr (st, None)
      | (Some n, st) \<Rightarrow>
          if sz > MLEN then
            (case mclgeti st n wait sz of
               Inl e \<Rightarrow> Inl e
             | Inr (st, n) \<Rightarrow> if is_ext n then Inr (st, Some n) else Inr (fst (m_free st [n]), None))
          else Inr (st, Some n))"

text \<open>
  The two loops.  Both give the store, the chain from the current mbuf on, \<^verbatim>\<open>totlen\<close>,
  and whether the routine goes on; \<open>None\<close> in the last place is \<^verbatim>\<open>ENOBUFS\<close>, \<open>Some\<close> carries
  the mbufs passed, the chain from the current one and the offset in it.
\<close>

fun copyback_skip :: "mstore \<Rightarrow> mbuf list \<Rightarrow> nat \<Rightarrow> nat \<Rightarrow> bool \<Rightarrow> nat
    \<Rightarrow> string + (mstore \<times> mbuf list \<times> mbuf list \<times> nat \<times> nat \<times> bool)" where
  "copyback_skip st [] off len wait totlen = Inr (st, [], [], off, totlen, True)"
| "copyback_skip st (m # ms) off len wait totlen =
     (if off > m_len m then
        let off = off - m_len m; totlen = totlen + m_len m
        in if ms = [] then
             (case copyback_new st m (off + len) wait of
                Inl e \<Rightarrow> Inl e
              | Inr (st, None) \<Rightarrow> Inr (st, [], [m], off, totlen, False)
              | Inr (st, Some n) \<Rightarrow>
                  let (st, n) = mb_write st n 0 (replicate off 0)
                  in Inr (st, [m], [n\<lparr>m_len := len + off\<rparr>], off, totlen, True))
           else
             (case copyback_skip st ms off len wait totlen of
                Inl e \<Rightarrow> Inl e
              | Inr (st, ps, r) \<Rightarrow> Inr (st, m # ps, r))
      else Inr (st, [], m # ms, off, totlen, True))"

text \<open>One turn of the writing loop; \<open>lst\<close> tells that \<open>m\<close> is the last mbuf.\<close>

definition copyback_step :: "mstore \<Rightarrow> mbuf \<Rightarrow> bool \<Rightarrow> nat \<Rightarrow> u8 list \<Rightarrow> mstore \<times> mbuf \<times> u8 list \<times> nat" where
  "copyback_step st m lst off cp =
     (let m1 = (if lst \<and> length cp > m_len m - off
                then m\<lparr>m_len := m_len m + min (length cp - (m_len m - off)) (nat (m_trailingspace st m))\<rparr>
                else m);
          mlen = min (m_len m1 - off) (length cp);
          (st1, m2) = mb_write st m1 off (take mlen cp)
      in (st1, m2, drop mlen cp, mlen + off))"

text \<open>
  The writing loop; \<open>fuel\<close> bounds its iterations by the length of the chain and one new
  mbuf, after which nothing is left to write.
\<close>

fun copyback_loop :: "nat \<Rightarrow> mstore \<Rightarrow> mbuf list \<Rightarrow> nat \<Rightarrow> u8 list \<Rightarrow> bool \<Rightarrow> nat
    \<Rightarrow> string + (mstore \<times> mbuf list \<times> nat \<times> bool)" where
  "copyback_loop 0 st ms off cp wait totlen = Inr (st, ms, totlen, False)"
| "copyback_loop (Suc fuel) st [] off cp wait totlen = Inr (st, [], totlen, True)"
| "copyback_loop (Suc fuel) st (m # ms) off cp wait totlen =
     (if cp = [] then Inr (st, m # ms, totlen, True)
      else
        case copyback_step st m (ms = []) off cp of
          (st1, m1, cp1, d) \<Rightarrow>
            if cp1 = [] then Inr (st1, m1 # ms, totlen + d, True)
            else if ms = [] then
              (case copyback_new st1 m1 (length cp1) wait of
                 Inl e \<Rightarrow> Inl e
               | Inr (st2, None) \<Rightarrow> Inr (st2, [m1], totlen + d, False)
               | Inr (st2, Some n) \<Rightarrow>
                   map_sum id (map_prod id (map_prod ((#) m1) id))
                     (copyback_loop fuel st2 [n\<lparr>m_len := length cp1\<rparr>] 0 cp1 wait (totlen + d)))
            else map_sum id (map_prod id (map_prod ((#) m1) id))
                   (copyback_loop fuel st1 ms 0 cp1 wait (totlen + d)))"

definition m_copyback :: "mstore \<Rightarrow> mbuf list \<Rightarrow> nat \<Rightarrow> u8 list \<Rightarrow> bool
    \<Rightarrow> string + (mstore \<times> mbuf list \<times> bool)" where
  "m_copyback st m0 off cp wait =
     (if m0 = [] then Inr (st, [], True)
      else
        let fix_len = (\<lambda>ms totlen. set_pktlen ms (\<lambda>l. if l < int totlen then int totlen else l))
        in case copyback_skip st m0 off (length cp) wait 0 of
             Inl e \<Rightarrow> Inl e
           | Inr (st, ps, ms, off, totlen, ok) \<Rightarrow>
               if \<not> ok then Inr (st, fix_len (ps @ ms) totlen, False)
               else
                 case copyback_loop (length ms + 1) st ms off cp wait totlen of
                   Inl e \<Rightarrow> Inl e
                 | Inr (st, ms, totlen, ok) \<Rightarrow> Inr (st, fix_len (ps @ ms) totlen, ok))"

text \<open>
  \<^verbatim>\<open>m_inject\<close> makes room for \<open>siz\<close> bytes after the first \<open>len0\<close>: the mbufs before the
  room and the chain from it.
\<close>

definition m_inject :: "mstore \<Rightarrow> mbuf list \<Rightarrow> nat \<Rightarrow> nat \<Rightarrow> bool
    \<Rightarrow> (string + (mstore \<times> mbuf list \<times> mbuf list)) option" where
  "m_inject st m0 len0 siz wait =
     (if siz \<ge> MHLEN \<or> len0 = 0 then Some (Inr (st, m0, []))
      else case m_seek m0 len0 of
        None \<Rightarrow> Some (Inr (st, m0, []))
      | Some (pre, m, post, len) \<Rightarrow>
          let remain = m_len m - len
          in if remain = 0 \<and> post \<noteq> [] \<and> m_leadingspace st (hd post) \<ge> int siz then
               let nx = (hd post)\<lparr>m_len := m_len (hd post) + siz, m_data := m_data (hd post) - siz\<rparr>
               in Some (Inr (st, set_pktlen (pre @ [m]) (\<lambda>l. l + int siz), nx # tl post))
             else
               Option.bind (if remain = 0 then Some (Inr (st, []))
                            else m_copym2 st (m # post) (int len) (int remain) wait)
                 (\<lambda>r. case r of
                    Inl e \<Rightarrow> Some (Inl e)
                  | Inr (st, n2) \<Rightarrow>
                      if remain \<noteq> 0 \<and> n2 = [] then Some (Inr (st, m0, []))
                      else
                        case m_get st wait MT_DATA of
                          (None, st) \<Rightarrow> Some (Inr (m_freem st n2, m0, []))
                        | (Some n, st) \<Rightarrow>
                            Some (Inr (st, set_pktlen (pre @ [m\<lparr>m_len := len\<rparr>]) (\<lambda>l. l + int siz),
                                       n\<lparr>m_len := siz\<rparr> # n2 @ post))))"

declare m_split.simps [code] m_copym0_loop.simps [code]

subsection \<open>Clusters\<close>

lemma m_clpool_Some:
  assumes "m_clpool len = Some pi"
  shows "pi < length mclsizes" "len \<le> mclsizes ! pi"
proof -
  from assms obtain k where "k < length mclsizes" "pi = [0..<length mclsizes] ! k"
    "len \<le> mclsizes ! ([0..<length mclsizes] ! k)"
    unfolding m_clpool_def find_Some_iff by auto
  then show "pi < length mclsizes" "len \<le> mclsizes ! pi" by simp_all
qed

lemma m_clpool_None: "m_clpool len = None \<longleftrightarrow> MAXMCLBYTES < len"
  by (auto simp: m_clpool_def find_None_iff mclsizes_def MAXMCLBYTES_def MCLBYTES_def nth_Cons' not_le)

lemma mclgeti_eq:
  "mclgeti st m how len =
     (case m_clpool len of None \<Rightarrow> Inl ''m_clget: request for too large a cluster''
      | Some pi \<Rightarrow> Inr (if cl_avail st pi = 0 \<and> \<not> how then (st, m)
          else mextadd (st\<lparr>cl_avail := (cl_avail st)(pi := cl_avail st pi - 1)\<rparr>) m pi))"
  by (simp add: mclgeti_def m_clget_def Let_def split: option.split prod.split)

text \<open>A cluster attached to a new mbuf is a fresh buffer of enough bytes that nobody shares.\<close>

lemma mclgeti_new:
  assumes g: "mclgeti st m how len = Inr (st', m')" and ext: "is_ext m'" "\<not> is_ext m"
    and st: "store_ok st" and dat: "length (m_dat m) = MLEN" and ok: "chain_ok st os"
  shows "chain_ok st' (m'\<lparr>m_len := 0\<rparr> # os)" "chain_bytes st' os = chain_bytes st os" "store_ok st'"
    "m_data m' = 0" "len \<le> length (m_buf st' m')" "\<not> M_READONLY st' m'"
    "zeroize m' = zeroize m" "is_pkthdr m' = is_pkthdr m"
proof -
  obtain pi where pi: "m_clpool len = Some pi"
    using g by (cases "m_clpool len") (auto simp: mclgeti_def m_clget_def)
  note p = m_clpool_Some [OF pi]
  let ?i = "ext_next st"
  have e: "(st', m') = mextadd (st\<lparr>cl_avail := (cl_avail st)(pi := cl_avail st pi - 1)\<rparr>) m pi"
    using g pi ext by (auto simp: mclgeti_eq split: if_splits)
  have f: "ext_mem st' = (ext_mem st)(?i := cl_junk st (mclsizes ! pi))" "ext_ref st' = (ext_ref st)(?i := 1)"
    "ext_next st' = ?i + 1" "cl_junk st' = cl_junk st" "mb_junk st' = mb_junk st"
    "m_ext m' = ?i" "m_dat m' = m_dat m" "m_flags m' = set_flag (m_flags m) (M_EXT OR M_EXTWR)"
    using e by (simp_all add: mextadd_def Let_def)
  show d: "m_data m' = 0" using e by (simp add: mextadd_def Let_def)
  show "store_ok st'" using st by (auto simp: store_ok_def f)
  have fresh: "m_ext k \<noteq> ?i" if "k \<in> set os" "is_ext k" for k
    using ok st that by (auto simp: chain_ok_def list_all_iff wf_mbuf_def store_ok_def)
  have wf: "wf_mbuf st k" if "k \<in> set os" for k using ok that by (simp add: chain_ok_def list_all_iff)
  have "wf_mbuf st' k" if "k \<in> set os" for k
  proof (rule wf_mbuf_cong [OF wf [OF that]])
    assume "is_ext k"
    then show "length (ext_mem st' (m_ext k)) = length (ext_mem st (m_ext k)) \<and> 0 < ext_ref st' (m_ext k)"
      using fresh [OF that] wf [OF that] by (simp add: f wf_mbuf_def)
  qed
  moreover have "refs ?i os = 0" using fresh by (auto simp: refs_0)
  moreover have "wf_mbuf st' (m'\<lparr>m_len := 0\<rparr>)"
    using dat ext(1) d by (simp add: wf_mbuf_def m_buf_def is_ext_def f)
  moreover have "is_ext (m'\<lparr>m_len := 0\<rparr>)" using ext(1) by (simp add: is_ext_def)
  moreover have "refs (m_ext k) os \<le> ext_ref st (m_ext k)" if "k \<in> set os" "is_ext k" for k
    using ok that by (simp add: chain_ok_def list_all_iff)
  ultimately show "chain_ok st' (m'\<lparr>m_len := 0\<rparr> # os)"
    using fresh by (auto simp: chain_ok_def list_all_iff f(2,6) dest: fresh)
  show "chain_bytes st' os = chain_bytes st os" using fresh by (intro chain_bytes_cong) (simp add: f)
  show "len \<le> length (m_buf st' m')" using ext p st by (simp add: m_buf_def f store_ok_def)
  show "\<not> M_READONLY st' m'" by (simp add: M_READONLY_def MCLISREFERENCED_def f flag_simps)
  show "zeroize m' = zeroize m" "is_pkthdr m' = is_pkthdr m" by (simp_all add: f flag_simps)
qed

lemma mclgeti_none:
  "mclgeti st m how len = Inr (st', m') \<Longrightarrow> \<not> is_ext m' \<Longrightarrow> m' = m \<and> st' = st"
  by (auto simp: mclgeti_eq mextadd_def Let_def flag_simps split: option.splits if_splits)

subsection \<open>Pullup\<close>

lemma M_READONLY_mono:
  "\<not> M_READONLY st m \<Longrightarrow> m_flags m' = m_flags m \<Longrightarrow> m_ext m' = m_ext m \<Longrightarrow>
   (\<And>i. ext_ref st' i \<le> ext_ref st i) \<Longrightarrow> \<not> M_READONLY st' m'"
  by (auto simp: M_READONLY_def MCLISREFERENCED_def is_ext_def) (metis not_less order_trans)

lemma ext_ref_free: "\<not> zeroize n \<Longrightarrow> ext_ref (fst (m_free st (n # ns))) i \<le> ext_ref st i"
  by (simp add: m_free_plain(3))

text \<open>The step the loop takes for one mbuf of the chain.\<close>

lemma pullup_step:
  assumes ok: "chain_ok st (m # n # os)" and ro: "\<not> M_READONLY st m" and c: "count \<le> m_len n"
    and room: "m_data m + m_len m + count \<le> length (m_buf st m)"
    and w: "mb_write st m (m_len m) (mem_read (m_buf st n) (m_data n) count) = (st1, m1)"
  defines "m2 \<equiv> m1\<lparr>m_len := m_len m + count\<rparr>"
  shows "chain_ok st1 (m2 # n # os)" "m_bytes st1 m2 = m_bytes st m @ take count (m_bytes st n)"
    "m_bytes st1 n = m_bytes st n" "chain_bytes st1 os = chain_bytes st os" "\<not> M_READONLY st1 m2"
    "length (m_buf st1 m2) = length (m_buf st m)" "m_data m2 = m_data m" "m_len m2 = m_len m + count"
    "m_flags m2 = m_flags m" "m_pkthdr m2 = m_pkthdr m" "ext_ref st1 = ext_ref st"
proof -
  let ?ys = "mem_read (m_buf st n) (m_data n) count"
  have wfn: "wf_mbuf st n" using ok by (simp add: chain_ok_def)
  have ys: "?ys = take count (m_bytes st n)" "length ?ys = count"
    using c wfn by (simp_all add: mem_read_less)
  have room': "m_data m + m_len m + length ?ys \<le> length (m_buf st m)" using room ys by simp
  note a = append_bytes [OF ok ro w room'] and cw = chain_ok_write [OF ok ro w room']
  show "chain_ok st1 (m2 # n # os)" "m_bytes st1 m2 = m_bytes st m @ take count (m_bytes st n)"
    using a(1,3) unfolding m2_def ys(2) by (simp_all add: ys(1))
  have "wf_mbuf st1 n" using a(1) by (simp add: chain_ok_def)
  then show "m_bytes st1 n = m_bytes st n" "chain_bytes st1 os = chain_bytes st os"
    using a(2) wfn by simp_all
  show "m_data m2 = m_data m" "m_len m2 = m_len m + count"
    "m_flags m2 = m_flags m" "m_pkthdr m2 = m_pkthdr m" "ext_ref st1 = ext_ref st" using cw by (simp_all add: m2_def)
  show "\<not> M_READONLY st1 m2"
    using ro cw by (simp add: m2_def M_READONLY_def MCLISREFERENCED_def is_ext_def)
  have "m_buf st1 m2 = m_buf st1 m1" by (simp add: m2_def m_buf_def is_ext_def)
  then show "length (m_buf st1 m2) = length (m_buf st m)" using cw(3) room' by simp
qed

text \<open>What the loop leaves: the same bytes, the first \<open>len\<close> of them moved to \<open>m\<close>.\<close>

definition pulled :: "mstore \<Rightarrow> mbuf \<Rightarrow> mbuf list \<Rightarrow> mbuf list \<Rightarrow> nat \<Rightarrow> mstore \<times> mbuf \<times> mbuf list \<times> nat \<Rightarrow> bool" where
  "pulled st m ns os len = (\<lambda>(st', m', ns', r).
     m_bytes st' m' @ chain_bytes st' ns' = m_bytes st m @ chain_bytes st ns
     \<and> chain_bytes st' os = chain_bytes st os \<and> chain_ok st' (m' # ns' @ os)
     \<and> r = len - chain_len ns \<and> m_len m' = m_len m + min len (chain_len ns)
     \<and> m_flags m' = m_flags m \<and> m_pkthdr m' = m_pkthdr m \<and> (0 < r \<longrightarrow> ns' = []))"

lemma m_pullup_loop_correct:
  assumes "chain_ok st (m # ns @ os)" "\<forall>n\<in>set ns. \<not> zeroize n" "\<not> M_READONLY st m"
    "m_data m + m_len m + len \<le> length (m_buf st m)"
  shows "pulled st m ns os len (m_pullup_loop st m ns len)"
  using assms
proof (induction st m ns len rule: m_pullup_loop.induct)
  case (1 st m len)
  then show ?case by (simp add: pulled_def m_pullup_loop.simps)
next
  case (2 st m n ns len)
  define count where "count = min len (m_len n)"
  obtain st1 m1 where w: "mb_write st m (m_len m) (mem_read (m_buf st n) (m_data n) count) = (st1, m1)"
    by (cases "mb_write st m (m_len m) (mem_read (m_buf st n) (m_data n) count)")
  define m2 where "m2 = m1\<lparr>m_len := m_len m + count\<rparr>"
  define n1 where "n1 = n\<lparr>m_len := m_len n - count\<rparr>"
  have ok: "chain_ok st (m # n # ns @ os)" using "2.prems"(1) by simp
  have c: "count \<le> m_len n" "count \<le> len" by (simp_all add: count_def)
  note s = pullup_step [OF ok "2.prems"(3) c(1) _ w, folded m2_def]
  have room: "m_data m + m_len m + count \<le> length (m_buf st m)" using "2.prems"(4) c by simp
  note s = s [OF room]
  have wfn: "wf_mbuf st1 n" "wf_chain st1 (ns @ os)" "wf_mbuf st n" "wf_chain st (ns @ os)"
    using s(1) ok by (simp_all add: chain_ok_def)
  have ns: "chain_bytes st1 ns = chain_bytes st ns" "chain_bytes st1 os = chain_bytes st os"
    using s(4) wfn length_chain_bytes [of st1 ns] length_chain_bytes [of st ns]
    by (auto simp: append_eq_append_conv)
  show ?case
  proof (cases "m_len n - count = 0")
    case False
    then have len: "count = len" "len < m_len n" by (auto simp: count_def)
    let ?n = "n1\<lparr>m_data := m_data n + count\<rparr>"
    have n: "?n = n\<lparr>m_len := m_len n - count, m_data := m_data n + count\<rparr>" by (simp add: n1_def)
    have "chain_ok st1 (?n # m2 # ns @ os)"
      unfolding n using chain_ok_replace [OF chain_ok_swap [OF s(1)]] wfn(1) c(1) by (simp add: is_ext_def)
    then have "chain_ok st1 (m2 # ?n # ns @ os)" by (rule chain_ok_swap)
    moreover have "m_bytes st1 ?n = drop count (m_bytes st n)"
      unfolding n using mem_read_bytes [of count "m_len n - count" n st1] s(3) c(1) wfn by simp
    moreover have "m_pullup_loop st m (n # ns) len = (st1, m2, ?n # ns, len - count)"
      using False w by (simp add: m_pullup_loop.simps count_def m2_def n1_def Let_def)
    ultimately show ?thesis using s ns len by (simp add: pulled_def)
  next
    case True
    then have cn: "count = m_len n" using c(1) by simp
    have z: "\<not> zeroize n1" using "2.prems"(2) by (simp add: n1_def zeroize_def)
    let ?f = "m_free st1 (n1 # ns)"
    note f = m_free_plain [OF z, of st1 ns]
    have "chain_ok st1 (n1 # m2 # ns @ os)"
      unfolding n1_def using chain_ok_replace [OF chain_ok_swap [OF s(1)]] wfn(1) c(1) by (simp add: is_ext_def)
    from chain_ok_free [OF this z, of ns] have fo: "chain_ok (fst ?f) (m2 # ns @ os)"
      and fb: "chain_bytes (fst ?f) (m2 # ns @ os) = chain_bytes st1 (m2 # ns @ os)" by simp_all
    have e: "chain_bytes (fst ?f) xs = chain_bytes st1 xs" for xs using f(2) by (intro chain_bytes_cong) simp
    have b: "m_bytes (fst ?f) x = m_bytes st1 x" for x using f(2) by (intro m_bytes_cong) simp
    have eqs: "m_bytes st1 m2 = m_bytes st m @ m_bytes st n" using s(2) cn wfn by simp
    show ?thesis
    proof (cases "len - count > 0")
      case False
      then have "m_pullup_loop st m (n # ns) len = (fst ?f, m2, ns, 0)"
        using True w f(1) by (simp add: m_pullup_loop.simps count_def m2_def n1_def Let_def)
      then show ?thesis using fo s ns e b eqs cn False c(2) by (simp add: pulled_def)
    next
      case more: True
      then have l: "m_pullup_loop st m (n # ns) len = m_pullup_loop (fst ?f) m2 ns (len - count)"
        using True w f(1) by (auto simp: m_pullup_loop.simps count_def m2_def n1_def Let_def)
      have ro: "\<not> M_READONLY (fst ?f) m2"
        using M_READONLY_mono [OF s(5) refl refl] ext_ref_free [OF z] by blast
      have "m_buf (fst ?f) m2 = m_buf st1 m2" using f(2) by (simp add: m_buf_def)
      then have "m_data m2 + m_len m2 + (len - count) \<le> length (m_buf (fst ?f) m2)"
        using "2.prems"(4) s(6,7,8) c(2) by simp
      then have "pulled (fst ?f) m2 ns os (len - count) (m_pullup_loop (fst ?f) m2 ns (len - count))"
        using "2.IH" [OF count_def refl w [symmetric] m2_def n1_def _ more] True fo ro f(1) "2.prems"(2) by simp
      then show ?thesis unfolding l using s ns e b eqs cn more c(2) by (auto simp: pulled_def)
    qed
  qed
qed

text \<open>The mbuf \<^verbatim>\<open>m_pullup\<close> allocates, before the header moves to it.\<close>

lemma pullup_alloc:
  assumes ok: "chain_ok st ns" and st: "store_ok st" and g: "m_get st False t = (Some m0, st0)"
    and c: "(if len > MHLEN then mclgeti st0 m0 False len else Inr (st0, m0)) = Inr (st1, m1)"
    and e1: "is_ext m1 = (len > MHLEN)"
  shows "chain_ok st1 (m1\<lparr>m_len := 0\<rparr> # ns)" "chain_bytes st1 ns = chain_bytes st ns" "m_data m1 = 0"
    "is_ext m1 \<Longrightarrow> len \<le> length (m_buf st1 m1)" "\<not> M_READONLY st1 m1" "\<not> is_pkthdr m1"
proof -
  note g1 = m_get_Some [OF g]
  have m0: "\<not> is_ext m0" "\<not> is_pkthdr m0" using g1(2) by (simp_all add: flag_simps)
  have dat: "length (m_dat m0) = MLEN" using g1(3) st by (simp add: store_ok_def)
  have same: "wf_mbuf st0 k = wf_mbuf st k" for k using g1(5,6) by (simp add: wf_mbuf_def m_buf_def)
  have ok0: "chain_ok st0 ns" using ok g1(6) same by (simp add: chain_ok_def list_all_iff)
  have b0: "chain_bytes st0 ns = chain_bytes st ns" using g1(5) by (intro chain_bytes_cong) simp
  have "chain_ok st1 (m1\<lparr>m_len := 0\<rparr> # ns) \<and> chain_bytes st1 ns = chain_bytes st ns \<and> m_data m1 = 0
    \<and> (is_ext m1 \<longrightarrow> len \<le> length (m_buf st1 m1)) \<and> \<not> M_READONLY st1 m1 \<and> \<not> is_pkthdr m1"
  proof (cases "len > MHLEN")
    case True
    then have "mclgeti st0 m0 False len = Inr (st1, m1)" "is_ext m1" using c e1 by simp_all
    from mclgeti_new [OF this m0(1) _ dat ok0] show ?thesis using b0 m0(2) st g1(8) by simp
  next
    case False
    then have "st1 = st0" "m1 = m0" using c by simp_all
    moreover have "wf_mbuf st0 (m0\<lparr>m_len := 0\<rparr>)"
      using dat m0 g1(1) by (auto simp: wf_mbuf_def m_buf_def is_ext_def is_pkthdr_def)
    ultimately show ?thesis
      using chain_ok_new [OF ok0, of st0] m0 b0 g1(1) by (simp add: M_READONLY_def is_ext_def)
  qed
  then show "chain_ok st1 (m1\<lparr>m_len := 0\<rparr> # ns)" "chain_bytes st1 ns = chain_bytes st ns" "m_data m1 = 0"
    "is_ext m1 \<Longrightarrow> len \<le> length (m_buf st1 m1)" "\<not> M_READONLY st1 m1" "\<not> is_pkthdr m1" by auto
qed

text \<open>Moving the header, or not, in one statement.\<close>

lemma maybe_move_pkthdr:
  assumes "(to', frm') = (if is_pkthdr frm then m_move_pkthdr to frm else (to, frm))" "\<not> is_pkthdr to"
  shows "m_len to' = m_len to" "m_dat to' = m_dat to" "is_ext to' = is_ext to" "m_ext to' = m_ext to"
    "m_data to' = (if is_pkthdr frm \<and> \<not> is_ext to then m_pktdat else m_data to)"
    "is_pkthdr to' = is_pkthdr frm" "is_pkthdr frm \<Longrightarrow> m_pkthdr to' = m_pkthdr frm"
    "has_flag (m_flags to') M_EXTWR = has_flag (m_flags to) M_EXTWR"
    "is_ext frm' = is_ext frm" "m_ext frm' = m_ext frm" "m_data frm' = m_data frm" "m_len frm' = m_len frm"
    "m_dat frm' = m_dat frm" "is_pkthdr frm' \<longrightarrow> is_pkthdr frm" "zeroize frm' = zeroize frm"
  using assms m_move_pkthdr_facts [of to frm to' frm'] by (auto split: if_splits)

lemma m_ext_m_len: "m_ext (m\<lparr>m_len := k\<rparr>) = m_ext m"
  by simp

lemma m_pullup_new_correct:
  assumes ok: "chain_ok st (n # os)" and st: "store_ok st" and r: "m_pullup_new st n len = Inr (st', Some (m, n'))"
  shows "chain_ok st' (m # n' # os)" "m_len m = 0" "m_bytes st' n' = m_bytes st n" "m_len n' = m_len n"
    "chain_bytes st' os = chain_bytes st os" "m_data m + len \<le> length (m_buf st' m)" "\<not> M_READONLY st' m"
    "is_pkthdr m = is_pkthdr n" "is_pkthdr n \<Longrightarrow> m_pkthdr m = m_pkthdr n" "zeroize n' = zeroize n"
proof -
  obtain m0 st0 where g: "m_get st False (m_type n) = (Some m0, st0)"
    using r by (auto simp: m_pullup_new_def split: if_splits prod.splits option.splits)
  have "\<not> is_ext m0" using m_get_Some(2) [OF g] by (simp add: flag_simps)
  then obtain m1 where c: "(if len > MHLEN then mclgeti st0 m0 False len else Inr (st0, m0)) = Inr (st', m1)"
    and e1: "is_ext m1 = (len > MHLEN)"
    and mv: "(m, n') = (if is_pkthdr n then m_move_pkthdr (m1\<lparr>m_len := 0\<rparr>) n else (m1\<lparr>m_len := 0\<rparr>, n))"
    using r g by (auto simp: m_pullup_new_def Let_def split: if_splits sum.splits prod.splits)
  let ?m1 = "m1\<lparr>m_len := 0\<rparr>"
  note a = pullup_alloc [OF ok st g c e1]
  have e: "is_ext ?m1 = is_ext m1" "is_pkthdr ?m1 = is_pkthdr m1" by (simp_all add: is_ext_def is_pkthdr_def)
  have "\<not> is_pkthdr ?m1" using a(6) e by simp
  note p = maybe_move_pkthdr [OF mv this, unfolded e, simplified]
  have wf1: "wf_mbuf st' ?m1" "wf_mbuf st' n" "wf_chain st' os" "wf_mbuf st n" "wf_chain st os"
    using a(1) ok by (simp_all add: chain_ok_def)
  have m1: "length (m_dat m1) = MLEN" "is_ext m1 \<longrightarrow> 0 < ext_ref st' (m_ext m1)"
    using wf1(1) by (simp_all add: wf_mbuf_def is_ext_def)
  have wf: "wf_mbuf st' m" "wf_mbuf st' n'"
    using m1 p(1-6) a(3) p(9-14) wf1(2) by (auto simp: wf_mbuf_def m_buf_def msize_facts)
  have "chain_ok st' (m # n # os)" by (rule chain_ok_replace [OF a(1) wf(1)]) (simp_all only: p e m_ext_m_len)
  from chain_ok_replace [OF chain_ok_swap [OF this] wf(2)] have "chain_ok st' (n' # m # os)"
    using p(9,10) by blast
  then show "chain_ok st' (m # n' # os)" by (rule chain_ok_swap)
  show "m_len m = 0" "m_len n' = m_len n" "is_pkthdr m = is_pkthdr n" "is_pkthdr n \<Longrightarrow> m_pkthdr m = m_pkthdr n"
    "zeroize n' = zeroize n" using p by simp_all
  have "m_bytes st' n = m_bytes st n" using a(2) wf1 by simp
  moreover have "m_bytes st' n' = m_bytes st' n" using p by (simp add: m_bytes_def m_buf_def)
  ultimately show "m_bytes st' n' = m_bytes st n" by simp
  show "chain_bytes st' os = chain_bytes st os" using a(2) wf1 by simp
  show "m_data m + len \<le> length (m_buf st' m)"
    using a(3,4) p e1 m1 by (cases "is_ext m1") (simp_all add: m_buf_def msize_facts)
  show "\<not> M_READONLY st' m" using a(5) p by (simp add: M_READONLY_def MCLISREFERENCED_def)
qed

text \<open>What a successful \<^verbatim>\<open>m_pullup\<close> promises about the new chain and all other chains.\<close>

definition pullup_post :: "mstore \<Rightarrow> mbuf list \<Rightarrow> mbuf list \<Rightarrow> nat \<Rightarrow> mstore \<Rightarrow> mbuf list \<Rightarrow> bool" where
  "pullup_post st ms os len st' ks \<longleftrightarrow>
     ks \<noteq> [] \<and> chain_bytes st' ks = chain_bytes st ms \<and> len \<le> m_len (hd ks) \<and> chain_ok st' (ks @ os)
     \<and> chain_bytes st' os = chain_bytes st os \<and> is_pkthdr (hd ks) = is_pkthdr (hd ms)
     \<and> (is_pkthdr (hd ms) \<longrightarrow> m_pkthdr (hd ks) = m_pkthdr (hd ms))"

lemma pullup_finish:
  assumes "pulled st m ns os k (s, m', ns', r)" "r = 0" "len = m_len m + k" "k \<le> chain_len ns"
  shows "pullup_post st (m # ns) os len s (m' # ns')"
  using assms by (auto simp: pulled_def pullup_post_def is_pkthdr_def)

lemma pullup_room:
  assumes "wf_mbuf st n" "\<not> is_ext n \<and> m_data n + len < MLEN
     \<or> is_ext n \<and> m_data n + len < length (ext_mem st (m_ext n))"
  shows "m_data n + len \<le> length (m_buf st n)"
  using assms by (auto simp: wf_mbuf_def m_buf_def)

lemma m_pullup_here:
  assumes ok: "chain_ok st (n # ns @ os)" and z: "\<forall>m\<in>set ns. \<not> zeroize m" and ro: "\<not> M_READONLY st n"
    and room: "m_data n + len \<le> length (m_buf st n)" and short: "m_len n < len"
    and res: "m_pullup_loop st n ns (len - m_len n) = (s, m', ns', r)"
  shows "r = len - chain_len (n # ns)" "r = 0 \<Longrightarrow> pullup_post st (n # ns) os len s (m' # ns')"
proof -
  have p: "pulled st n ns os (len - m_len n) (s, m', ns', r)"
    using m_pullup_loop_correct [OF ok z ro, of "len - m_len n"] room short res by simp
  then show r: "r = len - chain_len (n # ns)" by (simp add: pulled_def)
  show "pullup_post st (n # ns) os len s (m' # ns')" if "r = 0"
    using pullup_finish [OF p that] r that short by simp
qed

lemma m_pullup_moved:
  assumes ok: "chain_ok st (n # ns @ os)" and z: "\<forall>m\<in>set (n # ns). \<not> zeroize m" and st: "store_ok st"
    and new: "m_pullup_new st n len = Inr (st1, Some (m, n'))"
    and res: "m_pullup_loop st1 m (n' # ns) len = (s, m', ns', r)"
  shows "r = len - chain_len (n # ns)" "r = 0 \<Longrightarrow> pullup_post st (n # ns) os len s (m' # ns')"
proof -
  note c = m_pullup_new_correct [OF ok st new]
  have "pulled st1 m (n' # ns) os len (m_pullup_loop st1 m (n' # ns) len)"
    using c z by (intro m_pullup_loop_correct) simp_all
  then have p: "pulled st1 m (n' # ns) os len (s, m', ns', r)" using res by simp
  then show r: "r = len - chain_len (n # ns)" using c(4) by (simp add: pulled_def)
  have wf: "wf_chain st1 (ns @ os)" "wf_chain st (ns @ os)" using c(1) ok by (simp_all add: chain_ok_def)
  then have "chain_bytes st1 ns = chain_bytes st ns" "chain_bytes st1 os = chain_bytes st os"
    using c(5) length_chain_bytes [of st1 ns] length_chain_bytes [of st ns] by (auto simp: append_eq_append_conv)
  moreover have "m_bytes st1 m = []" using c(2) by (simp add: m_bytes_def mem_read_def)
  ultimately show "pullup_post st (n # ns) os len s (m' # ns')" if "r = 0"
    using pullup_finish [OF p that] r that c by (simp add: pullup_post_def)
qed

lemma m_pullup_correct:
  assumes ok: "chain_ok st (ms @ os)" and ne: "ms \<noteq> []" and st: "store_ok st"
    and z: "\<forall>m\<in>set ms. \<not> zeroize m" and ro: "\<not> M_READONLY st (hd ms)"
    and r: "m_pullup st ms len = Inr (st', ks)"
  shows "ks \<noteq> [] \<Longrightarrow> pullup_post st ms os len st' ks" "ks \<noteq> [] \<Longrightarrow> len \<le> chain_len ms"
proof -
  obtain n ns where ms: "ms = n # ns" using ne by (cases ms) auto
  have ok': "chain_ok st (n # ns @ os)" using ok by (simp add: ms)
  have wf: "wf_mbuf st n" using ok' by (simp add: chain_ok_def)
  let ?here = "\<not> is_ext n \<and> ns \<noteq> [] \<and> m_data n + len < MLEN
     \<or> is_ext n \<and> len > MHLEN \<and> ns \<noteq> [] \<and> m_data n + len < length (ext_mem st (m_ext n))"
  have "ks \<noteq> [] \<longrightarrow> pullup_post st ms os len st' ks \<and> len \<le> chain_len ms"
  proof (cases ?here)
    case here: True
    then have room: "m_data n + len \<le> length (m_buf st n)" using pullup_room [OF wf, of len] by blast
    show ?thesis
    proof (cases "m_len n \<ge> len")
      case True
      then show ?thesis using r here ok by (auto simp: m_pullup_def ms pullup_post_def)
    next
      case False
      obtain s m' ns' k where l: "m_pullup_loop st n ns (len - m_len n) = (s, m', ns', k)"
        by (metis prod_cases4)
      have "\<forall>m\<in>set ns. \<not> zeroize m" "\<not> M_READONLY st n" "m_len n < len" using z ro False by (simp_all add: ms)
      from m_pullup_here [OF ok' this(1,2) room this(3) l] show ?thesis
        using r here False l by (auto simp: m_pullup_def ms split: if_splits)
    qed
  next
    case new: False
    show ?thesis
    proof (cases "m_pullup_new st n len")
      case (Inr p)
      then obtain st1 q where p: "m_pullup_new st n len = Inr (st1, q)" by (cases p) simp
      show ?thesis
      proof (cases q)
        case (Some mn)
        obtain m n' where mn: "mn = (m, n')" by (cases mn)
        obtain s m' ns' k where l: "m_pullup_loop st1 m (n' # ns) len = (s, m', ns', k)"
          by (metis prod_cases4)
        have "\<forall>m\<in>set (n # ns). \<not> zeroize m" using z by (simp add: ms)
        from m_pullup_moved [OF ok' this st p [unfolded Some mn] l] show ?thesis
          using r new p Some mn l unfolding m_pullup_def ms Let_def list.sel if_not_P [OF new]
          by (auto split: if_splits)
      qed (use r new p in \<open>simp add: m_pullup_def ms Let_def\<close>)
    qed (use r new in \<open>simp add: m_pullup_def ms Let_def\<close>)
  qed
  then show "ks \<noteq> [] \<Longrightarrow> pullup_post st ms os len st' ks" "ks \<noteq> [] \<Longrightarrow> len \<le> chain_len ms" by auto
qed

end
