(* ===== verification/Mbuf_Split.thy ===== *)
theory Mbuf_Split
  imports Mbuf_Copy
begin

text \<open>
  Correctness of \<^verbatim>\<open>m_split\<close> and \<^verbatim>\<open>m_copym0\<close>, with the lemmas on tags and packet
  headers they need.  External buffers are never written by either routine.
\<close>

subsection \<open>Tags and headers\<close>

definition tags_fit :: "m_tag list \<Rightarrow> bool" where
  "tags_fit ts \<longleftrightarrow> list_all (\<lambda>t. length (m_tag_data t) \<le> PACKET_TAG_MAXSIZE) ts"

text \<open>The chain of copies: the same tags in the same order, or nothing when memory runs out.\<close>

definition tags_added :: "pkthdr \<Rightarrow> m_tag list \<Rightarrow> bool \<Rightarrow> bool \<Rightarrow> pkthdr \<Rightarrow> bool" where
  "tags_added h0 ts wait ok h \<longleftrightarrow>
     ph_len h = ph_len h0 \<and> ph_prio h = ph_prio h0
     \<and> (if ok then ph_tags h = ph_tags h0 @ ts \<and> ph_tagsset h = fold (\<lambda>t s. s OR m_tag_id t) ts (ph_tagsset h0)
        else ph_tags h = [] \<and> ph_tagsset h = 0) \<and> (wait \<longrightarrow> ok)"

lemma tag_copy_loop_correct:
  assumes "tags_fit ts"
  shows "\<exists>ok k h. tag_copy_loop st to ts wait = Inr (ok, st\<lparr>tag_avail := k\<rparr>, to\<lparr>m_pkthdr := h\<rparr>)
    \<and> tags_added (m_pkthdr to) ts wait ok h"
  using assms
proof (induction ts arbitrary: st to)
  case Nil
  show ?case
    by (rule exI [of _ True], rule exI [of _ "tag_avail st"], rule exI [of _ "m_pkthdr to"]) (simp add: tags_added_def)
next
  case (Cons t ts)
  have fit: "length (m_tag_data t) \<le> PACKET_TAG_MAXSIZE" "tags_fit ts" using Cons.prems by (simp_all add: tags_fit_def)
  show ?case
  proof (cases "tag_avail st = 0 \<and> \<not> wait")
    case True
    then show ?thesis using fit
      by (auto simp: m_tag_copy_def m_tag_get_def m_tag_delete_chain_def Let_def tags_added_def intro!: exI)
  next
    case False
    let ?h = "m_pkthdr to"
    let ?to = "to\<lparr>m_pkthdr := ?h\<lparr>ph_tags := ph_tags ?h @ [t], ph_tagsset := ph_tagsset ?h OR m_tag_id t\<rparr>\<rparr>"
    let ?st = "st\<lparr>tag_avail := tag_avail st - 1\<rparr>"
    have e: "tag_copy_loop st to (t # ts) wait = tag_copy_loop ?st ?to ts wait"
      using False fit by (cases t) (auto simp: m_tag_copy_def m_tag_get_def Let_def)
    from Cons.IH [OF fit(2), of ?st ?to] obtain ok k h where
      l: "tag_copy_loop ?st ?to ts wait = Inr (ok, ?st\<lparr>tag_avail := k\<rparr>, ?to\<lparr>m_pkthdr := h\<rparr>)"
      and t: "tags_added (m_pkthdr ?to) ts wait ok h" by (elim exE conjE) (rule that)
    from t have "tags_added (m_pkthdr to) (t # ts) wait ok h" by (simp add: tags_added_def)
    then show ?thesis unfolding e l by (intro exI [of _ ok] exI [of _ k] exI [of _ h]) simp
  qed
qed

lemma m_tag_copy_chain_correct:
  assumes "tags_fit (ph_tags (m_pkthdr frm))"
  shows "\<exists>ok k h. m_tag_copy_chain st to frm wait = Inr (ok, st\<lparr>tag_avail := k\<rparr>, to\<lparr>m_pkthdr := h\<rparr>)
    \<and> tags_added ((m_pkthdr to)\<lparr>ph_tags := [], ph_tagsset := 0\<rparr>) (ph_tags (m_pkthdr frm)) wait ok h"
proof -
  let ?st = "st\<lparr>tag_avail := tag_avail st + length (ph_tags (m_pkthdr to))\<rparr>"
  let ?to = "to\<lparr>m_pkthdr := (m_pkthdr to)\<lparr>ph_tags := [], ph_tagsset := 0\<rparr>\<rparr>"
  obtain ok k h where
    "tag_copy_loop ?st ?to (ph_tags (m_pkthdr frm)) wait = Inr (ok, ?st\<lparr>tag_avail := k\<rparr>, ?to\<lparr>m_pkthdr := h\<rparr>)"
    "tags_added (m_pkthdr ?to) (ph_tags (m_pkthdr frm)) wait ok h"
    using tag_copy_loop_correct [OF assms, of ?st ?to wait] by (elim exE conjE) (rule that)
  then show ?thesis
    by (intro exI [of _ ok] exI [of _ k] exI [of _ h])
      (simp add: m_tag_copy_chain_def m_tag_delete_chain_def Let_def)
qed

lemma m_dup_pkthdr_correct:
  assumes "is_pkthdr frm" "tags_fit (ph_tags (m_pkthdr frm))" "\<not> is_ext to"
  shows "\<exists>ok k n. m_dup_pkthdr st to frm wait = Inr (ok, st\<lparr>tag_avail := k\<rparr>, n) \<and> (wait \<longrightarrow> ok)
    \<and> is_pkthdr n \<and> \<not> is_ext n \<and> m_dat n = m_dat to \<and> m_len n = m_len to \<and> zeroize n = zeroize frm
    \<and> (ok \<longrightarrow> m_data n = m_pktdat \<and> ph_len (m_pkthdr n) = ph_len (m_pkthdr frm)
        \<and> ph_tags (m_pkthdr n) = ph_tags (m_pkthdr frm))"
proof -
  let ?to = "to\<lparr>m_flags := (m_flags to AND (M_EXT OR M_EXTWR)) OR (m_flags frm AND M_COPYFLAGS),
                m_pkthdr := (m_pkthdr frm)\<lparr>ph_tags := []\<rparr>\<rparr>"
  obtain ok k h where t1: "m_tag_copy_chain st ?to frm wait = Inr (ok, st\<lparr>tag_avail := k\<rparr>, ?to\<lparr>m_pkthdr := h\<rparr>)"
    and ta: "tags_added ((m_pkthdr ?to)\<lparr>ph_tags := [], ph_tagsset := 0\<rparr>) (ph_tags (m_pkthdr frm)) wait ok h"
    using m_tag_copy_chain_correct [OF assms(2), of st ?to wait] by (elim exE conjE) (rule that)
  from ta have t2: "ph_len h = ph_len (m_pkthdr frm)" "ok \<longrightarrow> ph_tags h = ph_tags (m_pkthdr frm)" "wait \<longrightarrow> ok"
    by (auto simp: tags_added_def split: if_splits)
  let ?n = "?to\<lparr>m_pkthdr := h\<rparr>"
  have f: "is_pkthdr ?n" "\<not> is_ext ?n" "zeroize ?n = zeroize frm" using assms(1,3) by (simp_all add: flag_simps)
  have "m_dup_pkthdr st to frm wait
      = Inr (ok, st\<lparr>tag_avail := k\<rparr>, if ok then ?n\<lparr>m_data := m_pktdat\<rparr> else ?n)"
    using t1 f(2) assms(1) by (cases ok) (simp_all add: m_dup_pkthdr_def Let_def)
  moreover have "is_pkthdr (?n\<lparr>m_data := m_pktdat\<rparr>)" "\<not> is_ext (?n\<lparr>m_data := m_pktdat\<rparr>)"
    "zeroize (?n\<lparr>m_data := m_pktdat\<rparr>) = zeroize frm"
    using f by (simp_all add: is_pkthdr_def is_ext_def zeroize_def)
  ultimately show ?thesis using f t2
    by (intro exI [of _ ok] exI [of _ k] exI [of _ "if ok then ?n\<lparr>m_data := m_pktdat\<rparr> else ?n"]) simp
qed

lemma m_gethdr_Some:
  assumes "m_gethdr st wait t = (Some m, st')"
  shows "m_data m = m_pktdat" "is_pkthdr m" "\<not> is_ext m" "m_dat m = m_dat (mb_junk st)" "m_len m = m_len (mb_junk st)"
    "ext_mem st' = ext_mem st" "ext_ref st' = ext_ref st" "mb_junk st' = mb_junk st" "store_ok st' = store_ok st"
  using assms
  by (auto simp: m_gethdr_def m_inithdr_def count_mtype_def Let_def store_ok_def flag_simps split: if_splits)

text \<open>Stores that differ in their counters only.\<close>

definition same_mem :: "mstore \<Rightarrow> mstore \<Rightarrow> bool" where
  "same_mem st st' \<longleftrightarrow>
     ext_mem st' = ext_mem st \<and> ext_ref st' = ext_ref st \<and> mb_junk st' = mb_junk st \<and> store_ok st' = store_ok st"

lemma same_mem_trans: "same_mem a b \<Longrightarrow> same_mem b c \<Longrightarrow> same_mem a c"
  by (simp add: same_mem_def)

lemma same_mem_chain: "same_mem st st' \<Longrightarrow> chain_ok st' ms = chain_ok st ms"
  "same_mem st st' \<Longrightarrow> chain_bytes st' ms = chain_bytes st ms"
  "same_mem st st' \<Longrightarrow> m_bytes st' m = m_bytes st m"
proof -
  assume s: "same_mem st st'"
  then have "wf_mbuf st' m = wf_mbuf st m" for m by (simp add: same_mem_def wf_mbuf_def m_buf_def)
  then show "chain_ok st' ms = chain_ok st ms" using s by (simp add: chain_ok_def list_all_iff same_mem_def)
  show "chain_bytes st' ms = chain_bytes st ms" using s by (intro chain_bytes_cong) (simp add: same_mem_def)
  show "m_bytes st' m = m_bytes st m" using s by (intro m_bytes_cong) (simp add: same_mem_def)
qed

lemma same_mem_get: "m_get st wait t = (Some m, st') \<Longrightarrow> same_mem st st'"
  using m_get_Some [of st wait t m st'] by (simp add: same_mem_def)

lemma same_mem_gethdr: "m_gethdr st wait t = (Some m, st') \<Longrightarrow> same_mem st st'"
  using m_gethdr_Some [of st wait t m st'] by (simp add: same_mem_def)

lemma same_mem_tags: "same_mem st (st\<lparr>tag_avail := k\<rparr>)"
  by (simp add: same_mem_def store_ok_def)

subsection \<open>Splitting a chain\<close>

lemma m_seek_Some:
  "m_seek ms l = Some (pre, m, post, len) \<Longrightarrow> ms = pre @ m # post \<and> l = chain_len pre + len \<and> len \<le> m_len m"
  by (induction ms l arbitrary: pre len rule: m_seek.induct) (fastforce split: if_splits)+

lemma m_seek_None: "m_seek ms l = None \<longleftrightarrow> ms = [] \<or> chain_len ms < l"
  by (induction ms l rule: m_seek.induct) auto

lemma chain_ok_perm:
  "set ms = set ns \<Longrightarrow> (\<And>i. refs i ms = refs i ns) \<Longrightarrow> chain_ok st ms = chain_ok st ns"
  by (simp add: chain_ok_def list_all_iff)

lemma m_extref_chain:
  assumes ok: "chain_ok st (m # os)" and ext: "is_ext m" and n: "\<not> is_ext n" "length (m_dat n) = MLEN"
    and e: "m_extref st m (n\<lparr>m_ext := m_ext m\<rparr>) = (st', n')" and len: "k + l \<le> m_len m"
  defines "n2 \<equiv> n'\<lparr>m_data := m_data m + k, m_len := l\<rparr>"
  shows "chain_ok st' (n2 # m # os)" "ext_mem st' = ext_mem st"
    "m_bytes st' n2 = take l (drop k (m_bytes st m))" "is_pkthdr n2 = is_pkthdr n" "m_pkthdr n2 = m_pkthdr n"
    "mb_junk st' = mb_junk st" "store_ok st \<Longrightarrow> store_ok st'" "zeroize n2 = zeroize n"
proof -
  have f: "is_ext n2" "m_ext n2 = m_ext m" "m_dat n2 = m_dat n" "is_pkthdr n2 = is_pkthdr n" "m_pkthdr n2 = m_pkthdr n"
    "zeroize n2 = zeroize n"
    and s: "ext_mem st' = ext_mem st" "ext_ref st' = (ext_ref st)(m_ext m := ext_ref st (m_ext m) + 1)"
    "mb_junk st' = mb_junk st" "ext_next st' = ext_next st" "cl_junk st' = cl_junk st"
    using e ext by (auto simp: m_extref_def n2_def flag_simps)
  show "ext_mem st' = ext_mem st" "is_pkthdr n2 = is_pkthdr n" "m_pkthdr n2 = m_pkthdr n" "mb_junk st' = mb_junk st"
    "zeroize n2 = zeroize n" by fact+
  have wfm: "wf_mbuf st m" using ok by (simp add: chain_ok_def)
  then have "0 < ext_ref st (m_ext m)" using ext by (simp add: wf_mbuf_def)
  then show "store_ok st'" if "store_ok st" using that s by (auto simp: store_ok_def)
  have buf: "m_buf st' n2 = m_buf st m" using f(1,2) s(1) ext by (simp add: m_buf_def)
  have "wf_mbuf st' n2" using wfm f n(2) s(2) len buf by (simp add: wf_mbuf_def n2_def)
  moreover have "wf_mbuf st' x" if "wf_mbuf st x" for x
    using that s(1,2) by (auto simp: wf_mbuf_def m_buf_def)
  ultimately show "chain_ok st' (n2 # m # os)"
    using ok f(1,2) s(2) ext by (auto simp: chain_ok_def list_all_iff)
  show "m_bytes st' n2 = take l (drop k (m_bytes st m))"
    using mem_read_bytes [OF len, of st] buf by (simp add: m_bytes_def [of st' n2]) (simp add: n2_def)
qed

lemma mb_write_own:
  assumes "\<not> is_ext n" "m_data n + length ys \<le> MLEN" "length (m_dat n) = MLEN" "mb_write st n 0 ys = (st', n')"
  defines "n2 \<equiv> n'\<lparr>m_len := length ys\<rparr>"
  shows "st' = st" "\<not> is_ext n2" "m_bytes st n2 = ys" "length (m_dat n2) = MLEN" "m_data n2 = m_data n"
    "is_pkthdr n2 = is_pkthdr n" "m_pkthdr n2 = m_pkthdr n" "zeroize n2 = zeroize n"
  using assms mem_read_write_same [of "m_data n" ys "m_dat n"]
  by (auto simp: mb_write_def n2_def m_bytes_def m_buf_def is_ext_def is_pkthdr_def zeroize_def)

text \<open>What a split promises; no external buffer is written.\<close>

definition split_post :: "mstore \<Rightarrow> mbuf list \<Rightarrow> mbuf list \<Rightarrow> nat \<Rightarrow> mstore \<Rightarrow> mbuf list \<Rightarrow> mbuf list \<Rightarrow> bool" where
  "split_post st ms os len st' hs ts \<longleftrightarrow>
     chain_ok st' (hs @ ts @ os) \<and> ext_mem st' = ext_mem st \<and> hs \<noteq> []
     \<and> chain_bytes st' hs = take len (chain_bytes st ms) \<and> chain_bytes st' ts = drop len (chain_bytes st ms)
     \<and> mb_junk st' = mb_junk st \<and> (store_ok st \<longrightarrow> store_ok st')"

lemma m_split_at_correct:
  assumes ok: "chain_ok st (pre @ m # post @ os)" and len: "len \<le> m_len m"
    and n: "\<not> is_ext n" "length (m_dat n) = MLEN" "is_pkthdr n \<longrightarrow> m_pktdat \<le> m_data n"
    and room: "is_ext m \<or> m_data n + (m_len m - len) \<le> MLEN"
    and r: "m_split_at st pre m post len n = (st', hs, ts)"
  shows "split_post st (pre @ m # post) os (chain_len pre + len) st' hs ts"
    "hs = pre @ [m\<lparr>m_len := len\<rparr>]" "tl ts = post" "ts \<noteq> []" "is_pkthdr (hd ts) = is_pkthdr n" "m_pkthdr (hd ts) = m_pkthdr n"
proof -
  let ?l = "m_len m - len"
  let ?m = "m\<lparr>m_len := len\<rparr>"
  have ok1: "chain_ok st (m # pre @ post @ os)"
    using ok by (subst chain_ok_perm [of _ "pre @ m # post @ os"]) auto
  have wf: "wf_mbuf st m" "wf_chain st pre" using ok by (simp_all add: chain_ok_def)
  have "\<exists>n2. hs = pre @ [?m] \<and> ts = n2 # post \<and> chain_ok st' (n2 # m # pre @ post @ os) \<and> ext_mem st' = ext_mem st
    \<and> m_bytes st' n2 = drop len (m_bytes st m) \<and> is_pkthdr n2 = is_pkthdr n \<and> m_pkthdr n2 = m_pkthdr n
    \<and> mb_junk st' = mb_junk st \<and> (store_ok st \<longrightarrow> store_ok st')"
  proof (cases "is_ext m")
    case True
    obtain n1 where e: "m_extref st m (n\<lparr>m_ext := m_ext m\<rparr>) = (st', n1)"
      and h: "hs = pre @ [?m]" "ts = n1\<lparr>m_data := m_data m + len, m_len := ?l\<rparr> # post"
      using r True by (cases "m_extref st m (n\<lparr>m_ext := m_ext m\<rparr>)") (simp add: m_split_at_def Let_def)
    have l: "len + ?l \<le> m_len m" using len by simp
    note x = m_extref_chain [OF ok1 True n(1,2) e l]
    show ?thesis using x h wf(1) by (intro exI [of _ "n1\<lparr>m_data := m_data m + len, m_len := ?l\<rparr>"]) simp
  next
    case False
    let ?ys = "mem_read (m_buf st m) (m_data m + len) ?l"
    have ys: "?ys = drop len (m_bytes st m)" "length ?ys = ?l"
      using mem_read_bytes [of len ?l m st] len wf(1) by simp_all
    obtain n1 where w: "mb_write st n 0 ?ys = (st', n1)"
      and h: "hs = pre @ [?m]" "ts = n1\<lparr>m_len := ?l\<rparr> # post"
      using r False by (cases "mb_write st n 0 ?ys") (simp add: m_split_at_def Let_def)
    have "m_data n + length ?ys \<le> MLEN" using room False ys(2) by simp
    note x = mb_write_own [OF n(1) this n(2) w, unfolded ys(2)]
    let ?n = "n1\<lparr>m_len := ?l\<rparr>"
    have "wf_mbuf st ?n" using x n room False by (simp add: wf_mbuf_def m_buf_def)
    then have "chain_ok st (?n # m # pre @ post @ os)" using chain_ok_new [OF ok1] x(2) by simp
    then show ?thesis using x h ys(1) by (intro exI [of _ ?n]) simp
  qed
  then obtain n2 where t: "hs = pre @ [?m]" "ts = n2 # post" "chain_ok st' (n2 # m # pre @ post @ os)"
    "ext_mem st' = ext_mem st" "m_bytes st' n2 = drop len (m_bytes st m)" "is_pkthdr n2 = is_pkthdr n"
    "m_pkthdr n2 = m_pkthdr n" "mb_junk st' = mb_junk st" "store_ok st \<longrightarrow> store_ok st'" by auto
  have wfm: "wf_mbuf st' m" using t(3) by (simp add: chain_ok_def)
  have "chain_ok st' (m # n2 # pre @ post @ os)" using t(3) by (rule chain_ok_swap)
  then have "chain_ok st' (?m # n2 # pre @ post @ os)"
    using chain_ok_replace wfm len by (simp add: is_ext_def)
  then have c: "chain_ok st' (hs @ ts @ os)"
    using t(1,2) by (subst chain_ok_perm [of _ "?m # n2 # pre @ post @ os"]) auto
  have b: "chain_bytes st' cs = chain_bytes st cs" for cs using t(4) by (intro chain_bytes_cong) simp
  have m: "m_bytes st' ?m = take len (m_bytes st m)"
    using mem_read_less [of len m st'] len t(4) m_bytes_cong [of m st' st] by simp
  then show "split_post st (pre @ m # post) os (chain_len pre + len) st' hs ts"
    using c t b wf len length_chain_bytes [OF wf(2)] by (simp add: split_post_def)
  show "hs = pre @ [?m]" "tl ts = post" "ts \<noteq> []" "is_pkthdr (hd ts) = is_pkthdr n" "m_pkthdr (hd ts) = m_pkthdr n"
    using t by simp_all
qed

lemma m_get_None: "m_get st wait t = (None, st') \<Longrightarrow> st' = st \<and> \<not> wait"
  by (auto simp: m_get_def Let_def split: if_splits)

lemma m_gethdr_None: "m_gethdr st wait t = (None, st') \<Longrightarrow> st' = st \<and> \<not> wait"
  by (auto simp: m_gethdr_def Let_def split: if_splits)

lemma adv_data_simps [simp]:
  "is_ext (adv_data n k) = is_ext n" "is_pkthdr (adv_data n k) = is_pkthdr n" "m_dat (adv_data n k) = m_dat n"
  "m_data (adv_data n k) = m_data n + k" "m_pkthdr (adv_data n k) = m_pkthdr n" "m_len (adv_data n k) = m_len n"
  "zeroize (adv_data n k) = zeroize n"
  by (simp_all add: adv_data_def is_ext_def is_pkthdr_def zeroize_def)

lemma split_post_same:
  assumes "same_mem st st1" "split_post st1 ms os l st' hs ts"
  shows "split_post st ms os l st' hs ts"
  using assms same_mem_chain(2) [OF assms(1)] by (simp add: split_post_def same_mem_def)

text \<open>A chain without a packet header: no recursion.\<close>

lemma m_split_plain:
  assumes ok: "chain_ok st (ms @ os)" and hd: "ms \<noteq> []" "\<not> is_pkthdr (hd ms)" and st: "store_ok st"
  shows "\<exists>st' hs ts. m_split st ms l wait = Some (Inr (st', hs, ts))
    \<and> (ts = [] \<and> hs = ms \<and> same_mem st st' \<or> split_post st ms os l st' hs ts)
    \<and> (wait \<and> l < chain_len ms \<longrightarrow> ts \<noteq> [])"
proof (cases "m_seek ms l")
  case None
  then show ?thesis using hd m_seek_None [of ms l] by (simp add: m_split.simps same_mem_def)
next
  case (Some p)
  then obtain pre m post len where s: "m_seek ms l = Some (pre, m, post, len)" by (cases p) auto
  note d = m_seek_Some [OF s]
  have ok': "chain_ok st (pre @ m # post @ os)" using ok d by simp
  show ?thesis
  proof (cases "m_len m - len = 0")
    case True
    have "wf_chain st (pre @ [m])" using ok d by (simp add: chain_ok_def)
    then have "split_post st ms os l st (pre @ [m]) post"
      using ok d True length_chain_bytes [of st "pre @ [m]"] by (simp add: split_post_def)
    then show ?thesis using s hd True d by (intro exI [of _ st]) (auto simp: m_split.simps)
  next
    case False
    show ?thesis
    proof (cases "m_get st wait (m_type m)")
      case (Pair mo st1)
      show ?thesis
      proof (cases mo)
        case None
        then show ?thesis using s hd False Pair m_get_None [of st wait "m_type m" st1]
          by (simp add: m_split.simps same_mem_def)
      next
        case (Some n)
        with Pair have g: "m_get st wait (m_type m) = (Some n, st1)" by simp
        let ?n = "adv_data n (align_down (MLEN - (m_len m - len)))"
        obtain st' hs ts where at: "m_split_at st1 pre m post len ?n = (st', hs, ts)"
          by (metis prod_cases3)
        have "wf_mbuf st m" using ok' by (simp add: chain_ok_def)
        then have "is_ext m \<or> m_len m \<le> MLEN" by (cases "is_ext m") (simp_all add: wf_mbuf_def m_buf_def)
        then have room: "is_ext m \<or> m_data ?n + (m_len m - len) \<le> MLEN"
          using align_down_le [of "MLEN - (m_len m - len)"] m_get_Some(1) [OF g] by auto
        have n: "\<not> is_ext ?n" "\<not> is_pkthdr ?n" using m_get_Some(2) [OF g] by (simp_all, simp_all add: flag_simps)
        have dat: "length (m_dat ?n) = MLEN" using m_get_Some(3) [OF g] st by (simp add: store_ok_def)
        have ok1: "chain_ok st1 (pre @ m # post @ os)" using ok' same_mem_chain(1) [OF same_mem_get [OF g]] by simp
        from d have len: "len \<le> m_len m" by simp
        have "split_post st1 (pre @ m # post) os (chain_len pre + len) st' hs ts \<and> ts \<noteq> []"
          using m_split_at_correct [OF ok1 len n(1) dat _ room at] n(2) by simp
        then show ?thesis
          using s hd False g at d split_post_same [OF same_mem_get [OF g]] by (simp add: m_split.simps)
      qed
    qed
  qed
qed

text \<open>The header mbuf of the second half.\<close>

lemma split_hdr_alloc:
  assumes g: "m_gethdr st wait t = (Some n0, st1)" and hd: "is_pkthdr m0" "tags_fit (ph_tags (m_pkthdr m0))"
    and st: "store_ok st"
  shows "\<exists>ok st2 n. m_dup_pkthdr st1 n0 m0 wait = Inr (ok, st2, n) \<and> same_mem st st2 \<and> (wait \<longrightarrow> ok)
    \<and> is_pkthdr n \<and> \<not> is_ext n \<and> length (m_dat n) = MLEN \<and> m_len n = m_len (mb_junk st)
    \<and> (ok \<longrightarrow> m_data n = m_pktdat \<and> ph_len (m_pkthdr n) = ph_len (m_pkthdr m0)
        \<and> ph_tags (m_pkthdr n) = ph_tags (m_pkthdr m0))"
proof -
  note g1 = m_gethdr_Some [OF g]
  obtain ok k n where d: "m_dup_pkthdr st1 n0 m0 wait = Inr (ok, st1\<lparr>tag_avail := k\<rparr>, n)"
    "(wait \<longrightarrow> ok) \<and> is_pkthdr n \<and> \<not> is_ext n \<and> m_dat n = m_dat n0 \<and> m_len n = m_len n0 \<and> zeroize n = zeroize m0
    \<and> (ok \<longrightarrow> m_data n = m_pktdat \<and> ph_len (m_pkthdr n) = ph_len (m_pkthdr m0)
        \<and> ph_tags (m_pkthdr n) = ph_tags (m_pkthdr m0))"
    using m_dup_pkthdr_correct [OF hd g1(3), of st1 wait] by (elim exE conjE) (rule that, auto)
  have "same_mem st (st1\<lparr>tag_avail := k\<rparr>)"
    using same_mem_trans [OF same_mem_gethdr [OF g] same_mem_tags] .
  then show ?thesis using d g1 st
    by (intro exI [of _ ok] exI [of _ "st1\<lparr>tag_avail := k\<rparr>"] exI [of _ n]) (simp add: store_ok_def)
qed

lemma m_free_own:
  assumes "\<not> is_ext n"
  shows "same_mem st (fst (m_free st [n]))"
proof -
  have "is_ext (snd (m_zero s n)) = is_ext n" "fst (m_zero s n) = s" for s
    using assms by (simp_all add: m_zero_def is_ext_def)
  then show ?thesis
    using assms by (simp add: m_free.simps same_mem_def store_ok_def count_mtype_def Let_def split_beta
        m_tag_delete_chain_effect) (simp add: m_tag_delete_chain_def Let_def)
qed

lemma m_freem_own: "\<not> is_ext n \<Longrightarrow> same_mem st (m_freem st [n])"
  using m_free_own [of n st] length_m_free [of st "[n]"]
  by (simp add: m_freem.simps [of st "[n]"] m_freem.simps split_beta)

text \<open>Setting the length in the header of the first half.\<close>

lemma set_pktlen_last:
  assumes "set_pktlen (pre @ [m]) f = pre' @ [m']"
  shows "length pre' = length pre" "chain_bytes st pre' = chain_bytes st pre" "chain_len pre' = chain_len pre"
    "m_bytes st m' = m_bytes st m" "m_len m' = m_len m" "is_ext m' = is_ext m" "is_pkthdr m' = is_pkthdr m"
    "chain_ok st (pre' @ m' # xs) = chain_ok st (pre @ m # xs)"
    "is_pkthdr (hd (pre @ [m])) \<Longrightarrow> is_pkthdr (hd (pre' @ [m']))
       \<and> ph_len (m_pkthdr (hd (pre' @ [m']))) = f (ph_len (m_pkthdr (hd (pre @ [m]))))"
proof -
  have o: "chain_ok st (pre' @ m' # xs) = chain_ok st (pre @ m # xs)"
    using chain_ok_set_pktlen [of st "pre @ [m]" f xs] by (simp add: assms)
  have "length pre' = length pre \<and> chain_bytes st pre' = chain_bytes st pre \<and> chain_len pre' = chain_len pre
    \<and> m_bytes st m' = m_bytes st m \<and> m_len m' = m_len m \<and> is_ext m' = is_ext m \<and> is_pkthdr m' = is_pkthdr m
    \<and> (is_pkthdr (hd (pre @ [m])) \<longrightarrow> is_pkthdr (hd (pre' @ [m']))
       \<and> ph_len (m_pkthdr (hd (pre' @ [m']))) = f (ph_len (m_pkthdr (hd (pre @ [m])))))"
    using assms by (cases pre) (auto simp: set_pktlen_def is_ext_def is_pkthdr_def Cons_eq_append_conv split: if_splits)
  then show "length pre' = length pre" "chain_bytes st pre' = chain_bytes st pre" "chain_len pre' = chain_len pre"
    "m_bytes st m' = m_bytes st m" "m_len m' = m_len m" "is_ext m' = is_ext m" "is_pkthdr m' = is_pkthdr m"
    "is_pkthdr (hd (pre @ [m])) \<Longrightarrow> is_pkthdr (hd (pre' @ [m']))
       \<and> ph_len (m_pkthdr (hd (pre' @ [m']))) = f (ph_len (m_pkthdr (hd (pre @ [m]))))" by auto
  show "chain_ok st (pre' @ m' # xs) = chain_ok st (pre @ m # xs)" by (fact o)
qed

lemma pkt_ok_bytes:
  "ms \<noteq> [] \<Longrightarrow> wf_chain st ms \<Longrightarrow> (is_pkthdr (hd ms) \<Longrightarrow> ph_len (m_pkthdr (hd ms)) = int (length (chain_bytes st ms))) \<Longrightarrow>
   pkt_ok ms"
  by (simp add: pkt_ok_def length_chain_bytes)

text \<open>
  The part of \<^verbatim>\<open>m_split\<close> after the header of the second half is made.  It fails only where
  the inner split does.
\<close>

lemma m_split_hdr_inner:
  assumes ok: "chain_ok st (pre @ m # post @ os)" and m: "\<not> is_ext m" "MHLEN < m_len m - len" "len \<le> m_len m"
    and n: "\<not> is_ext n" "length (m_dat n) = MLEN" "m_data n = m_pktdat" "m_len n = 0" "is_pkthdr n"
    and st: "store_ok st"
  shows "\<exists>st' hs ts. m_split st (m # post) len wait = Some (Inr (st', hs, ts))
     \<and> (ts = [] \<and> hs = m # post \<and> same_mem st st'
        \<or> split_post st (pre @ m # post) os (chain_len pre + len) st' (pre @ hs) (adv_data n (align_down MHLEN) # ts))
     \<and> (wait \<longrightarrow> ts \<noteq> [])"
proof -
  have wf: "wf_mbuf st m" "wf_chain st pre" using ok by (simp_all add: chain_ok_def)
  then have nh: "\<not> is_pkthdr m" using m by (auto simp: wf_mbuf_def m_buf_def msize_facts)
  have "chain_ok st ((m # post) @ pre @ os)"
    using ok by (subst chain_ok_perm [of _ "pre @ m # post @ os"]) auto
  from m_split_plain [OF this _ _ st, of len wait] nh obtain st' hs ts where
    s: "m_split st (m # post) len wait = Some (Inr (st', hs, ts))"
    "ts = [] \<and> hs = m # post \<and> same_mem st st' \<or> split_post st (m # post) (pre @ os) len st' hs ts"
    "wait \<and> len < chain_len (m # post) \<longrightarrow> ts \<noteq> []" by (auto simp del: chain_len_simps)
  let ?n = "adv_data n (align_down MHLEN)"
  have "split_post st (pre @ m # post) os (chain_len pre + len) st' (pre @ hs) (?n # ts)"
    if p: "split_post st (m # post) (pre @ os) len st' hs ts"
  proof -
    have "wf_mbuf st' ?n"
      using n align_down_le [of MHLEN] by (simp add: wf_mbuf_def m_buf_def msize_facts)
    then have "chain_ok st' (?n # hs @ ts @ pre @ os)" using p chain_ok_new [of st' "hs @ ts @ pre @ os" st' ?n] n(1) by (simp add: split_post_def)
    then have "chain_ok st' ((pre @ hs) @ (?n # ts) @ os)"
      by (subst chain_ok_perm [of _ "?n # hs @ ts @ pre @ os"]) auto
    moreover have "chain_bytes st' pre = chain_bytes st pre" using p by (intro chain_bytes_cong) (simp add: split_post_def)
    moreover have "m_bytes st' ?n = []" using n(4) by (simp add: m_bytes_def mem_read_def)
    ultimately show ?thesis using p length_chain_bytes [OF wf(2)] by (simp add: split_post_def)
  qed
  then show ?thesis using s m by (intro exI [of _ st'] exI [of _ hs] exI [of _ ts]) auto
qed

lemma split_post_move:
  assumes "split_post st (pre' @ m' # post) os l st' hs ts" "chain_bytes st pre' = chain_bytes st pre"
    "m_bytes st m' = m_bytes st m"
  shows "split_post st (pre @ m # post) os l st' hs ts"
  using assms by (simp add: split_post_def)

text \<open>
  \<^verbatim>\<open>m_split\<close> as a whole.  Either it fails and the chain keeps its bytes and its length, or it
  gives the two parts, with their lengths in the headers.  The length field of a recycled mbuf
  must be zero: in one branch the header of the second part is left with what it finds there.
\<close>

definition split_result :: "mstore \<Rightarrow> mbuf list \<Rightarrow> mbuf list \<Rightarrow> nat \<Rightarrow> bool \<Rightarrow> mstore \<Rightarrow> mbuf list \<Rightarrow> mbuf list \<Rightarrow> bool" where
  "split_result st ms os l wait st' hs ts \<longleftrightarrow>
     (ts = [] \<and> chain_ok st' (hs @ os) \<and> ext_mem st' = ext_mem st \<and> chain_bytes st' hs = chain_bytes st ms \<and> pkt_ok hs
      \<or> split_post st ms os l st' hs ts \<and> pkt_ok hs \<and> (ts \<noteq> [] \<longrightarrow> pkt_ok ts))
     \<and> (wait \<and> l < chain_len ms \<longrightarrow> ts \<noteq> [])"

lemma split_result_hdr:
  assumes p: "split_post st ms os l st' hs ts" and pk: "pkt_ok ms" "is_pkthdr (hd ms)" and l: "l \<le> chain_len ms"
    and wf: "wf_chain st ms" and ts: "ts \<noteq> []"
    and hh: "ph_len (m_pkthdr (hd hs)) = int l" and ht: "ph_len (m_pkthdr (hd ts)) = ph_len (m_pkthdr (hd ms)) - int l"
  shows "split_result st ms os l wait st' hs ts"
proof -
  have "wf_chain st' (hs @ ts)" using p by (simp add: split_post_def chain_ok_def)
  then have "pkt_ok hs" "pkt_ok ts"
    using p hh ht ts pk l length_chain_bytes [OF wf]
    by (auto intro!: pkt_ok_bytes [of _ st'] simp: split_post_def pkt_ok_def [of ms])
  then show ?thesis using p ts by (simp add: split_result_def)
qed

lemma hd_append_last: "hd (xs @ [y]) = z \<Longrightarrow> ys \<noteq> [] \<Longrightarrow> (xs = [] \<Longrightarrow> hd ys = y) \<Longrightarrow> hd (xs @ ys) = z"
  by (cases xs) auto

lemma split_hdr_at:
  assumes ok: "chain_ok st (ms @ os)" and pk: "pkt_ok ms" "is_pkthdr (hd ms)"
    and ms: "ms = pre @ m # post" and l: "l = chain_len pre + len" "len \<le> m_len m"
    and s: "set_pktlen (pre @ [m]) (\<lambda>_. int l) = pre' @ [m']"
    and n: "\<not> is_ext n" "length (m_dat n) = MLEN" "m_pktdat \<le> m_data n" "is_pkthdr n"
      "ph_len (m_pkthdr n) = ph_len (m_pkthdr (hd ms)) - int l"
    and room: "is_ext m \<or> m_data n + (m_len m - len) \<le> MLEN"
    and r: "m_split_at st pre' m' post len n = (st', hs, ts)"
  shows "split_result st ms os l wait st' hs ts"
proof -
  note p = set_pktlen_last [OF s]
  have hd: "hd (pre @ [m]) = hd ms" by (cases pre) (simp_all add: ms)
  have ok': "chain_ok st (pre' @ m' # post @ os)" using ok p(8) by (simp add: ms)
  have len: "len \<le> m_len m'" and room': "is_ext m' \<or> m_data n + (m_len m' - len) \<le> MLEN"
    and np: "is_pkthdr n \<longrightarrow> m_pktdat \<le> m_data n"
    using l room p n by simp_all
  note a = m_split_at_correct [OF ok' len n(1,2) np room' r]
  have "split_post st ms os l st' hs ts"
    using split_post_move [OF a(1) p(2,4)] p(3) l by (simp add: ms)
  moreover have "m_pkthdr (hd hs) = m_pkthdr (hd (pre' @ [m']))" unfolding a(2) by (cases pre') simp_all
  ultimately show ?thesis
    using p(9) pk hd a(4,6) n(5) ok l by (intro split_result_hdr) (auto simp: chain_ok_def ms)
qed

lemma split_hdr_rec:
  assumes ok: "chain_ok st (ms @ os)" and pk: "pkt_ok ms" "is_pkthdr (hd ms)" and st: "store_ok st"
    and ms: "ms = pre @ m # post" and l: "l = chain_len pre + len" "len \<le> m_len m"
    and s: "set_pktlen (pre @ [m]) (\<lambda>_. int l) = pre' @ [m']"
    and n: "\<not> is_ext n" "length (m_dat n) = MLEN" "m_data n = m_pktdat" "is_pkthdr n" "m_len n = 0"
      "ph_len (m_pkthdr n) = ph_len (m_pkthdr (hd ms)) - int l"
    and m: "\<not> is_ext m" "MHLEN < m_len m - len"
  defines "n2 \<equiv> adv_data n (align_down MHLEN)"
  shows "\<exists>st' hs ts. m_split st (m' # post) len wait = Some (Inr (st', hs, ts))
    \<and> (if ts = [] then split_result st ms os l wait (fst (m_free st' [n2]))
           (set_pktlen (pre' @ hs) (\<lambda>_. ph_len (m_pkthdr (hd ms)))) []
       else split_result st ms os l wait st' (pre' @ hs) (n2 # ts))"
proof -
  note p = set_pktlen_last [OF s]
  have hd: "hd (pre @ [m]) = hd ms" by (cases pre) (simp_all add: ms)
  have wf: "wf_mbuf st m" using ok by (simp add: chain_ok_def ms)
  then have "\<not> is_pkthdr m" using m by (auto simp: wf_mbuf_def m_buf_def msize_facts)
  then have "pre \<noteq> []" using pk(2) by (auto simp: ms)
  then have pre: "pre' \<noteq> []" using p(1) by auto
  have ok': "chain_ok st (pre' @ m' # post @ os)" using ok p(8) by (simp add: ms)
  have m': "\<not> is_ext m'" "MHLEN < m_len m' - len" "len \<le> m_len m'" using m l p by simp_all
  obtain st' hs ts where r: "m_split st (m' # post) len wait = Some (Inr (st', hs, ts))"
    and c: "ts = [] \<and> hs = m' # post \<and> same_mem st st'
      \<or> split_post st (pre' @ m' # post) os (chain_len pre' + len) st' (pre' @ hs) (n2 # ts)" and w: "wait \<longrightarrow> ts \<noteq> []"
    using m_split_hdr_inner [OF ok' m' n(1-3) n(5,4) st, of wait, folded n2_def] by (elim exE conjE) (rule that)
  show ?thesis
  proof (intro exI conjI)
    show "m_split st (m' # post) len wait = Some (Inr (st', hs, ts))" by (fact r)
    show "if ts = [] then split_result st ms os l wait (fst (m_free st' [n2]))
           (set_pktlen (pre' @ hs) (\<lambda>_. ph_len (m_pkthdr (hd ms)))) []
       else split_result st ms os l wait st' (pre' @ hs) (n2 # ts)"
    proof (cases "ts = []")
      case True
      have "chain_bytes st' ts' \<noteq> []" if "split_post st (pre' @ m' # post) os (chain_len pre' + len) st' hs' ts'" for hs' ts'
        using that m' length_m_bytes [of st m'] ok' by (auto simp: split_post_def chain_ok_def length_chain_bytes)
      moreover have "chain_bytes st' [n2] = []" using n(5) by (simp add: n2_def m_bytes_def mem_read_def)
      ultimately have h: "hs = m' # post" and sm: "same_mem st st'" using c True by blast+
      have "same_mem st (fst (m_free st' [n2]))" using same_mem_trans [OF sm m_free_own] n(1) by (simp add: n2_def)
      note sm = this same_mem_chain [OF this]
      have "chain_len (pre' @ m' # post) = chain_len ms" using p(3,5) by (simp add: ms)
      then have "pkt_ok (set_pktlen (pre' @ hs) (\<lambda>_. ph_len (m_pkthdr (hd ms))))"
        using pk pre by (intro pkt_ok_set_pktlen) (simp_all add: pkt_ok_def h)
      then show ?thesis
        using True w sm ok' p(2,4) by (simp add: split_result_def h chain_ok_set_pktlen ms same_mem_def)
    next
      case False
      then have "split_post st (pre' @ m' # post) os l st' (pre' @ hs) (n2 # ts)" using c l(1) p(3) by simp
      from split_post_move [OF this p(2,4)] have "split_post st ms os l st' (pre' @ hs) (n2 # ts)" by (simp add: ms)
      moreover have "m_pkthdr (hd (pre' @ hs)) = m_pkthdr (hd (pre' @ [m']))" using pre by simp
      ultimately have "split_result st ms os l wait st' (pre' @ hs) (n2 # ts)"
        using p(9) pk hd n(6) ok l by (intro split_result_hdr) (auto simp: chain_ok_def ms n2_def)
      then show ?thesis using False by simp
    qed
  qed
qed

lemma split_result_same: "same_mem st st2 \<Longrightarrow> split_result st2 ms os l wait st' hs ts \<Longrightarrow> split_result st ms os l wait st' hs ts"
  using split_post_same [of st st2] same_mem_chain(2) [of st st2] by (auto simp: split_result_def same_mem_def)

lemma m_split_hdr_ok:
  assumes ok: "chain_ok st2 (ms @ os)" and pk: "pkt_ok ms" "is_pkthdr (hd ms)" and st: "store_ok st2"
    and s: "m_seek ms l = Some (pre, m, post, len)"
    and g: "m_gethdr st wait (m_type (hd ms)) = (Some n0, st1)"
    and a: "m_dup_pkthdr st1 n0 (hd ms) wait = Inr (True, st2, n)"
    and n: "is_pkthdr n" "\<not> is_ext n" "length (m_dat n) = MLEN" "m_len n = 0" "m_data n = m_pktdat"
      "ph_len (m_pkthdr n) = ph_len (m_pkthdr (hd ms))"
  shows "\<exists>st' hs ts. m_split st ms l wait = Some (Inr (st', hs, ts)) \<and> split_result st2 ms os l wait st' hs ts"
proof -
  note d = m_seek_Some [OF s]
  let ?n = "hd (set_pktlen [n] (\<lambda>x. x - int l))"
  have n': "\<not> is_ext ?n" "length (m_dat ?n) = MLEN" "m_data ?n = m_pktdat" "is_pkthdr ?n" "m_len ?n = 0"
    "ph_len (m_pkthdr ?n) = ph_len (m_pkthdr (hd ms)) - int l"
    using n by (simp_all add: set_pktlen_def is_ext_def is_pkthdr_def)
  obtain pre' m' where sp: "set_pktlen (pre @ [m]) (\<lambda>_. int l) = pre' @ [m']"
    by (metis append_butlast_last_id set_pktlen_simps(4) snoc_eq_iff_butlast)
  note p = set_pktlen_last [OF sp]
  have eq: "m_split st ms l wait =
      (if is_ext m' then Some (Inr (m_split_at st2 pre' m' post len ?n))
       else if m_len m' - len > MHLEN then
         Option.bind (m_split st2 (m' # post) len wait) (\<lambda>r. case r of Inl e \<Rightarrow> Some (Inl e)
           | Inr (st, hs, ts) \<Rightarrow>
               if ts = [] then Some (Inr (fst (m_free st [adv_data ?n (align_down MHLEN)]),
                    set_pktlen (pre' @ hs) (\<lambda>_. ph_len (m_pkthdr (hd ms))), []))
               else Some (Inr (st, pre' @ hs, adv_data ?n (align_down MHLEN) # ts)))
       else Some (Inr (m_split_at st2 pre' m' post len (adv_data ?n (align_down (MHLEN - (m_len m' - len)))))))"
    by (subst m_split.simps, simp add: s g a pk(2) Let_def, unfold sp butlast_snoc last_snoc, simp)
  have ms: "ms = pre @ m # post" "l = chain_len pre + len" "len \<le> m_len m" using d by simp_all
  note at = split_hdr_at [OF ok pk ms sp, where wait = wait]
  consider "is_ext m'" | "\<not> is_ext m'" "m_len m' - len > MHLEN" | "\<not> is_ext m'" "m_len m' - len \<le> MHLEN" by linarith
  then show ?thesis
  proof cases
    case 1
    obtain st' hs ts where r: "m_split_at st2 pre' m' post len ?n = (st', hs, ts)" by (metis prod_cases3)
    from at [OF n'(1,2) _ n'(4,6) _ r] show ?thesis using 1 r n'(3) p(6) eq by simp
  next
    case 2
    from split_hdr_rec [OF ok pk st ms sp n', of wait] obtain st' hs ts where
      r: "m_split st2 (m' # post) len wait = Some (Inr (st', hs, ts))"
      "if ts = [] then split_result st2 ms os l wait (fst (m_free st' [adv_data ?n (align_down MHLEN)]))
           (set_pktlen (pre' @ hs) (\<lambda>_. ph_len (m_pkthdr (hd ms)))) []
       else split_result st2 ms os l wait st' (pre' @ hs) (adv_data ?n (align_down MHLEN) # ts)"
      using 2 p(5,6) by auto
    then show ?thesis using 2 eq by (cases "ts = []") simp_all
  next
    case 3
    let ?n2 = "adv_data ?n (align_down (MHLEN - (m_len m' - len)))"
    obtain st' hs ts where r: "m_split_at st2 pre' m' post len ?n2 = (st', hs, ts)" by (metis prod_cases3)
    have "m_data ?n2 + (m_len m - len) \<le> MLEN"
      using align_down_le [of "MHLEN - (m_len m' - len)"] 3(2) n'(3) p(5) by (simp add: msize_facts)
    then show ?thesis using at [of ?n2, OF _ _ _ _ _ _ r] 3 r n' eq by simp
  qed
qed

lemma m_split_hdr:
  assumes ok: "chain_ok st (ms @ os)" and pk: "pkt_ok ms" "is_pkthdr (hd ms)" and st: "store_ok st"
    and tags: "tags_fit (ph_tags (m_pkthdr (hd ms)))" and junk: "m_len (mb_junk st) = 0"
  shows "\<exists>st' hs ts. m_split st ms l wait = Some (Inr (st', hs, ts)) \<and> split_result st ms os l wait st' hs ts"
proof -
  have ne: "ms \<noteq> []" and wf: "wf_chain st ms" using pk(1) ok by (simp_all add: pkt_ok_def chain_ok_def)
  have failed: "split_result st ms os l wait st' ms []" if "same_mem st st'" "\<not> wait \<or> chain_len ms \<le> l" for st'
    using that ok pk(1) same_mem_chain [OF that(1)] by (auto simp: split_result_def same_mem_def)
  show ?thesis
  proof (cases "m_seek ms l")
    case None
    then show ?thesis using failed [of st] m_seek_None [of ms l] ne by (simp add: m_split.simps same_mem_def)
  next
    case (Some q)
    then obtain pre m post len where s: "m_seek ms l = Some (pre, m, post, len)" by (cases q) auto
    note d = m_seek_Some [OF s]
    then have le: "l \<le> chain_len ms" by simp
    obtain no st1 where g: "m_gethdr st wait (m_type (hd ms)) = (no, st1)" by fastforce
    show ?thesis
    proof (cases no)
      case None
      then show ?thesis using s pk(2) g failed [of st] m_gethdr_None [of st wait "m_type (hd ms)" st1]
        by (simp add: m_split.simps same_mem_def)
    next
      case (Some n0)
      from split_hdr_alloc [OF g [unfolded Some] pk(2) tags st] obtain okf st2 n where
        a: "m_dup_pkthdr st1 n0 (hd ms) wait = Inr (okf, st2, n)" and sm: "same_mem st st2" and w: "wait \<longrightarrow> okf"
        and n: "is_pkthdr n" "\<not> is_ext n" "length (m_dat n) = MLEN" "m_len n = m_len (mb_junk st)"
        and h: "okf \<longrightarrow> m_data n = m_pktdat \<and> ph_len (m_pkthdr n) = ph_len (m_pkthdr (hd ms))
          \<and> ph_tags (m_pkthdr n) = ph_tags (m_pkthdr (hd ms))"
        by (elim exE conjE) (rule that)
      show ?thesis
      proof (cases okf)
        case False
        then show ?thesis
          using s pk(2) g Some a w failed [OF same_mem_trans [OF sm m_freem_own [OF n(2)]]]
          by (simp add: m_split.simps)
      next
        case True
        have ok2: "chain_ok st2 (ms @ os)" "store_ok st2" using ok st sm same_mem_chain(1) [OF sm] by (simp_all add: same_mem_def)
        from a True h n junk show ?thesis
          using m_split_hdr_ok [OF ok2(1) pk ok2(2) s g [unfolded Some]] split_result_same [OF sm] by fastforce
      qed
    qed
  qed
qed

text \<open>In the recursive branch the header of the second part keeps the length it was recycled with.\<close>

lemma m_split_stale_length:
  assumes pk: "is_pkthdr (hd ms)" "tags_fit (ph_tags (m_pkthdr (hd ms)))" and st: "store_ok st"
    and s: "m_seek ms l = Some (pre, m, post, len)" and m: "\<not> is_ext m" "MHLEN < m_len m - len"
    and r: "m_split st ms l wait = Some (Inr (st', hs, ts))" "ts \<noteq> []"
  shows "m_len (hd ts) = m_len (mb_junk st)"
proof -
  obtain no st1 where g: "m_gethdr st wait (m_type (hd ms)) = (no, st1)" by fastforce
  obtain n0 where no: "no = Some n0" using r s g pk(1) by (cases no) (auto simp: m_split.simps)
  obtain ok st2 n where a: "m_dup_pkthdr st1 n0 (hd ms) wait = Inr (ok, st2, n)" "m_len n = m_len (mb_junk st)"
    using split_hdr_alloc [OF g [unfolded no] pk st] by auto
  have ok: "ok" using r s g no a(1) pk(1) by (cases ok) (auto simp: m_split.simps)
  let ?hs = "set_pktlen (pre @ [m]) (\<lambda>_. int l)"
  obtain pre' m' where sp: "?hs = pre' @ [m']"
    by (metis append_butlast_last_id set_pktlen_simps(4) snoc_eq_iff_butlast)
  note p = set_pktlen_last [OF sp]
  have m': "\<not> is_ext m'" "MHLEN < m_len m' - len" using m p(5,6) by simp_all
  have "m_len (hd (set_pktlen [n] f)) = m_len n" for f by (simp add: set_pktlen_def)
  then show ?thesis
    using r m' unfolding m_split.simps [of st ms l wait]
    by (auto simp: s g no a ok pk(1) sp Let_def bind_eq_Some_conv split: sum.splits if_splits)
      (metis adv_data_simps(6) list.sel(1) prod_cases3 sumE)
qed

subsection \<open>Copying a chain\<close>

text \<open>The buffers in use keep their contents and stay in use.\<close>

definition keeps :: "mstore \<Rightarrow> mstore \<Rightarrow> bool" where
  "keeps st st' \<longleftrightarrow> (\<forall>i. 0 < ext_ref st i \<longrightarrow> ext_mem st' i = ext_mem st i \<and> 0 < ext_ref st' i)"

lemma keeps_refl: "keeps st st"
  by (simp add: keeps_def)

lemma keeps_trans: "keeps a b \<Longrightarrow> keeps b c \<Longrightarrow> keeps a c"
  by (simp add: keeps_def)

lemma keeps_same: "same_mem st st' \<Longrightarrow> keeps st st'"
  by (simp add: same_mem_def keeps_def)

lemma keeps_bytes:
  assumes "keeps st st'"
  shows "wf_mbuf st m \<Longrightarrow> m_bytes st' m = m_bytes st m" "wf_chain st ms \<Longrightarrow> chain_bytes st' ms = chain_bytes st ms"
proof -
  show m: "m_bytes st' m = m_bytes st m" if "wf_mbuf st m" for m
    using assms that by (intro m_bytes_cong) (simp add: keeps_def wf_mbuf_def)
  show "wf_chain st ms \<Longrightarrow> chain_bytes st' ms = chain_bytes st ms"
    by (induction ms) (simp_all add: m)
qed

lemma chain_ok_split:
  assumes "m \<in> set xs"
  obtains ys where "set xs = insert m (set ys)" "\<And>i. refs i xs = refs i (m # ys)"
proof -
  from assms obtain as bs where "xs = as @ m # bs" by (meson split_list)
  then show ?thesis by (intro that [of "as @ bs"]) auto
qed

text \<open>What \<open>n\<close> looks like after a step of the copy.\<close>

definition piece_post :: "mstore \<Rightarrow> mbuf \<Rightarrow> mbuf \<Rightarrow> mbuf list \<Rightarrow> nat \<Rightarrow> nat \<Rightarrow> bool \<Rightarrow> mstore \<Rightarrow> mbuf \<Rightarrow> bool" where
  "piece_post st m n xs off len deep st' n' \<longleftrightarrow>
     chain_ok st' (n' # xs) \<and> keeps st st' \<and> store_ok st'
     \<and> m_bytes st' n' = take (m_len n') (drop off (m_bytes st m)) \<and> m_len n' \<le> min len (m_len m - off)
     \<and> (m_len n' = min len (m_len m - off) \<or> deep \<and> is_ext m \<and> 0 < m_len n')
     \<and> is_pkthdr n' = is_pkthdr n \<and> m_pkthdr n' = m_pkthdr n"

lemma copym_share:
  assumes ok: "chain_ok st xs" and m: "m \<in> set xs" "is_ext m" and off: "off \<le> m_len m" and st: "store_ok st"
    and n: "\<not> is_ext n" "length (m_dat n) = MLEN"
  shows "\<exists>st' n'. copym_piece st m n off len wait False = Inr (st', n') \<and> piece_post st m n xs off len False st' n'"
proof -
  let ?k = "min len (m_len m - off)"
  obtain ys where ys: "set xs = insert m (set ys)" "\<And>i. refs i xs = refs i (m # ys)"
    using chain_ok_split [OF m(1)] by blast
  have ok1: "chain_ok st (m # ys)" using ok ys by (subst chain_ok_perm [of _ xs]) auto
  let ?n = "n\<lparr>m_len := ?k, m_data := m_data m + off\<rparr>"
  have n1: "\<not> is_ext ?n" "length (m_dat ?n) = MLEN" using n by (simp_all add: is_ext_def)
  obtain st' n' where e: "m_extref st m (?n\<lparr>m_ext := m_ext m\<rparr>) = (st', n')" by (cases "m_extref st m (?n\<lparr>m_ext := m_ext m\<rparr>)")
  have same: "n'\<lparr>m_data := m_data m + off, m_len := ?k\<rparr> = n'" using e by (auto simp: m_extref_def)
  have l: "off + ?k \<le> m_len m" using off by simp
  note x = m_extref_chain [OF ok1 m(2) n1 e l, unfolded same]
  have "chain_ok st' (n' # xs)" using x(1) ys by (subst chain_ok_perm [of _ "n' # m # ys"]) auto
  moreover have "m_len n' = ?k" using e by (auto simp: m_extref_def)
  moreover have "keeps st st'" using e by (auto simp: m_extref_def keeps_def)
  ultimately have "piece_post st m n xs off len False st' n'"
    using x st by (simp add: piece_post_def is_pkthdr_def)
  moreover have "copym_piece st m n off len wait False = Inr (st', n')" using e m(2) by (simp add: copym_piece_def Let_def)
  ultimately show ?thesis by blast
qed

lemma copym_own:
  assumes ok: "chain_ok st xs" and m: "m \<in> set xs" "\<not> is_ext m" and off: "off \<le> m_len m" and st: "store_ok st"
    and n: "\<not> is_ext n" "length (m_dat n) = MLEN" "is_pkthdr n \<longrightarrow> m_pktdat \<le> m_data n"
    and room: "m_data n + min len (m_len m - off) \<le> MLEN"
  shows "\<exists>st' n'. copym_piece st m n off len wait deep = Inr (st', n') \<and> piece_post st m n xs off len deep st' n'"
proof -
  let ?k = "min len (m_len m - off)" and ?n = "n\<lparr>m_len := min len (m_len m - off)\<rparr>"
  have wf: "wf_mbuf st m" using ok m(1) by (simp add: chain_ok_def list_all_iff)
  let ?ys = "mem_read (m_buf st m) (m_data m + off) ?k"
  have ys: "?ys = take ?k (drop off (m_bytes st m))" "length ?ys = ?k"
    using mem_read_bytes [of off ?k m st] off wf by simp_all
  obtain st' n' where w: "mb_write st ?n 0 ?ys = (st', n')" by (cases "mb_write st ?n 0 ?ys")
  have n1: "\<not> is_ext ?n" "m_data ?n + length ?ys \<le> MLEN" "length (m_dat ?n) = MLEN"
    using n room ys(2) by (simp_all add: is_ext_def)
  have l: "n'\<lparr>m_len := ?k\<rparr> = n'" using w n1(1) by (auto simp: mb_write_def)
  note x = mb_write_own [OF n1(1,2,3) w, unfolded ys(2) l]
  have "m_len n' = ?k" using l by (metis mbuf.simps(4) mbuf.select_convs(4) mbuf.surjective mbuf.update_convs(4))
  moreover from this have "wf_mbuf st n'" using x n room by (simp add: wf_mbuf_def m_buf_def is_pkthdr_def)
  then have "chain_ok st (n' # xs)" using chain_ok_new [OF ok] x(2) by simp
  ultimately have "piece_post st m n xs off len deep st' n'"
    using x st ys(1) by (simp add: piece_post_def keeps_refl is_pkthdr_def)
  moreover have "copym_piece st m n off len wait deep = Inr (st', n')" using w m(2) by (simp add: copym_piece_def Let_def)
  ultimately show ?thesis by blast
qed

lemma MCLBYTES_pool: "m_clpool MCLBYTES \<noteq> None"
  by (simp add: m_clpool_None MAXMCLBYTES_def MCLBYTES_def)

lemma mclgeti_keeps:
  assumes "mclgeti st m how len = Inr (st', m')" "store_ok st"
  shows "keeps st st'" "m_pkthdr m' = m_pkthdr m"
  using assms by (auto simp: mclgeti_eq mextadd_def Let_def keeps_def store_ok_def split: option.splits if_splits)

lemma copym_deep:
  assumes ok: "chain_ok st xs" and m: "m \<in> set xs" "is_ext m" and off: "off \<le> m_len m" and len: "0 < len"
    and st: "store_ok st" and n: "\<not> is_ext n" "length (m_dat n) = MLEN" "m_data n = (if is_pkthdr n then m_pktdat else 0)"
  shows "\<exists>st' n'. copym_piece st m n off len wait True = Inr (st', n') \<and> piece_post st m n xs off len True st' n'"
proof -
  let ?n0 = "n\<lparr>m_len := min len (m_len m - off)\<rparr>"
  have n0: "\<not> is_ext ?n0" "length (m_dat ?n0) = MLEN" "is_pkthdr ?n0 = is_pkthdr n" using n by (simp_all add: is_ext_def is_pkthdr_def)
  obtain s1 n1 where c: "mclgeti st ?n0 wait MCLBYTES = Inr (s1, n1)"
    using MCLBYTES_pool by (auto simp: mclgeti_eq split: option.splits) (metis surj_pair)
  let ?z = "n1\<lparr>m_len := 0\<rparr>"
  have fresh: "chain_ok s1 (?z # xs) \<and> \<not> M_READONLY s1 ?z \<and> store_ok s1 \<and> 0 < nat (m_trailingspace s1 ?z)
      \<and> is_pkthdr n1 = is_pkthdr n"
  proof (cases "is_ext n1")
    case True
    note x = mclgeti_new [OF c True n0(1) st n0(2) ok]
    have "is_ext ?z" using True by (simp add: is_ext_def)
    then show ?thesis using x n0(3) True
      by (auto simp: M_READONLY_def MCLISREFERENCED_def is_ext_def m_trailingspace_def m_buf_def MCLBYTES_def)
  next
    case False
    then have e: "n1 = ?n0" "s1 = st" using mclgeti_none [OF c] by simp_all
    have z: "\<not> is_ext ?z" "is_pkthdr ?z = is_pkthdr n" using n0 e by (simp_all add: is_ext_def is_pkthdr_def)
    then have "wf_mbuf st ?z" using n e by (simp add: wf_mbuf_def m_buf_def msize_facts)
    then show ?thesis using chain_ok_new [OF ok, of st ?z] z st e n n0(3)
      by (simp add: M_READONLY_def m_trailingspace_def msize_facts)
  qed
  define k where "k = min (min (nat (m_trailingspace s1 ?z)) len) (m_len m - off)"
  have kt: "int k \<le> m_trailingspace s1 ?z" using fresh by (simp add: k_def min_def) linarith
  have wf: "wf_mbuf st m" "wf_mbuf s1 m" "wf_mbuf s1 ?z" using ok m(1) fresh by (simp_all add: chain_ok_def list_all_iff)
  let ?ys = "mem_read (m_buf s1 m) (m_data m + off) k"
  have "m_bytes s1 m = m_bytes st m" using keeps_bytes(1) [OF mclgeti_keeps(1) [OF c st] wf(1)] .
  then have ys: "?ys = take k (drop off (m_bytes st m))" "length ?ys = k"
    using mem_read_bytes [of off k m s1] off wf by (simp_all add: k_def)
  obtain st' n' where w: "mb_write s1 ?z 0 ?ys = (st', n')" by (cases "mb_write s1 ?z 0 ?ys")
  have room: "m_data ?z + m_len ?z + length ?ys \<le> length (m_buf s1 ?z)"
    using trailing_room [OF wf(3), of k] fresh ys(2) kt by simp
  have w': "mb_write s1 ?z (m_len ?z) ?ys = (st', n')" using w by simp
  have ro: "\<not> M_READONLY s1 ?z" using fresh by simp
  note a = append_bytes [OF conjunct1 [OF fresh] ro w' room] and cw = chain_ok_write [OF conjunct1 [OF fresh] ro w' room]
  have z0: "mem_read (m_buf s1 n1) (m_data n1) 0 = []" by (simp add: mem_read_def)
  let ?n = "n'\<lparr>m_len := k\<rparr>"
  have "keeps s1 st' \<or> is_ext n1" using w by (auto simp: mb_write_def is_ext_def keeps_refl)
  then have kp: "keeps st st'"
  proof
    assume "is_ext n1"
    then have "m_ext n1 = ext_next st" using c n0(1) by (auto simp: mclgeti_eq mextadd_def Let_def split: option.splits if_splits)
    then have "ext_mem st' i = ext_mem s1 i \<and> ext_ref st' i = ext_ref s1 i" if "0 < ext_ref st i" for i
      using w that st by (auto simp: mb_write_def store_ok_def split: if_splits)
    then show ?thesis using mclgeti_keeps(1) [OF c st] by (simp add: keeps_def)
  qed (use keeps_trans mclgeti_keeps(1) [OF c st] in blast)
  have st': "store_ok st'" using w fresh by (auto simp: mb_write_def store_ok_def split: if_splits)
  have f: "is_pkthdr ?n = is_pkthdr n" "m_pkthdr ?n = m_pkthdr n" "m_len ?n = k"
    using cw fresh mclgeti_keeps(2) [OF c st] by (simp_all add: is_pkthdr_def)
  have "k \<le> min len (m_len m - off)" "k = min len (m_len m - off) \<or> 0 < k"
    using fresh len by (auto simp: k_def)
  moreover have "chain_ok st' (?n # xs)" "m_bytes st' ?n = take k (drop off (m_bytes st m))"
    using a(1,3) [unfolded ys(2)] ys(1) z0 by simp_all
  ultimately have "piece_post st m n xs off len True st' ?n" using kp st' f m(2) by (simp add: piece_post_def)
  moreover have "mb_write s1 (n1\<lparr>m_len := k\<rparr>) 0 ?ys = (st', ?n)" using w by (auto simp: mb_write_def is_ext_def split: if_splits)
  then have "copym_piece st m n off len wait True = Inr (st', ?n)" using c m(2) by (simp add: copym_piece_def Let_def k_def)
  ultimately show ?thesis by blast
qed

lemma copym_piece_correct:
  assumes ok: "chain_ok st xs" and m: "m \<in> set xs" and off: "off \<le> m_len m" and len: "0 < len"
    and st: "store_ok st" and n: "\<not> is_ext n" "length (m_dat n) = MLEN" "m_data n = (if is_pkthdr n then m_pktdat else 0)"
    and hdr: "is_pkthdr n \<longrightarrow> is_pkthdr m"
  shows "\<exists>st' n'. copym_piece st m n off len wait deep = Inr (st', n') \<and> piece_post st m n xs off len deep st' n'"
proof (cases "is_ext m")
  case True
  then show ?thesis
    using copym_share [OF ok m True off st n(1,2)] copym_deep [OF ok m True off len st n] by (cases deep) auto
next
  case False
  have "wf_mbuf st m" using ok m by (simp add: chain_ok_def list_all_iff)
  then have "m_data n + min len (m_len m - off) \<le> MLEN"
    using False n(3) hdr by (auto simp: wf_mbuf_def m_buf_def msize_facts min_def)
  then show ?thesis using copym_own [OF ok m False off st n(1,2)] n(3) by auto
qed

text \<open>The header of the copy.\<close>

lemma copym_hdr_correct:
  assumes g: "m_get st wait t = (Some n0, st1)" and st: "store_ok st"
    and hd: "copyhdr \<longrightarrow> is_pkthdr m0 \<and> tags_fit (ph_tags (m_pkthdr m0))"
  shows "\<exists>ok st2 n. copym_hdr st1 n0 m0 len wait copyhdr = Inr (ok, st2, n) \<and> same_mem st st2 \<and> (wait \<longrightarrow> ok)
    \<and> (ok \<longrightarrow> is_pkthdr n = copyhdr \<and> \<not> is_ext n \<and> length (m_dat n) = MLEN
        \<and> m_data n = (if is_pkthdr n then m_pktdat else 0)
        \<and> (copyhdr \<longrightarrow> ph_len (m_pkthdr n) = (if len = M_COPYALL then ph_len (m_pkthdr m0) else len)
            \<and> ph_tags (m_pkthdr n) = ph_tags (m_pkthdr m0)))"
proof -
  note g1 = m_get_Some [OF g]
  have n0: "\<not> is_ext n0" "\<not> is_pkthdr n0" using g1(2) by (simp_all add: flag_simps)
  have d: "length (m_dat n0) = MLEN" using g1(3) st by (simp add: store_ok_def)
  show ?thesis
  proof (cases copyhdr)
    case False
    then show ?thesis using n0 d g1(1) same_mem_get [OF g]
      by (intro exI [of _ True] exI [of _ st1] exI [of _ n0]) (simp add: copym_hdr_def)
  next
    case True
    obtain ok k n where a: "m_dup_pkthdr st1 n0 m0 wait = Inr (ok, st1\<lparr>tag_avail := k\<rparr>, n)"
      and n: "(wait \<longrightarrow> ok) \<and> is_pkthdr n \<and> \<not> is_ext n \<and> m_dat n = m_dat n0 \<and> m_len n = m_len n0 \<and> zeroize n = zeroize m0
        \<and> (ok \<longrightarrow> m_data n = m_pktdat \<and> ph_len (m_pkthdr n) = ph_len (m_pkthdr m0)
        \<and> ph_tags (m_pkthdr n) = ph_tags (m_pkthdr m0))"
      using m_dup_pkthdr_correct [OF hd [rule_format, OF True, THEN conjunct1] hd [rule_format, OF True, THEN conjunct2] n0(1), of st1 wait]
      by (elim exE conjE) (rule that, auto)
    have "same_mem st (st1\<lparr>tag_avail := k\<rparr>)" using same_mem_trans [OF same_mem_get [OF g] same_mem_tags] .
    then show ?thesis using True a n d
      by (intro exI [of _ ok] exI [of _ "st1\<lparr>tag_avail := k\<rparr>"]
          exI [of _ "if ok \<and> len \<noteq> M_COPYALL then hd (set_pktlen [n] (\<lambda>_. len)) else n"])
        (simp add: copym_hdr_def set_pktlen_def is_pkthdr_def is_ext_def)
  qed
qed

text \<open>
  The loop.  \<open>xs\<close> holds all mbufs in use besides the copy so far, \<open>acc\<close>.
\<close>

definition copy_len :: "mstore \<Rightarrow> mbuf list \<Rightarrow> nat \<Rightarrow> int \<Rightarrow> nat" where
  "copy_len st ms off len = (if len = M_COPYALL then chain_len ms - off else nat len)"

definition copied :: "mstore \<Rightarrow> mbuf list \<Rightarrow> u8 list \<Rightarrow> bool \<Rightarrow> mstore \<Rightarrow> mbuf list \<Rightarrow> bool" where
  "copied st xs bs wait st' ks \<longleftrightarrow>
     \<not> wait \<and> ks = [] \<or> chain_ok st' (ks @ xs) \<and> keeps st st' \<and> store_ok st' \<and> chain_bytes st' ks = bs"

text \<open>One turn of the loop: it fails for lack of memory, or goes on with one more mbuf in the copy.\<close>

definition copy_next :: "mbuf list \<Rightarrow> nat \<Rightarrow> mbuf \<Rightarrow> mbuf list \<times> nat" where
  "copy_next ms off n = (if off + m_len n = m_len (hd ms) then (tl ms, 0) else (ms, off + m_len n))"

definition copy_rest :: "int \<Rightarrow> mbuf \<Rightarrow> int" where
  "copy_rest len n = (if len \<noteq> M_COPYALL then len - int (m_len n) else len)"

lemma m_copym0_step:
  assumes ok: "chain_ok st xs" and m: "m \<in> set xs" and off: "off \<le> m_len m" and len: "0 < len" and st: "store_ok st"
    and hd: "copyhdr \<longrightarrow> m = m0 \<and> is_pkthdr m0 \<and> tags_fit (ph_tags (m_pkthdr m0))"
  shows "(\<exists>st'. \<not> wait \<and> m_copym0_loop st m0 (m # rest) off len wait deep copyhdr acc = Some (Inr (st', [])))
    \<or> (\<exists>st1 n st' n'. same_mem st st1 \<and> piece_post st1 m n xs off (nat len) deep st' n'
        \<and> (copyhdr \<longrightarrow> is_pkthdr n \<and> ph_len (m_pkthdr n) = (if len = M_COPYALL then ph_len (m_pkthdr m0) else len)
             \<and> ph_tags (m_pkthdr n) = ph_tags (m_pkthdr m0))
        \<and> m_copym0_loop st m0 (m # rest) off len wait deep copyhdr acc
          = m_copym0_loop st' m0 (fst (copy_next (m # rest) off n')) (snd (copy_next (m # rest) off n'))
              (copy_rest len n') wait deep False (acc @ [n']))"
proof (cases "m_get st wait (m_type m)")
  case (Pair no st0)
  show ?thesis
  proof (cases no)
    case None
    then show ?thesis using Pair len m_get_None [of st wait "m_type m" st0] by (simp add: m_copym0_loop.simps)
  next
    case (Some n0)
    with Pair have g: "m_get st wait (m_type m) = (Some n0, st0)" by simp
    have hd': "copyhdr \<longrightarrow> is_pkthdr m0 \<and> tags_fit (ph_tags (m_pkthdr m0))" using hd by simp
    obtain okf st1 n where c: "copym_hdr st0 n0 m0 len wait copyhdr = Inr (okf, st1, n)" and sm: "same_mem st st1"
      and w: "wait \<longrightarrow> okf" and n: "okf \<longrightarrow> is_pkthdr n = copyhdr \<and> \<not> is_ext n \<and> length (m_dat n) = MLEN
        \<and> m_data n = (if is_pkthdr n then m_pktdat else 0)
        \<and> (copyhdr \<longrightarrow> ph_len (m_pkthdr n) = (if len = M_COPYALL then ph_len (m_pkthdr m0) else len)
            \<and> ph_tags (m_pkthdr n) = ph_tags (m_pkthdr m0))"
      using copym_hdr_correct [OF g st hd', where len = len] by (elim exE conjE) (rule that)
    show ?thesis
    proof (cases okf)
      case False
      then show ?thesis using g c len w by (simp add: m_copym0_loop.simps)
    next
      case True
      have "chain_ok st1 xs" "store_ok st1" using ok st sm same_mem_chain(1) [OF sm] by (simp_all add: same_mem_def)
      with True n hd m off len obtain st' n' where
        p: "copym_piece st1 m n off (nat len) wait deep = Inr (st', n')" "piece_post st1 m n xs off (nat len) deep st' n'"
        using copym_piece_correct [of st1 xs m off "nat len" n wait deep] by auto
      then have "m_copym0_loop st m0 (m # rest) off len wait deep copyhdr acc
          = m_copym0_loop st' m0 (fst (copy_next (m # rest) off n')) (snd (copy_next (m # rest) off n'))
              (copy_rest len n') wait deep False (acc @ [n'])"
        using g c True len
        by (subst m_copym0_loop.simps) (simp add: copy_next_def copy_rest_def Let_def)
      then show ?thesis using sm p(2) n True by (intro disjI2 exI conjI) auto
    qed
  qed
qed

lemma piece_post_next:
  assumes p: "piece_post st m n xs off len deep st' n'" and wf: "wf_mbuf st m" "wf_chain st rest" and off: "off \<le> m_len m"
    and nx: "copy_next (m # rest) off n' = (ms', off')" and len: "0 < len"
  shows "m_bytes st' n' @ drop off' (chain_bytes st ms') = drop off (chain_bytes st (m # rest))"
    "m_len n' + (chain_len ms' - off') = chain_len (m # rest) - off"
    "ms' \<noteq> [] \<longrightarrow> off' \<le> m_len (hd ms') \<or> ms' = rest \<and> off' = 0" "off' \<le> chain_len ms'"
    "chain_len ms' - off' + length ms' < chain_len (m # rest) - off + length (m # rest) \<or> m_len n' = len"
    "m_len n' \<le> len" "set ms' \<subseteq> set (m # rest)"
proof -
  have b: "m_bytes st' n' = take (m_len n') (drop off (m_bytes st m))" "m_len n' \<le> len" "m_len n' \<le> m_len m - off"
    "m_len n' = min len (m_len m - off) \<or> 0 < m_len n'" using p by (auto simp: piece_post_def)
  have l: "length (m_bytes st m) = m_len m" using wf(1) by simp
  show "m_bytes st' n' @ drop off' (chain_bytes st ms') = drop off (chain_bytes st (m # rest))"
  proof (cases "off + m_len n' = m_len m")
    case True
    then show ?thesis using nx b(1) l by (auto simp: copy_next_def)
  next
    case False
    have "take (m_len n') (drop off (m_bytes st m)) @ drop (m_len n' + off) (m_bytes st m) = drop off (m_bytes st m)"
      using append_take_drop_id [of "m_len n'" "drop off (m_bytes st m)"] by simp
    then show ?thesis using False nx b l off by (auto simp: copy_next_def add.commute)
  qed
  show "m_len n' + (chain_len ms' - off') = chain_len (m # rest) - off" "off' \<le> chain_len ms'"
    "ms' \<noteq> [] \<longrightarrow> off' \<le> m_len (hd ms') \<or> ms' = rest \<and> off' = 0" "m_len n' \<le> len" "set ms' \<subseteq> set (m # rest)"
    using nx b off by (auto simp: copy_next_def split: if_splits)
  show "chain_len ms' - off' + length ms' < chain_len (m # rest) - off + length (m # rest) \<or> m_len n' = len"
    using nx b off by (auto simp: copy_next_def min_def split: if_splits)
qed

definition copy_ready :: "mstore \<Rightarrow> mbuf list \<Rightarrow> mbuf list \<Rightarrow> mbuf list \<Rightarrow> nat \<Rightarrow> int \<Rightarrow> bool" where
  "copy_ready st acc xs ms off len \<longleftrightarrow>
     chain_ok st (acc @ xs) \<and> store_ok st \<and> set ms \<subseteq> set xs \<and> (ms \<noteq> [] \<longrightarrow> off \<le> m_len (hd ms)) \<and> off \<le> chain_len ms
     \<and> int (chain_len ms) < M_COPYALL \<and> 0 \<le> len \<and> (len = M_COPYALL \<or> len \<le> int (chain_len ms - off))"

lemma copy_len_step:
  assumes "copy_ready st acc xs (m # rest) off len" "m_len n' \<le> nat len" "0 < len"
    "m_len n' + (chain_len ms' - off') = chain_len (m # rest) - off"
  shows "copy_len st (m # rest) off len = m_len n' + copy_len st ms' off' (copy_rest len n')"
    "copy_rest len n' = M_COPYALL \<longleftrightarrow> len = M_COPYALL" "0 \<le> copy_rest len n'"
    "len = M_COPYALL \<or> copy_rest len n' \<le> int (chain_len ms' - off')"
  using assms by (auto simp: copy_ready_def copy_len_def copy_rest_def M_COPYALL_def)

lemma copy_ready_step:
  assumes r: "copy_ready st acc xs (m # rest) off len" and len: "0 < len" and sm: "same_mem st st1"
    and p: "piece_post st1 m n (acc @ xs) off (nat len) deep st' n'"
    and nx: "copy_next (m # rest) off n' = (ms', off')"
  shows "copy_ready st' (acc @ [n']) xs ms' off' (copy_rest len n')" "keeps st st'"
    "chain_bytes st' (acc @ [n']) @ take (copy_len st ms' off' (copy_rest len n')) (drop off' (chain_bytes st' ms'))
      = chain_bytes st acc @ take (copy_len st (m # rest) off len) (drop off (chain_bytes st (m # rest)))"
    "chain_len ms' - off' + length ms' < chain_len (m # rest) - off + length (m # rest) \<or> copy_rest len n' = 0"
proof -
  have ok: "chain_ok st (acc @ xs)" and off: "off \<le> m_len m" and sub: "set (m # rest) \<subseteq> set xs"
    using r by (simp_all add: copy_ready_def)
  then have wfs: "wf_chain st (acc @ xs)" "wf_mbuf st m" "wf_chain st rest"
    by (auto simp: chain_ok_def list_all_iff)
  have wf1: "wf_mbuf st1 m" "wf_chain st1 rest"
    using wfs same_mem_chain(1) [OF sm, of "acc @ xs"] ok sub by (auto simp: chain_ok_def list_all_iff)
  have k: "keeps st st'" using keeps_trans [OF keeps_same [OF sm]] p by (simp add: piece_post_def)
  show "keeps st st'" by (fact k)
  note x = piece_post_next [OF p wf1 off nx]
  have x: "m_bytes st' n' @ drop off' (chain_bytes st ms') = drop off (chain_bytes st (m # rest))"
    "m_len n' + (chain_len ms' - off') = chain_len (m # rest) - off"
    "ms' \<noteq> [] \<longrightarrow> off' \<le> m_len (hd ms') \<or> ms' = rest \<and> off' = 0" "off' \<le> chain_len ms'"
    "chain_len ms' - off' + length ms' < chain_len (m # rest) - off + length (m # rest) \<or> m_len n' = nat len"
    "m_len n' \<le> nat len" "set ms' \<subseteq> set (m # rest)"
    using x len same_mem_chain(2,3) [OF sm] by simp_all
  note cl = copy_len_step [OF r x(6) len x(2)]
  have wf': "wf_chain st ms'" using wfs(1) x(7) sub by (auto simp: list_all_iff)
  have ok': "chain_ok st' ((acc @ [n']) @ xs)"
    using p by (subst chain_ok_perm [of _ "n' # acc @ xs"]) (auto simp: piece_post_def)
  have "int (chain_len ms') < M_COPYALL" using r nx by (auto simp: copy_ready_def copy_next_def split: if_splits)
  then show "copy_ready st' (acc @ [n']) xs ms' off' (copy_rest len n')"
    using ok' p x(3,4,7) sub cl(2-4) by (auto simp: copy_ready_def piece_post_def)
  have "length (m_bytes st' n') = m_len n'" using ok' by (simp add: chain_ok_def)
  then show "chain_bytes st' (acc @ [n']) @ take (copy_len st ms' off' (copy_rest len n')) (drop off' (chain_bytes st' ms'))
      = chain_bytes st acc @ take (copy_len st (m # rest) off len) (drop off (chain_bytes st (m # rest)))"
    using keeps_bytes(2) [OF k] wf' wfs(1) cl(1) unfolding x(1) [symmetric] by simp
  show "chain_len ms' - off' + length ms' < chain_len (m # rest) - off + length (m # rest) \<or> copy_rest len n' = 0"
    using x(2,5) r len by (auto simp: copy_ready_def copy_rest_def M_COPYALL_def)
qed

lemma copied_trans:
  assumes "keeps st st'" "copied st' xs bs wait st'' ks"
  shows "copied st xs bs wait st'' ks"
  using assms keeps_trans by (auto simp: copied_def)

text \<open>What the loop promises from a state, and that it keeps the promise when it stops.\<close>

definition loop_ok :: "mstore \<Rightarrow> mbuf \<Rightarrow> mbuf list \<Rightarrow> mbuf list \<Rightarrow> mbuf list \<Rightarrow> nat \<Rightarrow> int \<Rightarrow> bool \<Rightarrow> bool \<Rightarrow> bool" where
  "loop_ok st m0 acc xs ms off len wait deep \<longleftrightarrow>
     (\<exists>st' ks. m_copym0_loop st m0 ms off len wait deep False acc = Some (Inr (st', ks))
       \<and> copied st xs (chain_bytes st acc @ take (copy_len st ms off len) (drop off (chain_bytes st ms))) wait st' ks
       \<and> (ks = [] \<or> (\<exists>ys. ks = acc @ ys)))"

lemma loop_ok_stop:
  assumes "copy_ready st acc xs ms off len" "len = 0 \<or> ms = []"
  shows "loop_ok st m0 acc xs ms off len wait deep"
proof -
  have c: "copy_len st ms off len = 0" "len = 0 \<or> len = M_COPYALL"
    using assms by (auto simp: copy_ready_def copy_len_def M_COPYALL_def)
  then have "m_copym0_loop st m0 ms off len wait deep False acc = Some (Inr (st, acc))"
    using assms(2) by (auto simp: m_copym0_loop.simps)
  then show ?thesis using c(1) assms(1) by (auto simp: loop_ok_def copied_def copy_ready_def keeps_refl)
qed

lemma loop_ok_step:
  assumes r: "copy_ready st acc xs (m # rest) off len" and len: "0 < len" and sm: "same_mem st st1"
    and p: "piece_post st1 m n (acc @ xs) off (nat len) deep st' n'"
    and nx: "copy_next (m # rest) off n' = (ms', off')"
    and l: "loop_ok st' m0 (acc @ [n']) xs ms' off' (copy_rest len n') wait deep"
  shows "\<exists>st'' ks. m_copym0_loop st' m0 ms' off' (copy_rest len n') wait deep False (acc @ [n']) = Some (Inr (st'', ks))
    \<and> copied st xs (chain_bytes st acc @ take (copy_len st (m # rest) off len) (drop off (chain_bytes st (m # rest))))
        wait st'' ks \<and> (ks = [] \<or> (\<exists>ys. ks = acc @ n' # ys))"
proof -
  note s = copy_ready_step [OF r len sm p nx]
  have "copy_len st' ms' off' k = copy_len st ms' off' k" for k by (simp add: copy_len_def)
  then show ?thesis using l s(3) copied_trans [OF s(2)] unfolding loop_ok_def by auto
qed

lemma m_copym0_loop_correct: "copy_ready st acc xs ms off len \<Longrightarrow> loop_ok st m0 acc xs ms off len wait deep"
proof (induction "chain_len ms - off + length ms" arbitrary: st acc ms off len rule: less_induct)
  case less
  show ?case
  proof (cases "len = 0 \<or> ms = []")
    case True
    then show ?thesis by (rule loop_ok_stop [OF less.prems])
  next
    case False
    then obtain m rest where ms: "ms = m # rest" by (cases ms) auto
    have r: "chain_ok st (acc @ xs)" "m \<in> set (acc @ xs)" "off \<le> m_len m" "0 < len" "store_ok st"
      using less.prems False by (auto simp: copy_ready_def ms)
    have h: "False \<longrightarrow> m = m0 \<and> is_pkthdr m0 \<and> tags_fit (ph_tags (m_pkthdr m0))" by simp
    from m_copym0_step [OF r h, of wait rest deep acc] show ?thesis
    proof (elim disjE exE conjE)
      fix st' assume "\<not> wait" "m_copym0_loop st m0 (m # rest) off len wait deep False acc = Some (Inr (st', []))"
      then show ?thesis by (simp add: ms copied_def loop_ok_def)
    next
      fix st1 n st' n'
      assume sm: "same_mem st st1" and p: "piece_post st1 m n (acc @ xs) off (nat len) deep st' n'"
        and e: "m_copym0_loop st m0 (m # rest) off len wait deep False acc
          = m_copym0_loop st' m0 (fst (copy_next (m # rest) off n')) (snd (copy_next (m # rest) off n'))
              (copy_rest len n') wait deep False (acc @ [n'])"
      obtain ms' off' where nx: "copy_next (m # rest) off n' = (ms', off')" by fastforce
      note s = copy_ready_step [OF less.prems [unfolded ms] r(4) sm p nx]
      have "loop_ok st' m0 (acc @ [n']) xs ms' off' (copy_rest len n') wait deep"
        using s(4) less.hyps [OF _ s(1)] loop_ok_stop [OF s(1)] ms by auto
      from loop_ok_step [OF less.prems [unfolded ms] r(4) sm p nx this] show ?thesis
        using e nx by (auto simp: loop_ok_def ms)
    qed
  qed
qed

lemma m_getptr_suffix: "m_getptr ms loc = Some (ns, off) \<Longrightarrow> \<exists>pre. ms = pre @ ns"
proof (induction ms loc rule: m_getptr.induct)
  case (2 m ms loc)
  then consider "ns = m # ms" | "m_getptr ms (loc - int (m_len m)) = Some (ns, off)" "\<not> loc < 0" "\<not> int (m_len m) > loc" "ms \<noteq> []"
    by (auto simp: Let_def split: if_splits)
  then show ?case
  proof cases
    case 2
    from "2.IH" [OF 2(2,3) refl 2(4) 2(1)] show ?thesis by (metis append_Cons)
  qed auto
qed simp

lemma m_copym0_correct:
  assumes ok: "chain_ok st xs" and sub: "set ms \<subseteq> set xs" and ne: "ms \<noteq> []" and st: "store_ok st"
    and off: "0 \<le> off" "off \<le> int (chain_len ms)" and big: "int (chain_len ms) < M_COPYALL"
    and len: "0 \<le> len" "len = M_COPYALL \<or> off + len \<le> int (chain_len ms)"
    and hd: "off = 0 \<and> is_pkthdr (hd ms) \<longrightarrow> 0 < m_len (hd ms) \<and> tags_fit (ph_tags (m_pkthdr (hd ms)))"
  shows "\<exists>st' ks. m_copym0 st ms off len wait deep = Some (Inr (st', ks))
    \<and> copied st xs (if len = M_COPYALL then drop (nat off) (chain_bytes st ms)
                    else take (nat len) (drop (nat off) (chain_bytes st ms))) wait st' ks
    \<and> (off = 0 \<and> is_pkthdr (hd ms) \<and> ks \<noteq> [] \<longrightarrow> is_pkthdr (hd ks)
        \<and> ph_len (m_pkthdr (hd ks)) = (if len = M_COPYALL then ph_len (m_pkthdr (hd ms)) else len)
        \<and> ph_tags (m_pkthdr (hd ks)) = ph_tags (m_pkthdr (hd ms)))"
proof -
  have wf: "wf_chain st ms" using ok sub by (auto simp: chain_ok_def list_all_iff)
  obtain ns o' where g: "m_getptr ms off = Some (ns, o')"
    using m_getptr_None [of ms off] ne off by (cases "m_getptr ms off") auto
  note p = m_getptr_Some [OF g wf]
  obtain pre where pre: "ms = pre @ ns" using m_getptr_suffix [OF g] by blast
  obtain m rest where ns: "ns = m # rest" using p(1) by (cases ns) auto
  let ?h = "off = 0 \<and> is_pkthdr (hd ms)"
  have first: "m = hd ms \<and> o' = 0" if ?h using g hd that by (cases ms) (auto simp: ns)
  have r: "copy_ready st [] xs ns o' len"
    using ok st sub pre p len big by (auto simp: copy_ready_def ns)
  have eq: "m_copym0 st ms off len wait deep = m_copym0_loop st (hd ms) ns o' len wait deep ?h []"
    using g off len by (simp add: m_copym0_def)
  have bytes: "take (copy_len st ns o' len) (drop o' (chain_bytes st ns))
      = (if len = M_COPYALL then drop (nat off) (chain_bytes st ms) else take (nat len) (drop (nat off) (chain_bytes st ms)))"
    using p(6,7) length_chain_bytes [OF wf] by (simp add: copy_len_def)
  show ?thesis
  proof (cases "len = 0")
    case True
    then have "m_copym0 st ms off len wait deep = Some (Inr (st, []))" using eq by (simp add: m_copym0_loop.simps)
    then show ?thesis using ok st True by (simp add: copied_def keeps_refl M_COPYALL_def)
  next
    case False
    have q: "chain_ok st xs" "m \<in> set xs" "o' \<le> m_len m" "0 < len" "store_ok st"
      using ok sub pre p(2) len(1) False st by (auto simp: ns)
    have h: "?h \<longrightarrow> m = hd ms \<and> is_pkthdr (hd ms) \<and> tags_fit (ph_tags (m_pkthdr (hd ms)))" using hd first by blast
    from m_copym0_step [OF q h, of wait rest deep "[]"] show ?thesis
    proof (elim disjE exE conjE)
      fix st' assume w: "\<not> wait" and "m_copym0_loop st (hd ms) (m # rest) o' len wait deep ?h [] = Some (Inr (st', []))"
      then have "m_copym0 st ms off len wait deep = Some (Inr (st', []))" unfolding eq ns by simp
      with w show ?thesis by (intro exI [of _ st'] exI [of _ "[]"]) (simp add: copied_def)
    next
      fix st1 n st' n'
      assume sm: "same_mem st st1" and pp: "piece_post st1 m n xs o' (nat len) deep st' n'"
        and hh: "?h \<longrightarrow> is_pkthdr n \<and> ph_len (m_pkthdr n) = (if len = M_COPYALL then ph_len (m_pkthdr (hd ms)) else len)
             \<and> ph_tags (m_pkthdr n) = ph_tags (m_pkthdr (hd ms))"
        and e: "m_copym0_loop st (hd ms) (m # rest) o' len wait deep ?h []
          = m_copym0_loop st' (hd ms) (fst (copy_next (m # rest) o' n')) (snd (copy_next (m # rest) o' n'))
              (copy_rest len n') wait deep False ([] @ [n'])"
      obtain ms' off' where nx: "copy_next (m # rest) o' n' = (ms', off')" by fastforce
      have pp': "piece_post st1 m n ([] @ xs) o' (nat len) deep st' n'" using pp by simp
      have "copy_ready st' ([] @ [n']) xs ms' off' (copy_rest len n')"
        by (rule copy_ready_step(1) [OF r [unfolded ns] q(4) sm pp' nx])
      from m_copym0_loop_correct [OF this]
      have "loop_ok st' (hd ms) ([] @ [n']) xs ms' off' (copy_rest len n') wait deep" .
      from loop_ok_step [OF r [unfolded ns] q(4) sm pp' nx this, folded ns] obtain st'' ks where
        "m_copym0_loop st' (hd ms) ms' off' (copy_rest len n') wait deep False ([] @ [n']) = Some (Inr (st'', ks))"
        and c: "copied st xs (chain_bytes st [] @ take (copy_len st ns o' len) (drop o' (chain_bytes st ns))) wait st'' ks"
        and k: "ks = [] \<or> (\<exists>ys. ks = [] @ n' # ys)" by (elim exE conjE) (rule that)
      then have "m_copym0 st ms off len wait deep = Some (Inr (st'', ks))" using e nx unfolding eq ns by simp
      moreover have "ks \<noteq> [] \<longrightarrow> hd ks = n'" using k by auto
      ultimately show ?thesis using c bytes hh pp
        by (intro exI [of _ st''] exI [of _ ks]) (simp add: piece_post_def)
    qed
  qed
qed

end
