(* ===== verification/Mbuf_Defrag.thy ===== *)
theory Mbuf_Defrag
  imports Mbuf_Split
begin

text \<open>
  The functions of \<^verbatim>\<open>kern/uipc_mbuf.c\<close> and \<^verbatim>\<open>kern/uipc_mbuf2.c\<close> that bring data together:
  \<^verbatim>\<open>m_defrag\<close>, \<^verbatim>\<open>m_devget\<close> and \<^verbatim>\<open>m_pulldown\<close>.
\<close>

subsection \<open>One buffer for a packet\<close>

abbreviation ENOBUFS :: nat where "ENOBUFS \<equiv> 55"

text \<open>A header mbuf with room for \<open>len\<close> bytes.\<close>

definition defrag_new :: "mstore \<Rightarrow> nat \<Rightarrow> nat \<Rightarrow> bool \<Rightarrow> string + (mstore \<times> mbuf option)" where
  "defrag_new st type len how =
     (case m_gethdr st how type of
        (None, st) \<Rightarrow> Inr (st, None)
      | (Some m0, st) \<Rightarrow>
          if len > MHLEN then
            (case mclgeti st m0 how len of
               Inl e \<Rightarrow> Inl e
             | Inr (st, m0) \<Rightarrow> if \<not> is_ext m0 then Inr (fst (m_free st [m0]), None) else Inr (st, Some m0))
          else Inr (st, Some m0))"

text \<open>
  The first mbuf takes over the data of the copy \<open>m0\<close>, with its cluster or byte by byte; the
  one reference to the cluster moves along.
\<close>

definition defrag_bounce :: "mstore \<Rightarrow> mbuf \<Rightarrow> mbuf \<Rightarrow> mstore \<times> mbuf" where
  "defrag_bounce st m m0 =
     (let (st, m) =
        (if is_ext m0
         then (st, m\<lparr>m_ext := m_ext m0, m_flags := set_flag (m_flags m) (m_flags m0 AND (M_EXT OR M_EXTWR)), m_data := 0\<rparr>)
         else mb_write st (m\<lparr>m_data := m_pktdat\<rparr>) 0 (m_bytes st m0));
        m = m\<lparr>m_pkthdr := (m_pkthdr m)\<lparr>ph_len := int (m_len m0)\<rparr>, m_len := m_len m0\<rparr>;
        m0 = m0\<lparr>m_flags := clr_flag (m_flags m0) (M_EXT OR M_EXTWR)\<rparr>
      in (fst (m_free st [m0]), m))"

text \<open>The result holds the chain and the error number.\<close>

definition m_defrag :: "mstore \<Rightarrow> mbuf list \<Rightarrow> bool \<Rightarrow> string + (mstore \<times> mbuf list \<times> nat)" where
  "m_defrag st ms how =
     (case ms of
        [] \<Rightarrow> Inl ''null mbuf''
      | m # ns \<Rightarrow>
          if ns = [] then Inr (st, ms, 0)
          else if \<not> is_pkthdr m then Inl ''m_defrag: no packet hdr or not a chain''
          else
            let len = ph_len (m_pkthdr m)
            in case defrag_new st (m_type m) (nat len) how of
                 Inl e \<Rightarrow> Inl e
               | Inr (st, None) \<Rightarrow> Inr (st, ms, ENOBUFS)
               | Inr (st, Some m0) \<Rightarrow>
                   (case m_copydata st ms 0 len of
                      Inl e \<Rightarrow> Inl e
                    | Inr bytes \<Rightarrow>
                        let (st, m0) = mb_write st m0 0 bytes;
                            m0 = m0\<lparr>m_pkthdr := (m_pkthdr m0)\<lparr>ph_len := len\<rparr>, m_len := nat len\<rparr>;
                            st = m_freem st ns;
                            (st, m) = (if is_ext m then m_extfree st m else (st, m));
                            (st, m) = defrag_bounce st m m0
                        in Inr (st, [m], 0)))"

subsection \<open>Packets from a device\<close>

text \<open>
  One round of the loop of \<^verbatim>\<open>m_devget\<close> before the copy: where the data goes in the mbuf, and how
  much room there is.  \<open>max_linkhdr\<close> is the global of that name, \<open>left\<close> the number of bytes to
  come.
\<close>

definition devget_place :: "nat \<Rightarrow> mstore \<Rightarrow> mbuf \<Rightarrow> nat \<Rightarrow> nat \<Rightarrow> nat \<Rightarrow> bool \<Rightarrow> string + (mstore \<times> mbuf \<times> nat)" where
  "devget_place max_linkhdr st m left off len first =
     (case (if left + off \<ge> MINCLSIZE then mclgeti st m False MCLBYTES else Inr (st, m)) of
        Inl e \<Rightarrow> Inl e
      | Inr (st, m) \<Rightarrow>
          let (m, len) =
                (if left + off \<ge> MINCLSIZE then (m, if is_ext m then MCLBYTES else len)
                 else if first \<and> left + off + max_linkhdr \<le> len then (m\<lparr>m_data := m_data m + max_linkhdr\<rparr>, len - max_linkhdr)
                 else (m, len));
              (m, len) = (if off \<noteq> 0 then (m\<lparr>m_data := m_data m + off\<rparr>, len - off) else (m, len))
          in Inr (st, m, len))"

lemma devget_place_room:
  "devget_place max_linkhdr st m left 0 MLEN False = Inr (st', m', len) \<Longrightarrow> 0 < len"
  by (auto simp: devget_place_def MLEN_def MSIZE_def MCLBYTES_def split: sum.splits if_splits)

text \<open>The first round uses the header mbuf \<open>m\<close> with its room \<open>len\<close>.  An empty result is the null pointer.\<close>

function devget_loop :: "nat \<Rightarrow> mstore \<Rightarrow> mbuf \<Rightarrow> u8 list \<Rightarrow> nat \<Rightarrow> nat \<Rightarrow> mbuf list \<Rightarrow> string + (mstore \<times> mbuf list)" where
  "devget_loop max_linkhdr st m buf off len top' =
     (if buf = [] then Inr (st, top')
      else
        case (if top' \<noteq> [] then m_get st False MT_DATA else (Some m, st)) of
          (None, st) \<Rightarrow> Inr (m_freem st ((hd top')\<lparr>m_flags := set_flag (m_flags (hd top')) M_ZEROIZE\<rparr> # tl top'), [])
        | (Some m, st) \<Rightarrow>
            (case devget_place max_linkhdr st m (length buf) off (if top' \<noteq> [] then MLEN else len) (top' = []) of
               Inl e \<Rightarrow> Inl e
             | Inr (st, m, len) \<Rightarrow>
                 let k = min (length buf) len; (st, m) = mb_write st (m\<lparr>m_len := k\<rparr>) 0 (take k buf)
                 in devget_loop max_linkhdr st m (drop k buf) 0 k (top' @ [m])))"
  by pat_completeness auto
termination
proof (relation "measure (\<lambda>(_, _, _, buf, off, _, top'). length buf + off + (if top' = [] then 1 else 0))", goal_cases)
  case (2 max_linkhdr st m buf off len top' mo st1 m1 r st2 ml m2 len2 k)
  have "0 < len2" if "off = 0" "top' \<noteq> []" using 2 that devget_place_room by (auto split: if_splits)
  then show ?case using 2 by (cases "top' = []"; cases "off = 0") auto
qed simp

declare devget_loop.simps [simp del]

definition m_devget :: "nat \<Rightarrow> mstore \<Rightarrow> u8 list \<Rightarrow> int \<Rightarrow> string + (mstore \<times> mbuf list)" where
  "m_devget max_linkhdr st buf off =
     (if off < 0 \<or> off > int MHLEN then Inr (st, [])
      else
        case m_gethdr st False MT_DATA of
          (None, st) \<Rightarrow> Inr (st, [])
        | (Some m, st) \<Rightarrow>
            devget_loop max_linkhdr st (m\<lparr>m_pkthdr := (m_pkthdr m)\<lparr>ph_len := int (length buf)\<rparr>\<rparr>) buf (nat off) MHLEN [])"

subsection \<open>What stays when mbufs go\<close>

text \<open>The other chains when one reference to the cluster of \<open>m\<close> is given up.\<close>

lemma chain_ok_released:
  assumes ok: "chain_ok st (m # os)" and mem: "ext_mem st' = ext_mem st"
    and ref: "ext_ref st' = (if is_ext m then (ext_ref st)(m_ext m := ext_ref st (m_ext m) - 1) else ext_ref st)"
  shows "chain_ok st' os" "chain_bytes st' os = chain_bytes st os"
proof -
  have r: "refs (m_ext k) os \<le> ext_ref st' (m_ext k)" if "k \<in> set os" "is_ext k" for k
    using chain_okD(2) [OF ok, of k] that by (auto simp: ref split: if_splits)
  have pos: "0 < ext_ref st' (m_ext k)" if "k \<in> set os" "is_ext k" for k
    using r [OF that] refs_0 [of "m_ext k" os] that by (cases "refs (m_ext k) os") auto
  have "wf_mbuf st' k" if "k \<in> set os" for k
    using chain_okD(1) [OF ok] that pos by (intro wf_mbuf_cong [of st k st']) (auto simp: list_all_iff mem)
  with r show "chain_ok st' os" by (intro chain_okI) (auto simp: list_all_iff)
  show "chain_bytes st' os = chain_bytes st os" by (rule chain_bytes_cong) (simp add: mem)
qed

lemma chain_ok_extfree:
  assumes "chain_ok st (m # os)" "is_ext m"
  shows "chain_ok (fst (m_extfree st m)) os" "chain_bytes (fst (m_extfree st m)) os = chain_bytes st os"
  using chain_ok_released [OF assms(1), of "fst (m_extfree st m)"] assms(2) by (simp_all add: m_extfree_effect)

lemma chain_ok_tl: "chain_ok st (m # os) \<Longrightarrow> chain_ok st os"
  by (auto simp: chain_ok_def list_all_iff)

lemma chain_ok_freem:
  "chain_ok st (ns @ os) \<Longrightarrow> \<forall>n\<in>set ns. \<not> zeroize n \<Longrightarrow>
   chain_ok (m_freem st ns) os \<and> chain_bytes (m_freem st ns) os = chain_bytes st os"
proof (induction ns arbitrary: st)
  case Nil
  then show ?case by (simp add: m_freem.simps)
next
  case (Cons n ns)
  have z: "\<not> zeroize n" using Cons.prems by simp
  have "chain_ok st (n # ns @ os)" using Cons.prems(1) by simp
  note f = chain_ok_free [OF this z, of ns]
  have "m_freem st (n # ns) = m_freem (fst (m_free st (n # ns))) ns"
    using m_free_plain(1) [OF z, of st ns] by (simp add: m_freem.simps [of st "n # ns"] split_beta)
  moreover have "chain_bytes (fst (m_free st (n # ns))) os = chain_bytes st os"
    by (rule chain_bytes_cong) (simp add: m_free_plain(2) [OF z])
  ultimately show ?case using Cons.IH [OF f(1)] Cons.prems(2) by simp
qed

subsection \<open>\<^verbatim>\<open>m_defrag\<close>\<close>

lemma defrag_new_ok:
  assumes ok: "chain_ok st xs" and st: "store_ok st" and d: "defrag_new st t len how = Inr (st', Some m)"
  shows "chain_ok st' (m\<lparr>m_len := 0\<rparr> # xs)" "chain_bytes st' xs = chain_bytes st xs" "store_ok st'"
    "m_data m + len \<le> length (m_buf st' m)" "\<not> M_READONLY st' m" "is_pkthdr m" "\<not> zeroize m"
    "is_ext m \<longleftrightarrow> MHLEN < len" "m_data m = (if is_ext m then 0 else m_pktdat)" "length (m_dat m) = MLEN"
proof -
  obtain m0 st0 where g: "m_gethdr st how t = (Some m0, st0)"
    using d by (auto simp: defrag_new_def split: prod.splits option.splits)
  note g1 = m_gethdr_Some [OF g] and same = same_mem_chain [OF same_mem_gethdr [OF g]]
  have z0: "\<not> zeroize m0" using g by (auto simp: m_gethdr_def m_inithdr_def flag_simps Let_def split: if_splits)
  have dat: "length (m_dat m0) = MLEN" using g1(4) st by (simp add: store_ok_def)
  have ok0: "chain_ok st0 xs" "chain_bytes st0 xs = chain_bytes st xs" "store_ok st0" using same ok st g1(9) by simp_all
  have "chain_ok st' (m\<lparr>m_len := 0\<rparr> # xs) \<and> chain_bytes st' xs = chain_bytes st xs \<and> store_ok st' \<and>
    m_data m + len \<le> length (m_buf st' m) \<and> \<not> M_READONLY st' m \<and> is_pkthdr m \<and> \<not> zeroize m \<and>
    (is_ext m \<longleftrightarrow> MHLEN < len) \<and> m_data m = (if is_ext m then 0 else m_pktdat) \<and> length (m_dat m) = MLEN"
  proof (cases "len > MHLEN")
    case True
    then have c: "mclgeti st0 m0 how len = Inr (st', m)" "is_ext m"
      using d g by (auto simp: defrag_new_def split: sum.splits prod.splits if_splits)
    note n = mclgeti_new [OF c g1(3) ok0(3) dat ok0(1)]
    have "length (m_dat m) = MLEN" using n(1) by (simp add: chain_ok_def wf_mbuf_def)
    then show ?thesis using n True ok0(2) c(2) g1(2) z0 by simp
  next
    case False
    then have e: "st' = st0" "m = m0" using d g by (simp_all add: defrag_new_def)
    have "wf_mbuf st0 (m0\<lparr>m_len := 0\<rparr>)" using dat g1(1-3) by (auto simp: wf_mbuf_def m_buf_def is_ext_def is_pkthdr_def msize_facts)
    moreover have "\<not> is_ext (m0\<lparr>m_len := 0\<rparr>)" using g1(3) by (simp add: is_ext_def)
    ultimately have "chain_ok st0 (m0\<lparr>m_len := 0\<rparr> # xs)" by (intro chain_ok_new [OF ok0(1)]) simp_all
    then show ?thesis using e False g1(1-3) ok0 dat z0 by (simp add: M_READONLY_def m_buf_def msize_facts)
  qed
  then show "chain_ok st' (m\<lparr>m_len := 0\<rparr> # xs)" "chain_bytes st' xs = chain_bytes st xs" "store_ok st'"
    "m_data m + len \<le> length (m_buf st' m)" "\<not> M_READONLY st' m" "is_pkthdr m" "\<not> zeroize m"
    "is_ext m \<longleftrightarrow> MHLEN < len" "m_data m = (if is_ext m then 0 else m_pktdat)" "length (m_dat m) = MLEN" by blast+
qed

lemma defrag_new_cases:
  assumes "store_ok st" "len \<le> MAXMCLBYTES"
  shows "(\<exists>st' m. defrag_new st t len how = Inr (st', Some m)) \<or> \<not> how \<and> (\<exists>st'. defrag_new st t len how = Inr (st', None) \<and> same_mem st st')"
proof (cases "m_gethdr st how t")
  case (Pair mo st0)
  show ?thesis
  proof (cases mo)
    case None
    then show ?thesis using Pair m_gethdr_None [of st how t st0] by (auto simp: defrag_new_def same_mem_def)
  next
    case (Some m0)
    then have g: "m_gethdr st how t = (Some m0, st0)" using Pair by simp
    note sm = same_mem_gethdr [OF g] and e = m_gethdr_Some(3) [OF g]
    obtain pi where "m_clpool len = Some pi" using assms(2) m_clpool_None [of len] by (cases "m_clpool len") auto
    then have c: "mclgeti st0 m0 how len = Inr (if cl_avail st0 pi = 0 \<and> \<not> how then (st0, m0)
        else mextadd (st0\<lparr>cl_avail := (cl_avail st0)(pi := cl_avail st0 pi - 1)\<rparr>) m0 pi)" by (simp add: mclgeti_eq)
    have x: "is_ext (snd (mextadd s m0 pi))" for s by (simp add: mextadd_def flag_simps Let_def)
    have f: "same_mem st (fst (m_free st0 [m0]))" using m_free_own [OF e, of st0] sm same_mem_trans by blast
    show ?thesis using g c x e f by (auto simp: defrag_new_def split: prod.splits if_splits) (metis snd_conv)+
  qed
qed

lemma bounce_ok:
  assumes ok: "chain_ok st (m0 # os)" and m: "is_pkthdr m" "\<not> is_ext m" "length (m_dat m) = MLEN"
    and m0: "is_ext m0 \<Longrightarrow> m_data m0 = 0" "\<not> is_ext m0 \<Longrightarrow> m_len m0 \<le> MHLEN" and b: "defrag_bounce st m m0 = (st', m')"
  shows "chain_ok st' (m' # os)" "m_bytes st' m' = m_bytes st m0" "chain_bytes st' os = chain_bytes st os" "is_pkthdr m'"
    "m_pkthdr m' = (m_pkthdr m)\<lparr>ph_len := int (m_len m0)\<rparr>" "m_len m' = m_len m0"
proof -
  let ?m0 = "m0\<lparr>m_flags := clr_flag (m_flags m0) (M_EXT OR M_EXTWR)\<rparr>"
  have sm: "same_mem st (fst (m_free st [?m0]))" by (rule m_free_own) (simp add: flag_simps)
  note same = same_mem_chain [OF sm]
  have wf0: "wf_mbuf st m0" and os: "chain_ok st os" using ok chain_ok_tl by (auto simp: chain_ok_def)
  have "st' = fst (m_free st [?m0]) \<and> chain_ok st (m' # os) \<and> m_bytes st m' = m_bytes st m0 \<and> is_pkthdr m' \<and>
    m_pkthdr m' = (m_pkthdr m)\<lparr>ph_len := int (m_len m0)\<rparr> \<and> m_len m' = m_len m0"
  proof (cases "is_ext m0")
    case True
    let ?k = "m\<lparr>m_ext := m_ext m0, m_flags := set_flag (m_flags m) (m_flags m0 AND (M_EXT OR M_EXTWR)), m_data := 0,
      m_pkthdr := (m_pkthdr m)\<lparr>ph_len := int (m_len m0)\<rparr>, m_len := m_len m0\<rparr>"
    have e: "st' = fst (m_free st [?m0])" "m' = ?k" using b True by (simp_all add: defrag_bounce_def)
    have x: "is_ext ?k" "is_pkthdr ?k" using True m by (simp_all add: flag_simps)
    have by': "m_bytes st ?k = m_bytes st m0" using x(1) True m0(1) by (simp add: m_bytes_def m_buf_def)
    have "wf_mbuf st ?k" using wf0 x True m0(1) m(3) by (simp add: wf_mbuf_def m_buf_def)
    then have "chain_ok st (?k # os)" by (rule chain_ok_replace [OF ok]) (use x True in simp_all)
    then show ?thesis using e by' x by simp
  next
    case False
    let ?d = "mem_write (m_dat m) m_pktdat (m_bytes st m0)"
    let ?k = "m\<lparr>m_data := m_pktdat, m_dat := ?d, m_pkthdr := (m_pkthdr m)\<lparr>ph_len := int (m_len m0)\<rparr>, m_len := m_len m0\<rparr>"
    have nx: "\<not> is_ext (m\<lparr>m_data := m_pktdat\<rparr>)" "\<not> is_ext ?k" "is_pkthdr ?k" using m by (simp_all add: is_ext_def is_pkthdr_def)
    have e: "st' = fst (m_free st [?m0])" "m' = ?k" using b False nx(1) by (simp_all add: defrag_bounce_def mb_write_def)
    have len: "length (m_bytes st m0) = m_len m0" "m_len m0 \<le> MHLEN" using wf0 m0(2) False by simp_all
    have by': "m_bytes st ?k = m_bytes st m0"
      using nx(2) len m(3) mem_read_write_same [of m_pktdat "m_bytes st m0" "m_dat m"] by (simp add: m_bytes_def m_buf_def msize_facts)
    have "wf_mbuf st ?k" using nx len m(3) by (simp add: wf_mbuf_def m_buf_def msize_facts)
    then have "chain_ok st (?k # os)" by (rule chain_ok_new [OF os _ nx(2)]) simp_all
    then show ?thesis using e by' nx by simp
  qed
  then show "chain_ok st' (m' # os)" "m_bytes st' m' = m_bytes st m0" "chain_bytes st' os = chain_bytes st os" "is_pkthdr m'"
    "m_pkthdr m' = (m_pkthdr m)\<lparr>ph_len := int (m_len m0)\<rparr>" "m_len m' = m_len m0" using same by simp_all
qed

lemma mb_write_len: "mb_write st (m\<lparr>m_len := k\<rparr>) off ys = (let (st', m') = mb_write st m off ys in (st', m'\<lparr>m_len := k\<rparr>))"
  by (simp add: mb_write_def is_ext_def)

text \<open>The copy of a packet in the new mbuf.\<close>

lemma defrag_copy:
  assumes ok: "chain_ok st xs" and st: "store_ok st" and d: "defrag_new st t (length ys) how = Inr (st1, Some m0)"
    and w: "mb_write st1 m0 0 ys = (st2, m1)"
  defines "m2 \<equiv> m1\<lparr>m_pkthdr := (m_pkthdr m1)\<lparr>ph_len := int (length ys)\<rparr>, m_len := length ys\<rparr>"
  shows "chain_ok st2 (m2 # xs)" "chain_bytes st2 xs = chain_bytes st xs" "m_bytes st2 m2 = ys" "m_len m2 = length ys"
    "is_ext m2 \<longleftrightarrow> MHLEN < length ys" "m_data m2 = (if is_ext m2 then 0 else m_pktdat)"
proof -
  note n = defrag_new_ok [OF ok st d]
  let ?m0 = "m0\<lparr>m_len := 0\<rparr>" and ?k = "m1\<lparr>m_len := length ys\<rparr>"
  have ro: "\<not> M_READONLY st1 ?m0" using n(5) by (simp add: M_READONLY_def MCLISREFERENCED_def is_ext_def)
  have w0: "mb_write st1 ?m0 (m_len ?m0) ys = (st2, m1\<lparr>m_len := 0\<rparr>)" using w by (simp add: mb_write_len)
  have room: "m_data ?m0 + m_len ?m0 + length ys \<le> length (m_buf st1 ?m0)" using n(4) by (simp add: m_buf_def is_ext_def split: if_splits)
  note a = append_bytes [OF n(1) ro w0 room, simplified]
  have k: "m_data m1 = m_data m0" "m_flags m1 = m_flags m0" "m_ext m1 = m_ext m0" using w by (auto simp: mb_write_def split: if_splits)
  have x: "is_ext m2 = is_ext m0" using k(2) by (simp add: m2_def is_ext_def)
  have m2: "m2 = ?k\<lparr>m_pkthdr := (m_pkthdr m1)\<lparr>ph_len := int (length ys)\<rparr>\<rparr>" by (simp add: m2_def)
  have "wf_mbuf st2 m2" using a(1) unfolding m2 wf_mbuf_update(1) by (simp add: chain_ok_def)
  then show "chain_ok st2 (m2 # xs)" by (rule chain_ok_replace [OF a(1)]) (simp_all add: m2 is_ext_def)
  have "m_buf st2 ?k = m_buf st2 m1" by (simp add: m_buf_def is_ext_def)
  then show "m_bytes st2 m2 = ys" unfolding m2 m_bytes_update(2) using a(3) by (simp add: m_bytes_def mem_read_def)
  show "chain_bytes st2 xs = chain_bytes st xs" using a(2) n(2) by simp
  show "m_len m2 = length ys" by (simp add: m2_def)
  show "is_ext m2 \<longleftrightarrow> MHLEN < length ys" "m_data m2 = (if is_ext m2 then 0 else m_pktdat)"
    using x n(8,9) k(1) by (simp_all add: m2_def)
qed

lemma defrag_tail:
  assumes ok: "chain_ok st (m0 # m # ns @ os)" and z: "\<forall>n\<in>set ns. \<not> zeroize n" and m: "is_pkthdr m"
    and m0: "m_data m0 = (if is_ext m0 then 0 else m_pktdat)" "\<not> is_ext m0 \<Longrightarrow> m_len m0 \<le> MHLEN"
    and e: "(if is_ext m then m_extfree (m_freem st ns) m else (m_freem st ns, m)) = (st1, m1)"
    and b: "defrag_bounce st1 m1 m0 = (st', m')"
  shows "chain_ok st' (m' # os)" "m_bytes st' m' = m_bytes st m0" "chain_bytes st' os = chain_bytes st os" "is_pkthdr m'"
    "m_pkthdr m' = (m_pkthdr m)\<lparr>ph_len := int (m_len m0)\<rparr>"
proof -
  have p: "chain_ok st (ns @ m # m0 # os) = chain_ok st (m0 # m # ns @ os)" by (rule chain_ok_perm) auto
  note f = chain_ok_freem [OF p [THEN iffD2, OF ok] z]
  have wf: "wf_mbuf st m" using ok by (simp add: chain_ok_def)
  have fb: "chain_bytes (m_freem st ns) (m # m0 # os) = chain_bytes st (m # m0 # os)" using f by blast
  have wfl: "wf_chain (m_freem st ns) (m # m0 # os)" "wf_chain st (m # m0 # os)" using f ok by (auto simp: chain_ok_def)
  then have fb0: "chain_bytes (m_freem st ns) (m0 # os) = chain_bytes st (m0 # os)" using fb by simp
  have ok1: "chain_ok st1 (m0 # os) \<and> chain_bytes st1 (m0 # os) = chain_bytes (m_freem st ns) (m0 # os)"
    using e f chain_ok_extfree [of "m_freem st ns" m "m0 # os"] chain_ok_tl [of "m_freem st ns" m "m0 # os"] by (auto split: if_splits)
  have m1: "is_pkthdr m1" "\<not> is_ext m1" "length (m_dat m1) = MLEN" "m_pkthdr m1 = m_pkthdr m"
    using e m wf by (auto simp: m_extfree_def flag_simps wf_mbuf_def Let_def split_beta split: if_splits)
  note bo = bounce_ok [OF conjunct1 [OF ok1] m1(1-3) _ _ b]
  have w1: "wf_chain st1 (m0 # os)" using ok1 by (simp add: chain_ok_def)
  then have "m_bytes st1 m0 = m_bytes st m0" "chain_bytes st1 os = chain_bytes st os" using ok1 fb0 wfl by simp_all
  then show "chain_ok st' (m' # os)" "m_bytes st' m' = m_bytes st m0" "chain_bytes st' os = chain_bytes st os" "is_pkthdr m'"
    "m_pkthdr m' = (m_pkthdr m)\<lparr>ph_len := int (m_len m0)\<rparr>" using bo m0 m1(4) by simp_all
qed

lemma m_defrag_correct:
  assumes ok: "chain_ok st (ms @ os)" and pk: "pkt_ok ms" "is_pkthdr (hd ms)" and st: "store_ok st"
    and z: "\<forall>m\<in>set ms. \<not> zeroize m" and len: "chain_len ms \<le> MAXMCLBYTES"
  shows "\<exists>st' ks e. m_defrag st ms how = Inr (st', ks, e) \<and>
    (if e = 0 then length ks = 1 \<and> chain_bytes st' ks = chain_bytes st ms \<and> chain_ok st' (ks @ os) \<and>
       chain_bytes st' os = chain_bytes st os \<and> is_pkthdr (hd ks) \<and> m_pkthdr (hd ks) = m_pkthdr (hd ms)
     else e = ENOBUFS \<and> \<not> how \<and> ks = ms \<and> chain_ok st' (ms @ os) \<and> chain_bytes st' (ms @ os) = chain_bytes st (ms @ os))"
proof -
  obtain m ns where ms: "ms = m # ns" using pk by (cases ms) (auto simp: pkt_ok_def)
  have pl: "ph_len (m_pkthdr m) = int (chain_len ms)" "is_pkthdr m" using pk ms by (simp_all add: pkt_ok_def)
  have wf: "wf_chain st ms" using ok by (simp add: chain_ok_def)
  have lb: "length (chain_bytes st ms) = chain_len ms" by (rule length_chain_bytes [OF wf])
  show ?thesis
  proof (cases "ns = []")
    case True
    then show ?thesis using ms ok pl by (simp add: m_defrag_def)
  next
    case ne: False
    show ?thesis
    proof (cases "\<exists>st1 m0. defrag_new st (m_type m) (chain_len ms) how = Inr (st1, Some m0)")
      case False
      then obtain st1 where "defrag_new st (m_type m) (chain_len ms) how = Inr (st1, None)" "same_mem st st1" "\<not> how"
        using defrag_new_cases [OF st len] by blast
      then have "m_defrag st ms how = Inr (st1, ms, ENOBUFS)" "same_mem st st1" "\<not> how"
        using ne ms pl by (simp_all add: m_defrag_def Let_def nat_int_add)
      then show ?thesis using ok same_mem_chain [of st st1] by simp
    next
      case True
      then obtain st1 m0 where d: "defrag_new st (m_type m) (length (chain_bytes st ms)) how = Inr (st1, Some m0)" using lb by auto
      obtain st2 m1 where w: "mb_write st1 m0 0 (chain_bytes st ms) = (st2, m1)" by fastforce
      note n = defrag_new_ok [OF ok st d] and c = defrag_copy [OF ok st d w, unfolded lb]
      have wf1: "wf_chain st1 ms" using n(1) by (simp add: chain_ok_def)
      have "chain_bytes st1 ms = chain_bytes st ms" using n(2) wf1 wf length_chain_bytes [of st1 ms] length_chain_bytes [of st ms] by simp
      then have cd: "m_copydata st1 ms 0 (int (chain_len ms)) = Inr (chain_bytes st ms)"
        using m_copydata_correct [OF wf1] lb ms by simp
      let ?m2 = "m1\<lparr>m_pkthdr := (m_pkthdr m1)\<lparr>ph_len := int (chain_len ms)\<rparr>, m_len := chain_len ms\<rparr>"
      obtain st3 m3 where e: "(if is_ext m then m_extfree (m_freem st2 ns) m else (m_freem st2 ns, m)) = (st3, m3)" by fastforce
      obtain st4 m4 where b: "defrag_bounce st3 m3 ?m2 = (st4, m4)" by fastforce
      have r: "m_defrag st ms how = Inr (st4, [m4], 0)"
        using ne ms pl d [unfolded lb] cd w e b by (simp add: m_defrag_def Let_def nat_int_add)
      have ok2: "chain_ok st2 (?m2 # m # ns @ os)" using c(1) ms by simp
      note t = defrag_tail [OF ok2 _ pl(2) _ _ e b]
      have "chain_bytes st2 os = chain_bytes st os"
        using c(2) c(1) wf lb length_chain_bytes [of st2 ms] length_chain_bytes [of st ms] by (simp add: chain_ok_def)
      then show ?thesis unfolding r using t z ms c(3-6) lb pl by (simp add: chain_ok_def)
    qed
  qed
qed

subsection \<open>Freeing with erasure\<close>

lemma m_free_effect:
  "ext_ref (fst (m_free st (m # ms))) = (if is_ext m then (ext_ref st)(m_ext m := ext_ref st (m_ext m) - 1) else ext_ref st)"
  "ext_mem (fst (m_free st (m # ms))) =
     (if zeroize m \<and> is_ext m then (ext_mem st)(m_ext m := replicate (length (ext_mem st (m_ext m))) 0) else ext_mem st)"
  "snd (m_free st (m # ms)) =
     (if zeroize m then (case ms of [] \<Rightarrow> [] | n # ns \<Rightarrow> n\<lparr>m_flags := set_flag (m_flags n) M_ZEROIZE\<rparr> # ns) else ms)"
proof -
  have z: "is_ext (snd (m_zero s m)) = is_ext m" "m_ext (snd (m_zero s m)) = m_ext m" "is_pkthdr (snd (m_zero s m)) = is_pkthdr m"
    "ext_ref (fst (m_zero s m)) = ext_ref s"
    "ext_mem (fst (m_zero s m)) = (if is_ext m then (ext_mem s)(m_ext m := replicate (length (ext_mem s (m_ext m))) 0) else ext_mem s)" for s
    by (simp_all add: m_zero_def is_ext_def is_pkthdr_def)
  show "ext_ref (fst (m_free st (m # ms))) = (if is_ext m then (ext_ref st)(m_ext m := ext_ref st (m_ext m) - 1) else ext_ref st)"
    "ext_mem (fst (m_free st (m # ms))) =
       (if zeroize m \<and> is_ext m then (ext_mem st)(m_ext m := replicate (length (ext_mem st (m_ext m))) 0) else ext_mem st)"
    "snd (m_free st (m # ms)) =
       (if zeroize m then (case ms of [] \<Rightarrow> [] | n # ns \<Rightarrow> n\<lparr>m_flags := set_flag (m_flags n) M_ZEROIZE\<rparr> # ns) else ms)"
    by (simp_all add: m_free.simps split_beta Let_def zeroize_def z m_tag_delete_chain_effect m_extfree_effect count_mtype_effect
      split: list.splits)
qed

text \<open>The mark changes nothing but the mark.\<close>

lemma zeroized_simps [simp]:
  "is_ext (n\<lparr>m_flags := set_flag (m_flags n) M_ZEROIZE\<rparr>) = is_ext n"
  "is_pkthdr (n\<lparr>m_flags := set_flag (m_flags n) M_ZEROIZE\<rparr>) = is_pkthdr n"
  "wf_mbuf st (n\<lparr>m_flags := set_flag (m_flags n) M_ZEROIZE\<rparr>) = wf_mbuf st n"
  "M_READONLY st (n\<lparr>m_flags := set_flag (m_flags n) M_ZEROIZE\<rparr>) = M_READONLY st n"
proof -
  show e: "is_ext (n\<lparr>m_flags := set_flag (m_flags n) M_ZEROIZE\<rparr>) = is_ext n"
    "is_pkthdr (n\<lparr>m_flags := set_flag (m_flags n) M_ZEROIZE\<rparr>) = is_pkthdr n" by (simp_all add: flag_simps M_ZEROIZE_def bit_numeral_rec)
  show "wf_mbuf st (n\<lparr>m_flags := set_flag (m_flags n) M_ZEROIZE\<rparr>) = wf_mbuf st n" using e by (simp add: wf_mbuf_def m_buf_def)
  have "has_flag (set_flag (m_flags n) M_ZEROIZE) M_EXTWR = has_flag (m_flags n) M_EXTWR"
    by (simp add: flag_bits set_flag_def bit_or_iff M_ZEROIZE_def bit_numeral_rec)
  then show "M_READONLY st (n\<lparr>m_flags := set_flag (m_flags n) M_ZEROIZE\<rparr>) = M_READONLY st n"
    using e by (simp add: M_READONLY_def MCLISREFERENCED_def)
qed

lemma own_cluster: "chain_ok st (m # os) \<Longrightarrow> \<not> M_READONLY st m \<Longrightarrow> is_ext m \<Longrightarrow> refs (m_ext m) os = 0"
  using chain_okD(2) [of st "m # os" m] by (auto simp: M_READONLY_def MCLISREFERENCED_def)

lemma chain_ok_erased:
  assumes ok: "chain_ok st (m # xs)" and ro: "\<not> M_READONLY st m"
  shows "chain_ok (fst (m_free st (m # ms))) xs" "chain_bytes (fst (m_free st (m # ms))) xs = chain_bytes st xs"
    "k \<in> set xs \<Longrightarrow> M_READONLY (fst (m_free st (m # ms))) k = M_READONLY st k"
proof -
  let ?st = "fst (m_free st (m # ms))"
  have o: "m_ext k \<noteq> m_ext m" if "k \<in> set xs" "is_ext k" "is_ext m" for k
    using own_cluster [OF ok ro that(3)] that by (auto simp: refs_0)
  have mem: "ext_mem ?st (m_ext k) = ext_mem st (m_ext k)" "ext_ref ?st (m_ext k) = ext_ref st (m_ext k)" if "k \<in> set xs" "is_ext k" for k
    using o [OF that] by (auto simp: m_free_effect)
  have tl: "chain_ok st xs" by (rule chain_ok_tl [OF ok])
  have "wf_mbuf ?st k" if "k \<in> set xs" for k
    using chain_okD(1) [OF tl] that mem by (intro wf_mbuf_cong [of st k ?st]) (auto simp: list_all_iff wf_mbuf_def)
  then show "chain_ok ?st xs" using chain_okD(2) [OF tl] mem by (intro chain_okI) (auto simp: list_all_iff)
  show "chain_bytes ?st xs = chain_bytes st xs" using mem by (intro chain_bytes_cong)
  show "k \<in> set xs \<Longrightarrow> M_READONLY ?st k = M_READONLY st k" using mem(2) by (auto simp: M_READONLY_def MCLISREFERENCED_def)
qed

lemma chain_ok_zeroized: "chain_ok st (n # xs) \<Longrightarrow> chain_ok st (n\<lparr>m_flags := set_flag (m_flags n) M_ZEROIZE\<rparr> # xs)"
  using chain_ok_replace [of st n xs "n\<lparr>m_flags := set_flag (m_flags n) M_ZEROIZE\<rparr>"] chain_okD(1) [of st "n # xs"] by simp

lemma freem_erased:
  "chain_ok st (ms @ os) \<Longrightarrow> \<forall>m\<in>set ms. \<not> M_READONLY st m \<Longrightarrow>
   chain_ok (m_freem st ms) os \<and> chain_bytes (m_freem st ms) os = chain_bytes st os"
proof (induction "length ms" arbitrary: ms st rule: less_induct)
  case less
  show ?case
  proof (cases ms)
    case Nil
    then show ?thesis using less.prems by (simp add: m_freem.simps)
  next
    case (Cons m ns)
    let ?st = "fst (m_free st (m # ns))" and ?ns = "snd (m_free st (m # ns))"
    have ok: "chain_ok st (m # ns @ os)" and ro: "\<not> M_READONLY st m" using less.prems Cons by simp_all
    note e = chain_ok_erased [OF ok ro, where ms = ns]
    have ns: "?ns = ns \<or> (\<exists>k ks. ns = k # ks \<and> ?ns = k\<lparr>m_flags := set_flag (m_flags k) M_ZEROIZE\<rparr> # ks)"
      by (cases ns) (simp_all add: m_free_effect(3))
    have "\<forall>k\<in>set (ns @ os). M_READONLY ?st k = M_READONLY st k" using e(3) by blast
    then have r: "\<forall>n\<in>set ?ns. \<not> M_READONLY ?st n" using ns less.prems(2) Cons by auto
    have c: "chain_ok ?st (?ns @ os)" using e(1) ns chain_ok_zeroized [of ?st] by auto
    have len: "length ?ns < length ms" using Cons length_m_free [of st "m # ns"] by simp
    have "m_freem st ms = m_freem ?st ?ns" using Cons by (simp add: m_freem.simps [of st "m # ns"] split_beta)
    moreover have "chain_bytes ?st os = chain_bytes st os"
    proof (rule chain_bytes_cong)
      fix k assume k: "k \<in> set os" "is_ext k"
      then show "ext_mem ?st (m_ext k) = ext_mem st (m_ext k)" using own_cluster [OF ok ro] by (auto simp: m_free_effect refs_0)
    qed
    ultimately show ?thesis using less.hyps [OF len c r] by simp
  qed
qed

subsection \<open>\<^verbatim>\<open>m_devget\<close>\<close>

lemma mclgeti_refs:
  assumes "mclgeti st m how len = Inr (st', m')" "store_ok st" "0 < ext_ref st i"
  shows "ext_ref st' i = ext_ref st i"
proof -
  have "i \<noteq> ext_next st" using assms(2,3) by (auto simp: store_ok_def)
  then show ?thesis using assms(1) by (auto simp: mclgeti_eq mextadd_def Let_def split: option.splits if_splits)
qed

text \<open>The mbuf \<open>m\<close> is empty, and \<open>len\<close> bytes from its data pointer on are free.\<close>

definition room_for :: "mstore \<Rightarrow> mbuf \<Rightarrow> mbuf list \<Rightarrow> nat \<Rightarrow> bool" where
  "room_for st m xs len \<longleftrightarrow> chain_ok st (m\<lparr>m_len := 0\<rparr> # xs) \<and> m_data m + len \<le> length (m_buf st m) \<and> \<not> M_READONLY st m"

lemma place_ok:
  assumes ok: "chain_ok st xs" and st: "store_ok st" and m: "\<not> is_ext m" "length (m_dat m) = MLEN" "m_data m + len \<le> MLEN"
      "is_pkthdr m \<longrightarrow> m_pktdat \<le> m_data m" and off: "off \<le> len" "len \<le> MLEN"
  shows "\<exists>st' m' len'. devget_place ml st m left off len first = Inr (st', m', len') \<and> room_for st' m' xs len' \<and>
    chain_bytes st' xs = chain_bytes st xs \<and> store_ok st' \<and> is_pkthdr m' = is_pkthdr m \<and> m_pkthdr m' = m_pkthdr m \<and>
    (\<forall>i. 0 < ext_ref st i \<longrightarrow> ext_ref st' i = ext_ref st i)"
proof -
  have adv: "room_for s (k\<lparr>m_data := m_data k + o'\<rparr>) xs (l - o')" if "room_for s k xs l" "o' \<le> l" for s k l o'
  proof -
    let ?k = "k\<lparr>m_data := m_data k + o'\<rparr>"
    have w: "wf_mbuf s (k\<lparr>m_len := 0\<rparr>)" using that by (simp add: room_for_def chain_ok_def)
    then have "wf_mbuf s (?k\<lparr>m_len := 0\<rparr>)" using that by (auto simp: room_for_def wf_mbuf_def m_buf_def is_ext_def is_pkthdr_def split: if_splits)
    then have "chain_ok s (?k\<lparr>m_len := 0\<rparr> # xs)"
      using that(1) chain_ok_replace [of s "k\<lparr>m_len := 0\<rparr>" xs "?k\<lparr>m_len := 0\<rparr>"] by (simp add: room_for_def is_ext_def)
    then show ?thesis using that by (simp add: room_for_def M_READONLY_def MCLISREFERENCED_def m_buf_def is_ext_def split: if_splits)
  qed
  have wf0: "wf_mbuf st (m\<lparr>m_len := 0\<rparr>)" using m by (auto simp: wf_mbuf_def m_buf_def is_ext_def is_pkthdr_def)
  have r0: "room_for st m xs len" using chain_ok_new [OF ok wf0] m by (simp add: room_for_def m_buf_def M_READONLY_def is_ext_def)
  have "\<exists>x. (if left + off \<ge> MINCLSIZE then mclgeti st m False MCLBYTES else Inr (st, m)) = Inr x"
    using MCLBYTES_pool by (auto simp: mclgeti_eq)
  then obtain st1 m1 where g: "(if left + off \<ge> MINCLSIZE then mclgeti st m False MCLBYTES else Inr (st, m)) = Inr (st1, m1)"
    by (metis surj_pair)
  have r1: "room_for st1 m1 xs (if left + off \<ge> MINCLSIZE \<and> is_ext m1 then MCLBYTES else len)" "chain_bytes st1 xs = chain_bytes st xs"
    "store_ok st1" "is_pkthdr m1 = is_pkthdr m" "m_pkthdr m1 = m_pkthdr m" "\<forall>i. 0 < ext_ref st i \<longrightarrow> ext_ref st1 i = ext_ref st i"
  proof -
    have "room_for st1 m1 xs (if left + off \<ge> MINCLSIZE \<and> is_ext m1 then MCLBYTES else len) \<and> chain_bytes st1 xs = chain_bytes st xs \<and>
      store_ok st1 \<and> is_pkthdr m1 = is_pkthdr m \<and> m_pkthdr m1 = m_pkthdr m \<and> (\<forall>i. 0 < ext_ref st i \<longrightarrow> ext_ref st1 i = ext_ref st i)"
    proof (cases "left + off \<ge> MINCLSIZE \<and> is_ext m1")
      case True
      then have c: "mclgeti st m False MCLBYTES = Inr (st1, m1)" using g by simp
      show ?thesis using mclgeti_new [OF c _ m(1) st m(2) ok] True mclgeti_keeps(2) [OF c st] mclgeti_refs [OF c st] by (simp add: room_for_def)
    next
      case False
      then have "st1 = st \<and> m1 = m" using g mclgeti_none [of st m False MCLBYTES st1 m1] by (cases "left + off \<ge> MINCLSIZE") auto
      then show ?thesis using r0 st False by auto
    qed
    then show "room_for st1 m1 xs (if left + off \<ge> MINCLSIZE \<and> is_ext m1 then MCLBYTES else len)" "chain_bytes st1 xs = chain_bytes st xs"
      "store_ok st1" "is_pkthdr m1 = is_pkthdr m" "m_pkthdr m1 = m_pkthdr m" "\<forall>i. 0 < ext_ref st i \<longrightarrow> ext_ref st1 i = ext_ref st i" by blast+
  qed
  let ?l1 = "if left + off \<ge> MINCLSIZE \<and> is_ext m1 then MCLBYTES else len"
  let ?s = "if \<not> left + off \<ge> MINCLSIZE \<and> first \<and> left + off + ml \<le> len then ml else 0"
  have o: "off \<le> ?l1 - ?s" "?s \<le> ?l1" using off by (auto simp: MCLBYTES_def msize_facts)
  have r2: "room_for st1 (m1\<lparr>m_data := m_data m1 + ?s\<rparr>) xs (?l1 - ?s)" by (rule adv [OF r1(1) o(2)])
  note r3 = adv [OF r2 o(1)]
  have p: "devget_place ml st m left off len first = Inr (st1, m1\<lparr>m_data := m_data m1 + ?s + off\<rparr>, ?l1 - ?s - off)"
    using g by (simp add: devget_place_def)
  show ?thesis unfolding p using r1(2-6) r3 by (auto simp: is_pkthdr_def)
qed

lemma fill_room:
  assumes r: "room_for st m xs len" and k: "length ys \<le> len" and w: "mb_write st (m\<lparr>m_len := length ys\<rparr>) 0 ys = (st', m')"
  shows "chain_ok st' (m' # xs)" "m_bytes st' m' = ys" "chain_bytes st' xs = chain_bytes st xs" "\<not> M_READONLY st' m'"
    "ext_ref st' = ext_ref st" "is_pkthdr m' = is_pkthdr m" "m_pkthdr m' = m_pkthdr m" "store_ok st' = store_ok st"
proof -
  obtain m1 where w1: "mb_write st m 0 ys = (st', m1)" "m' = m1\<lparr>m_len := length ys\<rparr>"
    using w by (auto simp: mb_write_len split: prod.splits)
  have f: "m_flags m1 = m_flags m" "m_ext m1 = m_ext m" "m_pkthdr m1 = m_pkthdr m" "ext_ref st' = ext_ref st" "store_ok st' = store_ok st"
    using w1(1) by (auto simp: mb_write_def store_ok_def split: if_splits)
  let ?m = "m\<lparr>m_len := 0\<rparr>"
  have w0: "mb_write st ?m (m_len ?m) ys = (st', m1\<lparr>m_len := 0\<rparr>)" using w1(1) by (simp add: mb_write_len)
  have b: "m_buf st ?m = m_buf st m" "M_READONLY st ?m = M_READONLY st m" by (simp_all add: m_buf_def M_READONLY_def MCLISREFERENCED_def is_ext_def)
  have p: "chain_ok st (?m # xs)" "\<not> M_READONLY st ?m" "m_data ?m + m_len ?m + length ys \<le> length (m_buf st ?m)"
    using r k b by (auto simp: room_for_def)
  note a = append_bytes [OF p(1,2) w0 p(3), simplified]
  have "m_buf st' m' = m_buf st' m1" by (simp add: m_buf_def is_ext_def w1(2))
  then show "m_bytes st' m' = ys" using a(3) w1(2) by (simp add: m_bytes_def mem_read_def)
  show "chain_ok st' (m' # xs)" "chain_bytes st' xs = chain_bytes st xs" using a(1,2) w1(2) by simp_all
  show "\<not> M_READONLY st' m'" using r f w1(2) by (simp add: room_for_def M_READONLY_def MCLISREFERENCED_def is_ext_def)
  show "ext_ref st' = ext_ref st" "is_pkthdr m' = is_pkthdr m" "m_pkthdr m' = m_pkthdr m" "store_ok st' = store_ok st"
    using f w1(2) by (simp_all add: is_pkthdr_def)
qed

lemma bytes_split:
  assumes "chain_bytes st' (xs @ ys) = chain_bytes st (xs @ ys)" "wf_chain st (xs @ ys)" "wf_chain st' (xs @ ys)"
  shows "chain_bytes st' xs = chain_bytes st xs" "chain_bytes st' ys = chain_bytes st ys"
  using assms length_chain_bytes [of st xs] length_chain_bytes [of st' xs] by simp_all

text \<open>
  The state of the loop: the packet so far, \<open>top'\<close>, holds the bytes \<open>ys\<close>, its clusters are its own,
  and the other chains hold \<open>bs\<close>.
\<close>

definition got :: "mstore \<Rightarrow> mbuf list \<Rightarrow> mbuf list \<Rightarrow> u8 list \<Rightarrow> pkthdr \<Rightarrow> u8 list \<Rightarrow> bool" where
  "got st top' os bs h ys \<longleftrightarrow> chain_ok st (top' @ os) \<and> chain_bytes st os = bs \<and> store_ok st \<and> chain_bytes st top' = ys \<and>
     (\<forall>m\<in>set top'. \<not> M_READONLY st m) \<and> (top' \<noteq> [] \<longrightarrow> is_pkthdr (hd top') \<and> m_pkthdr (hd top') = h)"

lemma got_step:
  assumes g: "got st top' os bs h ys" and r: "room_for st1 m (top' @ os) len" "chain_bytes st1 (top' @ os) = chain_bytes st (top' @ os)"
    "store_ok st1" "\<forall>i. 0 < ext_ref st i \<longrightarrow> ext_ref st1 i = ext_ref st i"
    and h: "top' = [] \<Longrightarrow> is_pkthdr m \<and> m_pkthdr m = h" and k: "length zs \<le> len"
    and w: "mb_write st1 (m\<lparr>m_len := length zs\<rparr>) 0 zs = (st2, m2)"
  shows "got st2 (top' @ [m2]) os bs h (ys @ zs)"
proof -
  note f = fill_room [OF r(1) k w]
  have wf: "wf_chain st (top' @ os)" "wf_chain st2 (top' @ os)" using g f(1) by (simp_all add: got_def chain_ok_def)
  have b: "chain_bytes st2 (top' @ os) = chain_bytes st (top' @ os)" using f(3) r(2) by simp
  note bs = bytes_split [OF b wf]
  have ok: "chain_ok st2 ((top' @ [m2]) @ os) = chain_ok st2 (m2 # top' @ os)" by (rule chain_ok_perm) auto
  have ro: "\<not> M_READONLY st2 n" if "n \<in> set top'" for n
  proof -
    have n: "\<not> M_READONLY st n" "wf_mbuf st n" using g wf(1) that by (auto simp: got_def list_all_iff)
    then show ?thesis using f(5) r(4) by (auto simp: M_READONLY_def MCLISREFERENCED_def wf_mbuf_def)
  qed
  show ?thesis unfolding got_def ok using g f(1,2,4,6-8) bs ro h r(3) by (cases "top' = []") (auto simp: got_def)
qed

text \<open>The mbuf for the next round.\<close>

definition fresh :: "mbuf \<Rightarrow> nat \<Rightarrow> bool" where
  "fresh m len \<longleftrightarrow> \<not> is_ext m \<and> length (m_dat m) = MLEN \<and> m_data m + len \<le> MLEN \<and> (is_pkthdr m \<longrightarrow> m_pktdat \<le> m_data m) \<and> len \<le> MLEN"

definition devget_post :: "mbuf list \<Rightarrow> u8 list \<Rightarrow> pkthdr \<Rightarrow> u8 list \<Rightarrow> mstore \<Rightarrow> mbuf list \<Rightarrow> bool" where
  "devget_post os bs h ys st ks \<longleftrightarrow> chain_bytes st os = bs \<and>
     (if ks = [] then chain_ok st os
      else chain_ok st (ks @ os) \<and> chain_bytes st ks = ys \<and> is_pkthdr (hd ks) \<and> m_pkthdr (hd ks) = h)"

lemma got_freed:
  assumes g: "got st top' os bs h ys" and ne: "top' \<noteq> []"
  shows "devget_post os bs h zs (m_freem st ((hd top')\<lparr>m_flags := set_flag (m_flags (hd top')) M_ZEROIZE\<rparr> # tl top')) []"
proof -
  obtain m ms where t: "top' = m # ms" using ne by (cases top') auto
  have "chain_ok st ((m\<lparr>m_flags := set_flag (m_flags m) M_ZEROIZE\<rparr> # ms) @ os)" using g t chain_ok_zeroized by (simp add: got_def)
  from freem_erased [OF this] show ?thesis using g t by (simp add: devget_post_def got_def)
qed

lemma devget_avail:
  "devget_place ml st m left off len first = Inr (st', m', len') \<Longrightarrow> mb_avail st' = mb_avail st"
  "mb_write st m off ys = (st', m') \<Longrightarrow> mb_avail st' = mb_avail st"
  "m_get st how t = (Some n, st') \<Longrightarrow> mb_avail st' = mb_avail st - 1"
  "m_gethdr st how t = (Some n, st') \<Longrightarrow> mb_avail st' = mb_avail st - 1"
  "m_get st how t = (None, st') \<Longrightarrow> mb_avail st = 0"
  "m_gethdr st how t = (None, st') \<Longrightarrow> mb_avail st = 0"
  subgoal by (auto simp: devget_place_def mclgeti_eq mextadd_def Let_def split: if_splits option.splits)
  by (auto simp: mb_write_def m_get_def m_gethdr_def count_mtype_effect Let_def split: if_splits)

lemma devget_loop_ok:
  "got st top' os bs h ys \<Longrightarrow> (if top' = [] then fresh m len \<and> is_pkthdr m \<and> m_pkthdr m = h \<and> off \<le> len else off = 0) \<Longrightarrow>
   \<exists>st' ks. devget_loop ml st m buf off len top' = Inr (st', ks) \<and> devget_post os bs h (ys @ buf) st' ks \<and>
     (length buf \<le> mb_avail st \<and> (top' \<noteq> [] \<or> buf \<noteq> []) \<longrightarrow> ks \<noteq> [])"
proof (induction "length buf + off + (if top' = [] then 1 else 0)" arbitrary: st m buf off len top' ys rule: less_induct)
  case less
  note g = less.prems(1) and fr = less.prems(2)
  show ?case
  proof (cases "buf = []")
    case True
    then show ?thesis using g by (auto simp: devget_loop.simps [of ml st] devget_post_def got_def)
  next
    case ne: False
    have gm: "m_get st False MT_DATA = (None, st) \<or> (\<exists>n st0. m_get st False MT_DATA = (Some n, st0))"
      using m_get_None [of st False MT_DATA] by (cases "m_get st False MT_DATA"; cases "fst (m_get st False MT_DATA)") auto
    show ?thesis
    proof (cases "top' \<noteq> [] \<and> m_get st False MT_DATA = (None, st)")
      case True
      then show ?thesis using ne got_freed [OF g] devget_avail(5) [of st False MT_DATA st] by (simp add: devget_loop.simps [of ml st])
    next
      case False
      let ?len = "if top' \<noteq> [] then MLEN else len"
      obtain n st0 where n: "(if top' \<noteq> [] then m_get st False MT_DATA else (Some m, st)) = (Some n, st0)"
        using False gm by (cases "top' = []") auto
      have fn: "fresh n ?len" "off \<le> ?len" "top' = [] \<longrightarrow> is_pkthdr n \<and> m_pkthdr n = h" and sm: "same_mem st st0"
      proof -
        have "same_mem st st0 \<and> fresh n ?len \<and> off \<le> ?len \<and> (top' = [] \<longrightarrow> is_pkthdr n \<and> m_pkthdr n = h)"
        proof (cases "top' = []")
          case True
          then show ?thesis using n fr by (auto simp: same_mem_def)
        next
          case False
          then have gg: "m_get st False MT_DATA = (Some n, st0)" using n by simp
          show ?thesis using m_get_Some(1-3) [OF gg] same_mem_get [OF gg] g False fr by (auto simp: fresh_def flag_simps got_def store_ok_def)
        qed
        then show "fresh n ?len" "off \<le> ?len" "top' = [] \<longrightarrow> is_pkthdr n \<and> m_pkthdr n = h" "same_mem st st0" by blast+
      qed
      have g0: "got st0 top' os bs h ys"
        using g sm same_mem_chain [OF sm] by (simp add: got_def same_mem_def M_READONLY_def MCLISREFERENCED_def)
      have "chain_ok st0 (top' @ os)" "store_ok st0" using g0 by (simp_all add: got_def)
      from place_ok [OF this, of n ?len off ml "length buf" "top' = []"] fn obtain st1 m1 len1 where
        p: "devget_place ml st0 n (length buf) off ?len (top' = []) = Inr (st1, m1, len1)" "room_for st1 m1 (top' @ os) len1"
          "chain_bytes st1 (top' @ os) = chain_bytes st0 (top' @ os)" "store_ok st1" "is_pkthdr m1 = is_pkthdr n" "m_pkthdr m1 = m_pkthdr n"
          "\<forall>i. 0 < ext_ref st0 i \<longrightarrow> ext_ref st1 i = ext_ref st0 i" unfolding fresh_def by blast
      define zs where "zs = take (min (length buf) len1) buf"
      have zs: "length zs = min (length buf) len1" "length zs \<le> len1" by (simp_all add: zs_def)
      obtain st2 m2 where w: "mb_write st1 (m1\<lparr>m_len := length zs\<rparr>) 0 zs = (st2, m2)" by fastforce
      have g2: "got st2 (top' @ [m2]) os bs h (ys @ zs)" by (rule got_step [OF g0 p(2-4,7) _ zs(2) w]) (use fn p(5,6) in simp)
      have r: "devget_loop ml st m buf off len top' = devget_loop ml st2 m2 (drop (length zs) buf) 0 (length zs) (top' @ [m2])"
        using ne n p(1) w zs(1) by (simp add: devget_loop.simps [of ml st] Let_def zs_def)
      have l1: "0 < len1" if "off = 0" "top' \<noteq> []" using devget_place_room p(1) that by fastforce
      have "mb_avail st0 = (if top' = [] then mb_avail st else mb_avail st - 1)"
        using n devget_avail(3) [of st False MT_DATA n st0] by (cases "top' = []") simp_all
      then have "mb_avail st2 = (if top' = [] then mb_avail st else mb_avail st - 1)"
        using devget_avail(1) [OF p(1)] devget_avail(2) [OF w] by simp
      moreover have "0 < length zs" if "top' \<noteq> []" using l1 fr that zs(1) ne by simp
      ultimately have av: "length (drop (length zs) buf) \<le> mb_avail st2" if "length buf \<le> mb_avail st"
        using that diff_le_mono2 [of 1 "length zs" "length buf"] by (cases "top' = []") (simp_all add: Suc_le_eq)
      have "length (drop (length zs) buf) + 0 + (if top' @ [m2] = [] then 1 else 0) < length buf + off + (if top' = [] then 1 else 0)"
        using zs(1) ne l1 by (cases "off = 0"; cases "top' = []") auto
      from less.hyps [OF this g2, of m2 "length zs"] obtain st' ks where
        "devget_loop ml st2 m2 (drop (length zs) buf) 0 (length zs) (top' @ [m2]) = Inr (st', ks)"
        "devget_post os bs h ((ys @ zs) @ drop (length zs) buf) st' ks" "length (drop (length zs) buf) \<le> mb_avail st2 \<Longrightarrow> ks \<noteq> []" by auto
      moreover have "(ys @ zs) @ drop (length zs) buf = ys @ buf" by (simp add: zs_def)
      ultimately show ?thesis unfolding r using av by auto
    qed
  qed
qed

lemma m_devget_correct:
  assumes ok: "chain_ok st os" and st: "store_ok st"
  shows "\<exists>st' ks. m_devget ml st buf off = Inr (st', ks) \<and> chain_ok st' (ks @ os) \<and> chain_bytes st' os = chain_bytes st os \<and>
    (ks \<noteq> [] \<longrightarrow> chain_bytes st' ks = buf \<and> is_pkthdr (hd ks) \<and> ph_len (m_pkthdr (hd ks)) = int (length buf)) \<and>
    (0 \<le> off \<and> off \<le> int MHLEN \<and> buf \<noteq> [] \<and> length buf < mb_avail st \<longrightarrow> ks \<noteq> [])"
proof (cases "off < 0 \<or> off > int MHLEN \<or> (\<exists>st'. m_gethdr st False MT_DATA = (None, st'))")
  case True
  then show ?thesis using ok m_gethdr_None [of st False MT_DATA] devget_avail(6) [of st False MT_DATA] by (auto simp: m_devget_def)
next
  case False
  then obtain m0 st0 where g: "m_gethdr st False MT_DATA = (Some m0, st0)" by (metis surj_pair not_Some_eq)
  note g1 = m_gethdr_Some [OF g] and sm = same_mem_chain [OF same_mem_gethdr [OF g]] and av = devget_avail(4) [OF g]
  let ?m = "m0\<lparr>m_pkthdr := (m_pkthdr m0)\<lparr>ph_len := int (length buf)\<rparr>\<rparr>"
  have "got st0 [] os (chain_bytes st os) (m_pkthdr ?m) []" using ok st sm g1(9) by (simp add: got_def)
  moreover have "fresh ?m MHLEN \<and> is_pkthdr ?m \<and> m_pkthdr ?m = m_pkthdr ?m \<and> nat off \<le> MHLEN"
    using g1(1-4) st False by (auto simp: fresh_def store_ok_def is_ext_def is_pkthdr_def msize_facts)
  ultimately show ?thesis using devget_loop_ok [of st0 "[]" os "chain_bytes st os" "m_pkthdr ?m" "[]" ?m MHLEN "nat off" ml buf] g av False
    by (fastforce simp: m_devget_def devget_post_def split: if_splits)
qed

end
