(* ===== verification/Mbuf_Pulldown.thy ===== *)
theory Mbuf_Pulldown
  imports Mbuf_Defrag
begin

text \<open>
  \<^verbatim>\<open>m_pulldown\<close> of \<^verbatim>\<open>kern/uipc_mbuf2.c\<close>: a range of a packet becomes contiguous and writable,
  while the chain before it stays.
\<close>

subsection \<open>Operations\<close>

text \<open>A cluster for the new mbuf \<open>n\<close> if \<open>len\<close> bytes need more than its own room \<open>l\<close>.\<close>

definition dup1_room :: "mstore \<Rightarrow> mbuf \<Rightarrow> bool \<Rightarrow> nat \<Rightarrow> nat \<Rightarrow> string + (mstore \<times> mbuf option)" where
  "dup1_room st n wait len l =
     (if len > l then
        (case mclgeti st n wait len of
           Inl e \<Rightarrow> Inl e
         | Inr (st, n) \<Rightarrow> if \<not> is_ext n then Inr (fst (m_free st [n]), None) else Inr (st, Some n))
      else Inr (st, Some n))"

text \<open>The mbuf for the copy, with the packet header where it copies the start of the packet.\<close>

definition dup1_get :: "mstore \<Rightarrow> mbuf \<Rightarrow> nat \<Rightarrow> bool \<Rightarrow> string + (mstore \<times> (mbuf \<times> nat) option)" where
  "dup1_get st m off wait =
     (if off = 0 \<and> is_pkthdr m then
        (case m_gethdr st wait (m_type m) of
           (None, st) \<Rightarrow> Inr (st, None)
         | (Some n, st) \<Rightarrow>
             (case m_dup_pkthdr st n m wait of
                Inl e \<Rightarrow> Inl e
              | Inr (ok, st, n) \<Rightarrow> if \<not> ok then Inr (fst (m_free st [n]), None) else Inr (st, Some (n, MHLEN))))
      else
        (case m_get st wait (m_type m) of
           (None, st) \<Rightarrow> Inr (st, None)
         | (Some n, st) \<Rightarrow> Inr (st, Some (n, MLEN))))"

definition m_dup1 :: "mstore \<Rightarrow> mbuf list \<Rightarrow> nat \<Rightarrow> nat \<Rightarrow> bool \<Rightarrow> string + (mstore \<times> mbuf option)" where
  "m_dup1 st ms off len wait =
     (if len > MAXMCLBYTES then Inr (st, None)
      else case dup1_get st (hd ms) off wait of
             Inl e \<Rightarrow> Inl e
           | Inr (st, None) \<Rightarrow> Inr (st, None)
           | Inr (st, Some (n, l)) \<Rightarrow>
               (case dup1_room st n wait len l of
                  Inl e \<Rightarrow> Inl e
                | Inr (st, None) \<Rightarrow> Inr (st, None)
                | Inr (st, Some n) \<Rightarrow>
                    (case m_copydata st ms (int off) (int len) of
                       Inl e \<Rightarrow> Inl e
                     | Inr bytes \<Rightarrow> let (st, n) = mb_write st n 0 bytes in Inr (st, Some (n\<lparr>m_len := len\<rparr>)))))"

text \<open>
  The result is the chain up to the returned mbuf, the chain from it on, and the offset into
  it; \<open>None\<close> is the null pointer, with the chain freed.
\<close>

type_synonym pulldown = "string + (mstore \<times> (mbuf list \<times> mbuf list \<times> nat) option)"

text \<open>The range lies in \<open>n\<close>, but not where the caller wants it, or in a shared cluster.\<close>

definition pulldown_chop :: "mstore \<Rightarrow> mbuf list \<Rightarrow> mbuf \<Rightarrow> mbuf list \<Rightarrow> nat \<Rightarrow> pulldown" where
  "pulldown_chop st pre n rest off =
     (case m_dup1 st (n # rest) off (m_len n - off) False of
        Inl e \<Rightarrow> Inl e
      | Inr (st, None) \<Rightarrow> Inr (m_freem st (pre @ n # rest), None)
      | Inr (st, Some k) \<Rightarrow> Inr (st, Some (pre @ [n\<lparr>m_len := off\<rparr>], k # rest, 0)))"

text \<open>The range goes into an mbuf of its own, \<open>k\<close>, with room for it.\<close>

definition pulldown_fill :: "mstore \<Rightarrow> mbuf list \<Rightarrow> mbuf \<Rightarrow> mbuf list \<Rightarrow> nat \<Rightarrow> nat \<Rightarrow> mbuf \<Rightarrow> pulldown" where
  "pulldown_fill st pre n rest off len k =
     (let hlen = m_len n - off; tlen = len - hlen;
          (st, k) = mb_write st (k\<lparr>m_len := hlen\<rparr>) 0 (mem_read (m_buf st n) (m_data n + off) hlen);
          n = n\<lparr>m_len := m_len n - hlen\<rparr>
      in case m_copydata st rest 0 (int tlen) of
           Inl e \<Rightarrow> Inl e
         | Inr bytes \<Rightarrow>
             let (st, k) = mb_write st k (m_len k) bytes; k = k\<lparr>m_len := m_len k + tlen\<rparr>
             in Inr (st, Some (pre @ [n], k # m_adj rest (int tlen), 0)))"

definition pulldown_hard :: "mstore \<Rightarrow> mbuf list \<Rightarrow> mbuf \<Rightarrow> mbuf list \<Rightarrow> nat \<Rightarrow> nat \<Rightarrow> pulldown" where
  "pulldown_hard st pre n rest off len =
     (if len > MAXMCLBYTES then Inr (m_freem st (pre @ n # rest), None)
      else
        case m_get st False (m_type (hd (pre @ n # rest))) of
          (None, st) \<Rightarrow> Inr (m_freem st (pre @ n # rest), None)
        | (Some k, st) \<Rightarrow>
            (case dup1_room st k False len MLEN of
               Inl e \<Rightarrow> Inl e
             | Inr (st, None) \<Rightarrow> Inr (m_freem st (pre @ n # rest), None)
             | Inr (st, Some k) \<Rightarrow> pulldown_fill st pre n rest off len k))"

text \<open>The range starts in \<open>n\<close> and ends behind it.\<close>

definition pulldown_across :: "mstore \<Rightarrow> mbuf list \<Rightarrow> mbuf \<Rightarrow> mbuf list \<Rightarrow> nat \<Rightarrow> nat \<Rightarrow> bool \<Rightarrow> pulldown" where
  "pulldown_across st pre n rest off len offp =
     (let hlen = m_len n - off; tlen = len - hlen; inplace = (off = 0 \<or> offp) \<and> \<not> M_READONLY st n
      in if hlen + chain_len rest < len then Inr (m_freem st (pre @ n # rest), None)
         else if inplace \<and> m_trailingspace st n \<ge> int tlen then
           (case m_copydata st rest 0 (int tlen) of
              Inl e \<Rightarrow> Inl e
            | Inr bytes \<Rightarrow>
                let (st, n) = mb_write st n (m_len n) bytes; n = n\<lparr>m_len := m_len n + tlen\<rparr>
                in Inr (st, Some (pre, n # m_adj rest (int tlen), off)))
         else if inplace \<and> m_leadingspace st (hd rest) \<ge> int hlen \<and> m_len (hd rest) \<ge> tlen then
           (let k = (hd rest)\<lparr>m_data := m_data (hd rest) - hlen, m_len := m_len (hd rest) + hlen\<rparr>;
                (st, k) = mb_write st k 0 (mem_read (m_buf st n) (m_data n + off) hlen);
                n = n\<lparr>m_len := m_len n - hlen\<rparr>
            in Inr (st, Some (pre @ [n], k # tl rest, 0)))
         else pulldown_hard st pre n rest off len)"

definition m_pulldown :: "mstore \<Rightarrow> mbuf list \<Rightarrow> int \<Rightarrow> int \<Rightarrow> bool \<Rightarrow> pulldown" where
  "m_pulldown st ms off len offp =
     (if ms = [] then Inl ''m == NULL in m_pulldown()''
      else case m_getptr ms off of
             None \<Rightarrow> Inr (m_freem st ms, None)
           | Some (ns, off) \<Rightarrow>
               let pre = take (length ms - length ns) ms; n = hd ns; rest = tl ns
               in if (off = 0 \<or> offp) \<and> len \<le> int (m_len n) - int off \<and> \<not> M_READONLY st n then Inr (st, Some (pre, ns, off))
                  else if len \<le> int (m_len n) - int off then pulldown_chop st pre n rest off
                  else pulldown_across st pre n rest off (nat len) offp)"

subsection \<open>Chains on the same buffers\<close>

definition same_bufs :: "mbuf list \<Rightarrow> mbuf list \<Rightarrow> bool" where
  "same_bufs ms ns \<longleftrightarrow> map (\<lambda>m. (is_ext m, m_ext m)) ms = map (\<lambda>m. (is_ext m, m_ext m)) ns"

lemma same_bufs_simps [simp]:
  "same_bufs ms ms" "same_bufs (m # ms) (n # ns) \<longleftrightarrow> is_ext m = is_ext n \<and> m_ext m = m_ext n \<and> same_bufs ms ns"
  "same_bufs [] []"
  by (auto simp: same_bufs_def)

lemma same_bufs_append: "same_bufs ms ns \<Longrightarrow> same_bufs xs ys \<Longrightarrow> same_bufs (ms @ xs) (ns @ ys)"
  by (simp add: same_bufs_def)

lemma same_bufs_refs: "same_bufs ms ns \<Longrightarrow> refs i ns = refs i ms"
proof (induction ms arbitrary: ns)
  case (Cons m ms)
  obtain n ks where ns: "ns = n # ks" using Cons.prems by (cases ns) (simp_all add: same_bufs_def)
  then show ?case using Cons.IH [of ks] Cons.prems by simp
qed (simp add: same_bufs_def)

lemma chain_ok_same_bufs:
  assumes ok: "chain_ok st ms" and wf: "wf_chain st ns" and s: "same_bufs ms ns"
  shows "chain_ok st ns"
proof (rule chain_okI [OF wf])
  fix k assume k: "k \<in> set ns" "is_ext k"
  have "(is_ext k, m_ext k) \<in> (\<lambda>m. (is_ext m, m_ext m)) ` set ns" using k by blast
  also have "\<dots> = (\<lambda>m. (is_ext m, m_ext m)) ` set ms" using s unfolding same_bufs_def by (metis list.set_map)
  finally obtain m where "m \<in> set ms" "is_ext m" "m_ext m = m_ext k" using k(2) by auto
  then show "refs (m_ext k) ns \<le> ext_ref st (m_ext k)" using chain_okD(2) [OF ok, of m] same_bufs_refs [OF s] by simp
qed

lemma same_bufs_adj_head: "m_adj_head ms len = (ns, r) \<Longrightarrow> same_bufs ms ns"
proof (induction ms len arbitrary: ns r rule: m_adj_head.induct)
  case (2 m ms len)
  obtain xs y where h: "m_adj_head ms (len - m_len m) = (xs, y)" by fastforce
  show ?case
  proof (cases "len \<noteq> 0 \<and> m_len m \<le> len")
    case True
    then show ?thesis using 2(1) [OF _ _ h] 2(2) h by (auto simp: is_ext_def)
  next
    case False
    then show ?thesis using 2(2) by (cases "len = 0") (auto simp: is_ext_def)
  qed
qed simp

lemma m_adj_cut:
  assumes "wf_chain st ms"
  shows "chain_bytes st (m_adj ms (int t)) = drop t (chain_bytes st ms)" "wf_chain st (m_adj ms (int t))" "same_bufs ms (m_adj ms (int t))"
proof -
  obtain ns r where h: "m_adj_head ms t = (ns, r)" by fastforce
  have p: "same_bufs ns (set_pktlen ns f)" for f by (cases ns) (simp_all add: set_pktlen_def is_ext_def)
  note a = m_adj_head_correct [OF assms h]
  show "chain_bytes st (m_adj ms (int t)) = drop t (chain_bytes st ms)" "wf_chain st (m_adj ms (int t))"
    using a h by (cases "ms = []"; simp add: m_adj_def)+
  show "same_bufs ms (m_adj ms (int t))"
    using same_bufs_adj_head [OF h] p h by (cases "ms = []") (simp_all add: m_adj_def same_bufs_def)
qed

subsection \<open>New mbufs\<close>

lemma dup1_room_ok:
  assumes ok: "chain_ok st xs" and st: "store_ok st" and n: "fresh n l" and len: "len \<le> MAXMCLBYTES"
  shows "\<exists>st' r. dup1_room st n wait len l = Inr (st', r) \<and>
    (case r of None \<Rightarrow> same_mem st st' \<and> (\<exists>pi. cl_avail st pi = 0)
     | Some k \<Rightarrow> room_for st' k xs len \<and> chain_bytes st' xs = chain_bytes st xs)"
proof (cases "len > l")
  case False
  have wf0: "wf_mbuf st (n\<lparr>m_len := 0\<rparr>)" using n by (auto simp: fresh_def wf_mbuf_def m_buf_def is_ext_def is_pkthdr_def)
  have "room_for st n xs len" using chain_ok_new [OF ok wf0] n False by (simp add: fresh_def room_for_def m_buf_def M_READONLY_def is_ext_def)
  then show ?thesis using False by (simp add: dup1_room_def)
next
  case True
  obtain pi where "m_clpool len = Some pi" using len m_clpool_None [of len] by (cases "m_clpool len") auto
  then have c: "mclgeti st n wait len = Inr (if cl_avail st pi = 0 \<and> \<not> wait then (st, n)
      else mextadd (st\<lparr>cl_avail := (cl_avail st)(pi := cl_avail st pi - 1)\<rparr>) n pi)" by (simp add: mclgeti_eq)
  have x: "is_ext (snd (mextadd s n pi))" for s by (simp add: mextadd_def flag_simps Let_def)
  have e: "\<not> is_ext n" "length (m_dat n) = MLEN" using n by (simp_all add: fresh_def)
  show ?thesis
  proof (cases "cl_avail st pi = 0 \<and> \<not> wait")
    case True
    then show ?thesis using \<open>l < len\<close> c e m_free_own [OF e(1), of st] by (auto simp: dup1_room_def)
  next
    case False
    let ?e = "mextadd (st\<lparr>cl_avail := (cl_avail st)(pi := cl_avail st pi - 1)\<rparr>) n pi"
    obtain st' k where k: "?e = (st', k)" by fastforce
    then have m: "mclgeti st n wait len = Inr (st', k)" "is_ext k" using c x [of "st\<lparr>cl_avail := (cl_avail st)(pi := cl_avail st pi - 1)\<rparr>"] False by simp_all
    show ?thesis using mclgeti_new [OF m e(1) st e(2) ok] m \<open>l < len\<close> by (simp add: dup1_room_def room_for_def)
  qed
qed

text \<open>Copying tags succeeds where there is memory for them.\<close>

lemma tag_copy_loop_succeeds:
  "tags_fit ts \<Longrightarrow> length ts \<le> tag_avail st \<Longrightarrow> \<exists>st' to'. tag_copy_loop st to ts wait = Inr (True, st', to')"
proof (induction ts arbitrary: st to)
  case (Cons t ts)
  then show ?case by (auto simp: tags_fit_def m_tag_copy_def m_tag_get_def Let_def)
qed simp

lemma dup_pkthdr_succeeds:
  assumes "is_pkthdr frm" "tags_fit (ph_tags (m_pkthdr frm))" "length (ph_tags (m_pkthdr frm)) \<le> tag_avail st"
  shows "\<exists>st' to'. m_dup_pkthdr st to frm wait = Inr (True, st', to')"
proof -
  let ?to = "to\<lparr>m_flags := (m_flags to AND (M_EXT OR M_EXTWR)) OR (m_flags frm AND M_COPYFLAGS), m_pkthdr := (m_pkthdr frm)\<lparr>ph_tags := []\<rparr>\<rparr>"
  have "\<exists>st' to'. m_tag_copy_chain st ?to frm wait = Inr (True, st', to')"
    unfolding m_tag_copy_chain_def m_tag_delete_chain_def Let_def using tag_copy_loop_succeeds [OF assms(2)] assms(3) by simp
  then show ?thesis using assms(1) by (auto simp: m_dup_pkthdr_def Let_def)
qed

text \<open>What makes an allocation fail.\<close>

definition no_room :: "mstore \<Rightarrow> mbuf list \<Rightarrow> bool" where
  "no_room st ms \<longleftrightarrow> mb_avail st = 0 \<or> (\<exists>pi. cl_avail st pi = 0) \<or>
     (\<exists>m\<in>set ms. is_pkthdr m \<and> tag_avail st < length (ph_tags (m_pkthdr m)))"

lemma get_avail:
  "m_get st how t = (Some n, st') \<Longrightarrow> cl_avail st' = cl_avail st \<and> tag_avail st' = tag_avail st"
  "m_gethdr st how t = (Some n, st') \<Longrightarrow> cl_avail st' = cl_avail st \<and> tag_avail st' = tag_avail st"
  by (auto simp: m_get_def m_gethdr_def count_mtype_def Let_def split: if_splits)

lemma get_fresh: "m_get st how t = (Some n, st') \<Longrightarrow> store_ok st \<Longrightarrow> fresh n MLEN"
  using m_get_Some(1-3) [of st how t n st'] by (auto simp: fresh_def flag_simps store_ok_def)

lemma dup1_get_ok:
  assumes st: "store_ok st" and t: "is_pkthdr m \<longrightarrow> tags_fit (ph_tags (m_pkthdr m))"
  shows "\<exists>st' r. dup1_get st m off wait = Inr (st', r) \<and> same_mem st st' \<and>
    (case r of None \<Rightarrow> no_room st [m] | Some (n, l) \<Rightarrow> fresh n l \<and> cl_avail st' = cl_avail st)"
proof (cases "off = 0 \<and> is_pkthdr m")
  case False
  obtain mo st0 where g: "m_get st wait (m_type m) = (mo, st0)" by fastforce
  show ?thesis
  proof (cases mo)
    case None
    then show ?thesis using False g m_get_None [of st wait "m_type m" st0] devget_avail(5) [of st wait "m_type m" st0]
      by (auto simp: dup1_get_def no_room_def same_mem_def)
  next
    case (Some n)
    then have g: "m_get st wait (m_type m) = (Some n, st0)" using g by simp
    then have "dup1_get st m off wait = Inr (st0, Some (n, MLEN))" using False by (auto simp: dup1_get_def)
    then show ?thesis using same_mem_get [OF g] get_fresh [OF g st] get_avail(1) [OF g] by simp
  qed
next
  case True
  show ?thesis
  proof (cases "\<exists>n0 st0. m_gethdr st wait (m_type m) = (Some n0, st0)")
    case False
    then obtain st0 where "m_gethdr st wait (m_type m) = (None, st0)" by (metis surj_pair not_Some_eq)
    then show ?thesis using True m_gethdr_None [of st wait "m_type m" st0] devget_avail(6) [of st wait "m_type m" st0]
      by (auto simp: dup1_get_def no_room_def same_mem_def)
  next
    case get: True
    then obtain n0 st0 where g: "m_gethdr st wait (m_type m) = (Some n0, st0)" by blast
    note g1 = m_gethdr_Some [OF g] and sm = same_mem_gethdr [OF g] and av = get_avail(2) [OF g]
    from m_dup_pkthdr_correct [of m n0 st0 wait] t True g1(3) obtain okf k n where
      d: "m_dup_pkthdr st0 n0 m wait = Inr (okf, st0\<lparr>tag_avail := k\<rparr>, n)" "is_pkthdr n" "\<not> is_ext n" "m_dat n = m_dat n0"
        "okf \<longrightarrow> m_data n = m_pktdat" by blast
    have sm2: "same_mem st (st0\<lparr>tag_avail := k\<rparr>)" using same_mem_trans [OF sm same_mem_tags] .
    show ?thesis
    proof (cases okf)
      case True
      have "fresh n MHLEN" using d True g1(4) st by (simp add: fresh_def store_ok_def msize_facts)
      then show ?thesis using True d(1) g \<open>off = 0 \<and> is_pkthdr m\<close> sm2 av by (simp add: dup1_get_def)
    next
      case False
      have "no_room st [m]" using dup_pkthdr_succeeds [of m st0 n0 wait] t \<open>off = 0 \<and> is_pkthdr m\<close> d(1) False av by (auto simp: no_room_def not_le)
      then show ?thesis using False d(1) g \<open>off = 0 \<and> is_pkthdr m\<close> same_mem_trans [OF sm2 m_free_own [OF d(3)]] by (simp add: dup1_get_def)
    qed
  qed
qed

lemma no_room_mono: "no_room st ms \<Longrightarrow> set ms \<subseteq> set ns \<Longrightarrow> no_room st ns"
  by (auto simp: no_room_def)

lemma m_dup1_ok:
  assumes ok: "chain_ok st (ms @ ys)" and st: "store_ok st" and ms: "ms \<noteq> []" and len: "off + len \<le> chain_len ms"
    and t: "is_pkthdr (hd ms) \<longrightarrow> tags_fit (ph_tags (m_pkthdr (hd ms)))"
  shows "\<exists>st' r. m_dup1 st ms off len wait = Inr (st', r) \<and>
    (case r of None \<Rightarrow> same_mem st st' \<and> (no_room st ms \<or> MAXMCLBYTES < len)
     | Some k \<Rightarrow> chain_ok st' (k # ms @ ys) \<and> chain_bytes st' (ms @ ys) = chain_bytes st (ms @ ys) \<and> \<not> M_READONLY st' k \<and>
         m_bytes st' k = take len (drop off (chain_bytes st ms)) \<and> m_len k = len)"
proof (cases "len > MAXMCLBYTES")
  case True
  then show ?thesis by (simp add: m_dup1_def same_mem_def)
next
  case False
  from dup1_get_ok [OF st t] obtain st1 r where g: "dup1_get st (hd ms) off wait = Inr (st1, r)" "same_mem st st1"
    "case r of None \<Rightarrow> no_room st [hd ms] | Some (n, l) \<Rightarrow> fresh n l \<and> cl_avail st1 = cl_avail st" by blast
  show ?thesis
  proof (cases r)
    case None
    then show ?thesis using g False ms no_room_mono [of st "[hd ms]" ms] by (simp add: m_dup1_def)
  next
    case (Some nl)
    then obtain n l where r: "r = Some (n, l)" "fresh n l" "cl_avail st1 = cl_avail st" using g(3) by (cases nl) auto
    note sm = same_mem_chain [OF g(2)]
    have ok1: "chain_ok st1 (ms @ ys)" "store_ok st1" using sm(1) ok g(2) st by (simp_all add: same_mem_def)
    from dup1_room_ok [OF this r(2), of len wait] False obtain st2 r2 where d: "dup1_room st1 n wait len l = Inr (st2, r2)"
      "case r2 of None \<Rightarrow> same_mem st1 st2 \<and> (\<exists>pi. cl_avail st1 pi = 0)
       | Some k \<Rightarrow> room_for st2 k (ms @ ys) len \<and> chain_bytes st2 (ms @ ys) = chain_bytes st1 (ms @ ys)" by (auto simp: not_less)
    show ?thesis
    proof (cases r2)
      case None
      then show ?thesis using g d r same_mem_trans [OF g(2)] False by (auto simp: m_dup1_def no_room_def)
    next
      case (Some k)
      have rm: "room_for st2 k (ms @ ys) len" and b: "chain_bytes st2 (ms @ ys) = chain_bytes st (ms @ ys)" using d Some sm by simp_all
      have wf: "wf_chain st2 (ms @ ys)" "wf_chain st (ms @ ys)" using rm ok by (simp_all add: room_for_def chain_ok_def)
      note bm = bytes_split(1) [OF b wf(2,1)]
      let ?bs = "take len (drop off (chain_bytes st ms))"
      have lb: "length ?bs = len" using wf(2) len length_chain_bytes [of st ms] by simp
      have cd: "m_copydata st2 ms (int off) (int len) = Inr ?bs"
        using m_copydata_correct [of st2 ms "int off" "int len"] wf(1) ms len bm by (auto simp: nat_int_add)
      obtain st3 k3 where w: "mb_write st2 k 0 ?bs = (st3, k3)" by fastforce
      have w': "mb_write st2 (k\<lparr>m_len := length ?bs\<rparr>) 0 ?bs = (st3, k3\<lparr>m_len := len\<rparr>)" using w lb by (simp add: mb_write_len)
      have "m_dup1 st ms off len wait = Inr (st3, Some (k3\<lparr>m_len := len\<rparr>))"
        using False g(1) r(1) d(1) Some cd w by (simp add: m_dup1_def)
      then show ?thesis using fill_room [OF rm _ w'] lb b by simp
    qed
  qed
qed

subsection \<open>The cases of \<^verbatim>\<open>m_pulldown\<close>\<close>

lemma bytes_pieces:
  assumes "chain_bytes st' (pre @ n # rest @ os) = chain_bytes st (pre @ n # rest @ os)"
    "wf_chain st (pre @ n # rest @ os)" "wf_chain st' (pre @ n # rest @ os)"
  shows "chain_bytes st' pre = chain_bytes st pre" "m_bytes st' n = m_bytes st n" "chain_bytes st' rest = chain_bytes st rest"
    "chain_bytes st' os = chain_bytes st os"
proof -
  note a = bytes_split [OF assms]
  show "chain_bytes st' pre = chain_bytes st pre" by (rule a(1))
  have b: "chain_bytes st' ([n] @ rest @ os) = chain_bytes st ([n] @ rest @ os)" using a(2) by simp
  note c = bytes_split [OF b]
  show "m_bytes st' n = m_bytes st n" using c(1) assms(2,3) by simp
  have d: "chain_bytes st' (rest @ os) = chain_bytes st (rest @ os)" using c(2) assms(2,3) by simp
  show "chain_bytes st' rest = chain_bytes st rest" "chain_bytes st' os = chain_bytes st os"
    using bytes_split [OF d] assms(2,3) by simp_all
qed

text \<open>
  What the caller gets: the packet \<open>pre @ ks\<close> with the same bytes, in which \<open>len\<close> bytes from
  position \<open>pos\<close> on lie in the first mbuf of \<open>ks\<close> at offset \<open>i\<close> and may be written.
\<close>

definition pulled_down :: "mstore \<Rightarrow> mbuf list \<Rightarrow> mbuf list \<Rightarrow> nat \<Rightarrow> int \<Rightarrow> bool \<Rightarrow> mstore \<Rightarrow> mbuf list \<Rightarrow> mbuf list \<Rightarrow> nat \<Rightarrow> bool" where
  "pulled_down st ms os pos len offp st' pre ks i \<longleftrightarrow>
     chain_ok st' (pre @ ks @ os) \<and> chain_bytes st' (pre @ ks) = chain_bytes st ms \<and> chain_bytes st' os = chain_bytes st os \<and>
     ks \<noteq> [] \<and> int i + len \<le> int (m_len (hd ks)) \<and> \<not> M_READONLY st' (hd ks) \<and> (offp \<or> i = 0) \<and> chain_len pre + i = pos \<and>
     is_pkthdr (hd (pre @ ks)) = is_pkthdr (hd ms) \<and> m_pkthdr (hd (pre @ ks)) = m_pkthdr (hd ms)"

text \<open>Cutting the end off an mbuf.\<close>

lemma shrink_ok:
  assumes "wf_mbuf st n" "off \<le> m_len n"
  shows "wf_mbuf st (n\<lparr>m_len := off\<rparr>)" "m_bytes st (n\<lparr>m_len := off\<rparr>) = take off (m_bytes st n)"
proof -
  show "wf_mbuf st (n\<lparr>m_len := off\<rparr>)" using assms by (auto simp: wf_mbuf_def m_buf_def is_ext_def is_pkthdr_def)
  have "m_buf st (n\<lparr>m_len := off\<rparr>) = m_buf st n" by (simp add: m_buf_def is_ext_def)
  then show "m_bytes st (n\<lparr>m_len := off\<rparr>) = take off (m_bytes st n)" using mem_read_less [OF assms(2), of st] by (simp add: m_bytes_def [of st "n\<lparr>m_len := off\<rparr>"])
qed

text \<open>A new mbuf \<open>k\<close> with the bytes from \<open>off\<close> on, put between \<open>n\<close> and the rest of the packet.\<close>

lemma pulled_down_new:
  assumes ok: "chain_ok st (pre @ n # rest @ os)" and k: "chain_ok st' (k # pre @ n # rest @ os)" "\<not> M_READONLY st' k"
    and b: "chain_bytes st' (pre @ n # rest @ os) = chain_bytes st (pre @ n # rest @ os)"
    and off: "off \<le> m_len n" "len \<le> int (m_len k)"
    and r: "wf_chain st' rest'" "same_bufs rest rest'" "m_bytes st' k @ chain_bytes st' rest' = drop off (m_bytes st n) @ chain_bytes st rest"
  shows "pulled_down st (pre @ n # rest) os (chain_len pre + off) len offp st' (pre @ [n\<lparr>m_len := off\<rparr>]) (k # rest') 0"
proof -
  have wf: "wf_chain st (pre @ n # rest @ os)" "wf_chain st' (pre @ n # rest @ os)" "wf_mbuf st' k" using ok k(1) by (simp_all add: chain_ok_def)
  note p = bytes_pieces [OF b wf(1,2)]
  have n: "wf_mbuf st' n" using wf(2) by simp
  note sh = shrink_ok [OF n off(1)]
  have c: "chain_ok st' (pre @ n # k # rest @ os) = chain_ok st' (k # pre @ n # rest @ os)" by (rule chain_ok_perm) auto
  have "chain_ok st' (pre @ n\<lparr>m_len := off\<rparr> # k # rest' @ os)"
  proof (rule chain_ok_same_bufs [OF c [THEN iffD2, OF k(1)]])
    show "wf_chain st' (pre @ n\<lparr>m_len := off\<rparr> # k # rest' @ os)" using wf sh(1) r(1) by simp
    show "same_bufs (pre @ n # k # rest @ os) (pre @ n\<lparr>m_len := off\<rparr> # k # rest' @ os)"
      by (intro same_bufs_append) (simp_all add: is_ext_def same_bufs_append [OF r(2)])
  qed
  moreover have "chain_bytes st' (pre @ [n\<lparr>m_len := off\<rparr>] @ k # rest') = chain_bytes st (pre @ n # rest)"
    using p(1,2) sh(2) r(3) append_take_drop_id [of off "m_bytes st n"] by (simp flip: append_assoc)
  ultimately show ?thesis using k(2) off p(4) by (cases pre) (simp_all add: pulled_down_def is_pkthdr_def)
qed

text \<open>The outcome of a call: the range, or nothing for one of the documented reasons.\<close>

definition pulldown_result :: "mstore \<Rightarrow> mbuf list \<Rightarrow> mbuf list \<Rightarrow> nat \<Rightarrow> int \<Rightarrow> bool \<Rightarrow> pulldown \<Rightarrow> bool" where
  "pulldown_result st ms os pos len offp r \<longleftrightarrow>
     (\<exists>st' q. r = Inr (st', q) \<and>
       (case q of None \<Rightarrow> chain_ok st' os \<and> chain_bytes st' os = chain_bytes st os \<and>
            (int (chain_len ms) < int pos + len \<or> MAXMCLBYTES < chain_len ms \<or> no_room st ms)
        | Some (pre, ks, i) \<Rightarrow> pulled_down st ms os pos len offp st' pre ks i))"

lemma pulldown_freed:
  assumes "chain_ok st (ms @ os)" "\<forall>m\<in>set ms. \<not> zeroize m" "same_mem st st'"
    "int (chain_len ms) < int pos + len \<or> MAXMCLBYTES < chain_len ms \<or> no_room st ms"
  shows "pulldown_result st ms os pos len offp (Inr (m_freem st' ms, None))"
proof -
  have "chain_ok st' (ms @ os)" "chain_bytes st' os = chain_bytes st os" using assms(1) same_mem_chain(1,2) [OF assms(3)] by simp_all
  then have "chain_ok (m_freem st' ms) os" "chain_bytes (m_freem st' ms) os = chain_bytes st os" using chain_ok_freem [OF _ assms(2), of st' os] by simp_all
  then show ?thesis using assms(4) unfolding pulldown_result_def by simp
qed

lemma chain_ok_mid: "chain_ok st (xs @ m # ys) = chain_ok st (m # xs @ ys)"
  by (rule chain_ok_perm) auto

lemma chain_ok_front: "chain_ok st (pre @ n # rest @ os) = chain_ok st ((n # rest) @ pre @ os)"
  by (rule chain_ok_perm) auto

lemma chop_ok:
  assumes ok: "chain_ok st (pre @ n # rest @ os)" and st: "store_ok st" and off: "off \<le> m_len n" "int off + len \<le> int (m_len n)"
    and t: "is_pkthdr n \<longrightarrow> tags_fit (ph_tags (m_pkthdr n))" and z: "\<forall>m\<in>set (pre @ n # rest). \<not> zeroize m"
  shows "pulldown_result st (pre @ n # rest) os (chain_len pre + off) len offp (pulldown_chop st pre n rest off)"
proof -
  let ?l = "m_len n - off" and ?ms = "pre @ n # rest"
  have wf: "wf_chain st (pre @ n # rest @ os)" using ok by (simp add: chain_ok_def)
  from m_dup1_ok [OF ok [unfolded chain_ok_front] st _ _ _, of off ?l False] off(1) t obtain st' r where
    d: "m_dup1 st (n # rest) off ?l False = Inr (st', r)" and
    c: "case r of None \<Rightarrow> same_mem st st' \<and> (no_room st (n # rest) \<or> MAXMCLBYTES < ?l)
     | Some k \<Rightarrow> chain_ok st' (k # (n # rest) @ pre @ os) \<and> chain_bytes st' ((n # rest) @ pre @ os) = chain_bytes st ((n # rest) @ pre @ os) \<and>
         \<not> M_READONLY st' k \<and> m_bytes st' k = take ?l (drop off (chain_bytes st (n # rest))) \<and> m_len k = ?l" by auto
  show ?thesis
  proof (cases r)
    case None
    have "MAXMCLBYTES < chain_len ?ms \<or> no_room st ?ms" using c None no_room_mono [of st "n # rest" ?ms] by auto
    then show ?thesis using None d c pulldown_freed [of st ?ms os st' "chain_len pre + off" len] ok z by (simp add: pulldown_chop_def)
  next
    case (Some k)
    then have k: "chain_ok st' (k # (n # rest) @ pre @ os)" "chain_bytes st' ((n # rest) @ pre @ os) = chain_bytes st ((n # rest) @ pre @ os)"
      "\<not> M_READONLY st' k" "m_bytes st' k = take ?l (drop off (chain_bytes st (n # rest)))" "m_len k = ?l" using c by simp_all
    have p: "chain_ok st' (k # pre @ n # rest @ os) = chain_ok st' (k # (n # rest) @ pre @ os)" by (rule chain_ok_perm) auto
    have wf': "wf_chain st' ((n # rest) @ pre @ os)" "wf_chain st ((n # rest) @ pre @ os)" using k(1) wf by (simp_all add: chain_ok_def)
    note b1 = bytes_split [OF k(2) wf'(2,1)]
    have b2: "chain_bytes st' pre = chain_bytes st pre" "chain_bytes st' os = chain_bytes st os"
      by (rule bytes_split [OF b1(2)]; use wf' in simp)+
    have b: "chain_bytes st' (pre @ n # rest @ os) = chain_bytes st (pre @ n # rest @ os)"
      using b1(1) b1(2) [unfolded chain_bytes_simps] b2 by simp
    have rb: "chain_bytes st' rest = chain_bytes st rest" using bytes_pieces(3) [OF b wf] wf' by simp
    have kb: "m_bytes st' k = drop off (m_bytes st n)" using k(4) wf by simp
    have "pulled_down st ?ms os (chain_len pre + off) len offp st' (pre @ [n\<lparr>m_len := off\<rparr>]) (k # rest) 0"
      by (rule pulled_down_new [OF ok p [THEN iffD2, OF k(1)] k(3) b off(1)]) (use off k(5) wf' rb kb in simp_all)
    then show ?thesis using Some d by (simp add: pulldown_chop_def pulldown_result_def)
  qed
qed

text \<open>Two writes in a row are one.\<close>

lemma mb_write_twice:
  assumes "room_for st k xs len" "length ys \<le> len" "mb_write st (k\<lparr>m_len := length ys\<rparr>) 0 ys = (st1, k1)"
    "mb_write st1 k1 (m_len k1) zs = (st2, k2)"
  shows "mb_write st (k\<lparr>m_len := length (ys @ zs)\<rparr>) 0 (ys @ zs) = (st2, k2\<lparr>m_len := length (ys @ zs)\<rparr>)" "m_len k1 = length ys" "m_len k2 = length ys"
proof -
  have mw: "mem_write (mem_write bs a ys) (a + length ys) zs = mem_write bs a (ys @ zs)" if "a \<le> length bs" for bs :: "u8 list" and a
    using that by (simp add: mem_write_def ac_simps)
  have l: "m_data k \<le> length (m_buf st k)" using assms(1) by (simp add: room_for_def)
  show "m_len k1 = length ys" "m_len k2 = length ys" using assms(3,4) by (auto simp: mb_write_def split: if_splits)
  then show "mb_write st (k\<lparr>m_len := length (ys @ zs)\<rparr>) 0 (ys @ zs) = (st2, k2\<lparr>m_len := length (ys @ zs)\<rparr>)"
    using assms(3,4) l mw by (auto simp: mb_write_def m_buf_def is_ext_def split: if_splits)
qed

lemma copydata_front:
  assumes "wf_chain st ms" "0 < t" "t \<le> chain_len ms"
  shows "m_copydata st ms 0 (int t) = Inr (take t (chain_bytes st ms))"
  using m_copydata_correct [OF assms(1), of 0 "int t"] assms(2,3) by (cases "ms = []") simp_all

lemma fill_ok:
  assumes ok: "chain_ok st (pre @ n # rest @ os)" and rm: "room_for st1 k (pre @ n # rest @ os) len"
    and b1: "chain_bytes st1 (pre @ n # rest @ os) = chain_bytes st (pre @ n # rest @ os)"
    and off: "off \<le> m_len n" "m_len n - off < len" "len \<le> m_len n - off + chain_len rest"
  shows "pulldown_result st (pre @ n # rest) os (chain_len pre + off) (int len) offp (pulldown_fill st1 pre n rest off len k)"
proof -
  let ?ms = "pre @ n # rest" and ?xs = "pre @ n # rest @ os"
  let ?h = "m_len n - off" let ?t = "len - ?h"
  have wf: "wf_chain st ?xs" "wf_chain st1 ?xs" using ok rm by (simp_all add: room_for_def chain_ok_def)
  define ys where "ys = mem_read (m_buf st1 n) (m_data n + off) ?h"
  have ys: "ys = drop off (m_bytes st n)" "length ys = ?h"
    using mem_read_bytes [of off ?h n st1] off(1) bytes_pieces(2) [OF b1 wf] wf(1) by (simp_all add: ys_def)
  obtain st2 k2 where w2: "mb_write st1 (k\<lparr>m_len := length ys\<rparr>) 0 ys = (st2, k2)" by fastforce
  have f2: "chain_ok st2 (k2 # ?xs)" "chain_bytes st2 ?xs = chain_bytes st ?xs" using fill_room [OF rm _ w2] ys(2) off(2) b1 by simp_all
  then have wf2: "wf_chain st2 ?xs" by (simp add: chain_ok_def)
  define zs where "zs = take ?t (chain_bytes st rest)"
  have t: "0 < ?t" "?t \<le> chain_len rest" using off by simp_all
  then have zs: "length zs = ?t" using length_chain_bytes [of st rest] wf(1) by (simp add: zs_def)
  have cd: "m_copydata st2 rest 0 (int ?t) = Inr zs"
    using copydata_front [OF _ t, of st2] bytes_pieces(3) [OF f2(2) wf(1) wf2] wf2 unfolding zs_def by simp
  obtain st3 k3 where w3: "mb_write st2 k2 (m_len k2) zs = (st3, k3)" by fastforce
  let ?k = "k3\<lparr>m_len := length (ys @ zs)\<rparr>"
  have l: "length (ys @ zs) = len" "length ys \<le> len" using ys(2) zs off(2) by simp_all
  note tw = mb_write_twice [OF rm l(2) w2 w3]
  have r: "pulldown_fill st1 pre n rest off len k = Inr (st3, Some (pre @ [n\<lparr>m_len := off\<rparr>], ?k # m_adj rest (int ?t), 0))"
    using w2 cd w3 tw(2,3) ys(2) off zs unfolding pulldown_fill_def Let_def ys_def [symmetric] by simp
  note f = fill_room [OF rm eq_refl [OF l(1)] tw(1)]
  have b3: "chain_bytes st3 ?xs = chain_bytes st ?xs" using f(3) b1 by simp
  have wf3: "wf_chain st3 ?xs" using f(1) by (simp add: chain_ok_def)
  then have "wf_chain st3 rest" by simp
  note a = m_adj_cut [OF this, of ?t]
  have "m_bytes st3 ?k @ chain_bytes st3 (m_adj rest (int ?t)) = drop off (m_bytes st n) @ chain_bytes st rest"
    using f(2) a(1) bytes_pieces(3) [OF b3 wf(1) wf3] ys(1) by (simp add: zs_def)
  from pulled_down_new [OF ok f(1,4) b3 off(1) _ a(2,3) this] show ?thesis
    unfolding r pulldown_result_def using l(1) by simp
qed

lemma hard_ok:
  assumes ok: "chain_ok st (pre @ n # rest @ os)" and st: "store_ok st" and off: "off \<le> m_len n" "m_len n - off < len"
    "len \<le> m_len n - off + chain_len rest" and z: "\<forall>m\<in>set (pre @ n # rest). \<not> zeroize m"
  shows "pulldown_result st (pre @ n # rest) os (chain_len pre + off) (int len) offp (pulldown_hard st pre n rest off len)"
proof -
  let ?ms = "pre @ n # rest" and ?xs = "pre @ n # rest @ os" let ?ty = "m_type (hd ?ms)"
  have ok': "chain_ok st (?ms @ os)" using ok by simp
  note fr = pulldown_freed [OF ok' z, of _ "chain_len pre + off" "int len" offp]
  obtain mo st0 where g: "m_get st False ?ty = (mo, st0)" by fastforce
  consider "len > MAXMCLBYTES" | "len \<le> MAXMCLBYTES" "mo = None" | k where "len \<le> MAXMCLBYTES" "mo = Some k" using not_le by blast
  then show ?thesis
  proof cases
    case 1
    then have "MAXMCLBYTES < chain_len ?ms" using off by simp
    then show ?thesis using 1 fr [of st] by (simp add: pulldown_hard_def same_mem_def)
  next
    case 2
    then have "no_room st ?ms" "st0 = st" using g devget_avail(5) [of st False ?ty st0] m_get_None [of st False ?ty st0] by (simp_all add: no_room_def)
    then show ?thesis using fr [of st] 2 g by (simp add: pulldown_hard_def same_mem_def)
  next
    case (3 k0)
    then have g: "m_get st False ?ty = (Some k0, st0)" using g by simp
    note sm = same_mem_get [OF g] and smc = same_mem_chain [OF same_mem_get [OF g]]
    have "chain_ok st0 ?xs" "store_ok st0" "fresh k0 MLEN" using ok st smc(1) sm get_fresh [OF g st] by (simp_all add: same_mem_def)
    from dup1_room_ok [OF this 3(1), of False] obtain st1 q where
      d: "dup1_room st0 k0 False len MLEN = Inr (st1, q)" and
      c: "case q of None \<Rightarrow> same_mem st0 st1 \<and> (\<exists>pi. cl_avail st0 pi = 0)
        | Some k \<Rightarrow> room_for st1 k ?xs len \<and> chain_bytes st1 ?xs = chain_bytes st0 ?xs" by blast
    have r: "pulldown_hard st pre n rest off len =
        (case q of None \<Rightarrow> Inr (m_freem st1 ?ms, None) | Some k \<Rightarrow> pulldown_fill st1 pre n rest off len k)"
      using 3(1) g d by (simp add: pulldown_hard_def split: option.splits)
    show ?thesis
    proof (cases q)
      case None
      then have "no_room st ?ms" "same_mem st st1" using c get_avail(1) [OF g] same_mem_trans [OF sm] by (auto simp: no_room_def)
      then show ?thesis unfolding r using fr [of st1] None by simp
    next
      case (Some k)
      then show ?thesis unfolding r using c smc(2) fill_ok [OF ok _ _ off, of st1 k offp] by (simp del: chain_bytes_simps)
    qed
  qed
qed

text \<open>The end of the range comes to \<open>n\<close>.\<close>

lemma trailing_ok:
  assumes ok: "chain_ok st (pre @ n # rest @ os)" and ro: "\<not> M_READONLY st n" and t: "0 < t" "t \<le> chain_len rest" "int t \<le> m_trailingspace st n"
    and o: "off = 0 \<or> offp" and w: "mb_write st n (m_len n) (take t (chain_bytes st rest)) = (st', n')"
  defines "k \<equiv> n'\<lparr>m_len := m_len n + t\<rparr>"
  shows "pulled_down st (pre @ n # rest) os (chain_len pre + off) (int (m_len n + t) - int off) offp st' pre (k # m_adj rest (int t)) off"
proof -
  let ?zs = "take t (chain_bytes st rest)"
  have wf: "wf_chain st (pre @ n # rest @ os)" using ok by (simp add: chain_ok_def)
  have lz: "length ?zs = t" using length_chain_bytes [of st rest] wf t(2) by simp
  have p: "chain_ok st (pre @ n # rest @ os) = chain_ok st (n # pre @ rest @ os)" by (rule chain_ok_perm) auto
  have room: "m_data n + m_len n + length ?zs \<le> length (m_buf st n)" using trailing_room [of st n t] wf ro t(3) lz by simp
  note a = append_bytes [OF p [THEN iffD1, OF ok] ro w room, unfolded lz, folded k_def]
  note c = chain_ok_write [OF p [THEN iffD1, OF ok] ro w room]
  have wf': "wf_chain st' (pre @ rest @ os)" "wf_mbuf st' k" using a(1) by (simp_all add: chain_ok_def)
  have b1: "chain_bytes st' pre = chain_bytes st pre" by (rule bytes_split(1) [OF a(2)]) (use wf wf' in simp_all)
  have b2: "chain_bytes st' (rest @ os) = chain_bytes st (rest @ os)" by (rule bytes_split(2) [OF a(2)]) (use wf wf' in simp_all)
  have b3: "chain_bytes st' rest = chain_bytes st rest" "chain_bytes st' os = chain_bytes st os"
    by (rule bytes_split [OF b2]; use wf wf' in simp)+
  have wr: "wf_chain st' rest" using wf' by simp
  note m = m_adj_cut [OF wr, of t]
  have "chain_ok st' (pre @ k # m_adj rest (int t) @ os)"
  proof (rule chain_ok_same_bufs [OF a(1)[unfolded chain_ok_perm [of "k # pre @ rest @ os" "pre @ k # rest @ os", simplified]]])
    show "wf_chain st' (pre @ k # m_adj rest (int t) @ os)" using wf' m(2) by simp
    show "same_bufs (pre @ k # rest @ os) (pre @ k # m_adj rest (int t) @ os)" by (intro same_bufs_append) (simp_all add: same_bufs_append [OF m(3)])
  qed
  moreover have "\<not> M_READONLY st' k" using ro c(6,7,9) by (simp add: k_def M_READONLY_def MCLISREFERENCED_def is_ext_def)
  moreover have "is_pkthdr k = is_pkthdr n" "m_pkthdr k = m_pkthdr n" "m_len k = m_len n + t" using c(6,8) by (simp_all add: k_def is_pkthdr_def)
  moreover have "chain_bytes st' (pre @ k # m_adj rest (int t)) = chain_bytes st (pre @ n # rest)" using b1 b3(1) a(3) m(1) by simp
  ultimately show ?thesis using b3(2) o by (cases pre) (auto simp: pulled_down_def)
qed

lemma mem_read_write_front:
  assumes "d + length ys \<le> length xs" "length ys \<le> l"
  shows "mem_read (mem_write xs d ys) d l = ys @ drop (length ys) (mem_read xs d l)"
  using assms by (simp add: mem_read_def mem_write_def drop_take add.commute)

text \<open>The start of the range goes to the next mbuf.\<close>

lemma leading_ok:
  assumes ok: "chain_ok st (pre @ n # m # rest @ os)" and off: "off < m_len n" and sp: "m_leadingspace st m \<ge> int (m_len n - off)"
    and w: "mb_write st (m\<lparr>m_data := m_data m - (m_len n - off), m_len := m_len m + (m_len n - off)\<rparr>) 0
      (mem_read (m_buf st n) (m_data n + off) (m_len n - off)) = (st', k)"
  shows "pulled_down st (pre @ n # m # rest) os (chain_len pre + off) (int (m_len m + (m_len n - off))) offp st' (pre @ [n\<lparr>m_len := off\<rparr>]) (k # rest) 0"
proof -
  let ?h = "m_len n - off" let ?m = "m\<lparr>m_data := m_data m - ?h, m_len := m_len m + ?h\<rparr>"
  let ?ys = "mem_read (m_buf st n) (m_data n + off) ?h"
  have wf: "wf_chain st (pre @ n # m # rest @ os)" "wf_mbuf st m" "wf_mbuf st n" using ok by (simp_all add: chain_ok_def)
  have ys: "?ys = drop off (m_bytes st n)" "length ?ys = ?h" using mem_read_bytes [of off ?h n st] off wf(3) by simp_all
  have ro: "\<not> M_READONLY st m" using sp off by (auto simp: m_leadingspace_def)
  note mp = m_prepend_room [OF wf(2) sp]
  have ok1: "chain_ok st (?m # pre @ n # rest @ os)"
    using chain_ok_replace [OF _ mp(1,4,5), of "pre @ n # rest @ os"] chain_ok_mid [of st "pre @ [n]" m "rest @ os"] ok by simp
  have ro1: "\<not> M_READONLY st ?m" using ro by (simp add: M_READONLY_def MCLISREFERENCED_def is_ext_def)
  have room: "m_data ?m + 0 + length ?ys \<le> length (m_buf st ?m)" using mp(1) ys(2) by (simp add: wf_mbuf_def)
  note c = chain_ok_write [OF ok1 ro1 w room]
  have "m_bytes st' k = ?ys @ drop ?h (m_bytes st ?m)"
    using mem_read_write_front [of "m_data ?m" ?ys "m_buf st ?m" "m_len ?m"] room ys(2) c(3-5) unfolding m_bytes_def by simp
  then have kb: "m_bytes st' k = drop off (m_bytes st n) @ m_bytes st m" using mp(2) ys(1) by simp
  have wf': "wf_chain st' (pre @ n # rest @ os)" "wf_mbuf st' k" using c(1) by (simp_all add: chain_ok_def)
  have wf0: "wf_chain st (pre @ n # rest @ os)" using wf by simp
  note b = bytes_pieces [OF c(2) wf0 wf'(1)]
  note sh = shrink_ok [OF _ less_imp_le [OF off], of st'] 
  have "chain_ok st' (pre @ n\<lparr>m_len := off\<rparr> # k # rest @ os)"
  proof (rule chain_ok_same_bufs)
    show "chain_ok st' (pre @ n # k # rest @ os)" using c(1) chain_ok_mid [of st' "pre @ [n]" k "rest @ os"] by simp
    show "wf_chain st' (pre @ n\<lparr>m_len := off\<rparr> # k # rest @ os)" using wf' sh(1) by simp
    show "same_bufs (pre @ n # k # rest @ os) (pre @ n\<lparr>m_len := off\<rparr> # k # rest @ os)" by (intro same_bufs_append) (simp_all add: is_ext_def)
  qed
  moreover have "\<not> M_READONLY st' k" using ro1 c(6,7,9) by (simp add: M_READONLY_def MCLISREFERENCED_def is_ext_def)
  moreover have "chain_bytes st' (pre @ [n\<lparr>m_len := off\<rparr>] @ k # rest) = chain_bytes st (pre @ n # m # rest)"
    using b sh(2) wf'(1) kb append_take_drop_id [of off "m_bytes st n"] by (simp flip: append_assoc)
  ultimately show ?thesis using b(4) off c(5) by (cases pre) (simp_all add: pulled_down_def is_pkthdr_def)
qed

lemma across_ok:
  assumes ok: "chain_ok st (pre @ n # rest @ os)" and st: "store_ok st" and off: "off < m_len n \<or> rest = []" "off \<le> m_len n" "m_len n - off < len"
    and z: "\<forall>m\<in>set (pre @ n # rest). \<not> zeroize m"
  shows "pulldown_result st (pre @ n # rest) os (chain_len pre + off) (int len) offp (pulldown_across st pre n rest off len offp)"
proof -
  let ?h = "m_len n - off" let ?t = "len - ?h" let ?ms = "pre @ n # rest"
  let ?in = "(off = 0 \<or> offp) \<and> \<not> M_READONLY st n"
  have ok': "chain_ok st (?ms @ os)" using ok by simp
  have wr: "wf_chain st rest" using ok by (simp add: chain_ok_def)
  have he: "pulldown_across st pre n rest off len offp = pulldown_hard st pre n rest off len" if "\<not> ?h + chain_len rest < len"
    "\<not> (?in \<and> int ?t \<le> m_trailingspace st n)" "\<not> (?in \<and> int ?h \<le> m_leadingspace st (hd rest) \<and> ?t \<le> m_len (hd rest))"
    using that unfolding pulldown_across_def Let_def by auto
  consider (short) "?h + chain_len rest < len" | (trail) "len \<le> ?h + chain_len rest" "?in" "int ?t \<le> m_trailingspace st n"
    | (lead) "len \<le> ?h + chain_len rest" "?in" "\<not> int ?t \<le> m_trailingspace st n" "int ?h \<le> m_leadingspace st (hd rest)" "?t \<le> m_len (hd rest)"
    | (hard) "len \<le> ?h + chain_len rest" "pulldown_across st pre n rest off len offp = pulldown_hard st pre n rest off len"
    using he not_less by blast
  then show ?thesis
  proof cases
    case short
    then have "int (chain_len ?ms) < int (chain_len pre + off) + int len" using off by simp
    then show ?thesis using short pulldown_freed [OF ok' z, of st "chain_len pre + off" "int len" offp]
      by (simp add: pulldown_across_def same_mem_def)
  next
    case trail
    have t: "0 < ?t" "?t \<le> chain_len rest" using trail(1) off by simp_all
    obtain st' n' where w: "mb_write st n (m_len n) (take ?t (chain_bytes st rest)) = (st', n')" by fastforce
    have l: "m_len n' = m_len n" using w by (auto simp: mb_write_def split: if_splits)
    have "pulldown_across st pre n rest off len offp = Inr (st', Some (pre, n'\<lparr>m_len := m_len n + ?t\<rparr> # m_adj rest (int ?t), off))"
      using trail copydata_front [OF wr t] w l unfolding pulldown_across_def Let_def by simp
    moreover have "int (m_len n + ?t) - int off = int len" using off by simp
    ultimately show ?thesis using trailing_ok [OF ok _ t trail(3) _ w, of off offp] trail(2) by (simp add: pulldown_result_def)
  next
    case lead
    obtain m ks where r: "rest = m # ks" using lead(1) off by (cases rest) simp_all
    let ?m = "m\<lparr>m_data := m_data m - ?h, m_len := m_len m + ?h\<rparr>"
    obtain st' k where w: "mb_write st ?m 0 (mem_read (m_buf st n) (m_data n + off) ?h) = (st', k)" by fastforce
    have h: "off < m_len n" using off r by simp
    have a: "pulldown_across st pre n rest off len offp = Inr (st', Some (pre @ [n\<lparr>m_len := off\<rparr>], k # ks, 0))"
      using lead r w h unfolding pulldown_across_def Let_def by simp
    have "pulled_down st ?ms os (chain_len pre + off) (int (m_len m + ?h)) offp st' (pre @ [n\<lparr>m_len := off\<rparr>]) (k # ks) 0"
      using leading_ok [of st pre n m ks os off, OF _ h _ w] ok lead(4) r by simp
    moreover have "len \<le> m_len m + ?h" using lead(5) r by simp
    ultimately show ?thesis unfolding a by (simp add: pulldown_result_def pulled_down_def)
  next
    case hard
    then show ?thesis using hard_ok [OF ok st off(2,3) hard(1) z, of offp] by simp
  qed
qed

lemma m_getptr_inside: "m_getptr ms loc = Some (ns, off) \<Longrightarrow> off < m_len (hd ns) \<or> tl ns = []"
  by (induction ms loc rule: m_getptr.induct) (auto simp: Let_def nat_less_iff split: if_splits)

lemma m_getptr_pos: "m_getptr ms loc = Some (ns, off) \<Longrightarrow> \<exists>pre. ms = pre @ ns \<and> nat loc = chain_len pre + off"
proof (induction ms loc rule: m_getptr.induct)
  case (2 m ms loc)
  consider "ns = m # ms" "off = nat loc" | "m_getptr ms (loc - int (m_len m)) = Some (ns, off)" "\<not> loc < 0" "\<not> int (m_len m) > loc" "ms \<noteq> []"
    using "2.prems" by (cases "loc < 0"; cases "int (m_len m) > loc"; cases "ms = []"; cases "loc = int (m_len m)") auto
  then show ?case
  proof cases
    case 2
    from "2.IH" [OF 2(2,3) refl 2(4) 2(1)] obtain pre where "ms = pre @ ns" "nat (loc - int (m_len m)) = chain_len pre + off" by blast
    then show ?thesis using 2(2,3) by (intro exI [of _ "m # pre"]) auto
  qed auto
qed simp

lemma m_pulldown_correct:
  assumes ok: "chain_ok st (ms @ os)" and ms: "ms \<noteq> []" and st: "store_ok st" and z: "\<forall>m\<in>set ms. \<not> zeroize m"
    and t: "\<forall>m\<in>set ms. is_pkthdr m \<longrightarrow> tags_fit (ph_tags (m_pkthdr m))" and off: "0 \<le> off" and len: "0 \<le> len"
  shows "pulldown_result st ms os (nat off) len offp (m_pulldown st ms off len offp)"
proof (cases "m_getptr ms off")
  case None
  then have "int (chain_len ms) < int (nat off) + len" using m_getptr_None [of ms off] ms off len by auto
  then show ?thesis using None pulldown_freed [OF ok z, of st] ms by (simp add: m_pulldown_def same_mem_def)
next
  case (Some p)
  obtain ns o' where g: "m_getptr ms off = Some (ns, o')" using Some by (cases p) simp
  obtain pre where pre: "ms = pre @ ns" and pos: "nat off = chain_len pre + o'" using m_getptr_pos [OF g] by blast
  have wf: "wf_chain st ms" using ok by (simp add: chain_ok_def)
  note gs = m_getptr_Some [OF g wf]
  obtain n rest where ns: "ns = n # rest" using gs(1) by (cases ns) auto
  have tk: "take (length ms - length ns) ms = pre" using pre by simp
  have ok': "chain_ok st (pre @ n # rest @ os)" using ok pre ns by simp
  have o': "o' \<le> m_len n" "o' < m_len n \<or> rest = []" using gs(2) m_getptr_inside [OF g] ns by simp_all
  have z': "\<forall>m\<in>set (pre @ n # rest). \<not> zeroize m" using z pre ns by simp
  let ?fit = "len \<le> int (m_len n) - int o'"
  have e: "m_pulldown st ms off len offp =
      (if (o' = 0 \<or> offp) \<and> ?fit \<and> \<not> M_READONLY st n then Inr (st, Some (pre, ns, o'))
       else if ?fit then pulldown_chop st pre n rest o' else pulldown_across st pre n rest o' (nat len) offp)"
    using ms g tk ns by (simp add: m_pulldown_def Let_def)
  consider "(o' = 0 \<or> offp) \<and> ?fit \<and> \<not> M_READONLY st n" | "?fit" "m_pulldown st ms off len offp = pulldown_chop st pre n rest o'"
    | "\<not> ?fit" "m_pulldown st ms off len offp = pulldown_across st pre n rest o' (nat len) offp" using e by argo
  then show ?thesis
  proof cases
    case 1
    then show ?thesis using e ok' pos pre ns by (auto simp: pulldown_result_def pulled_down_def)
  next
    case 2
    then show ?thesis using chop_ok [OF ok' st o'(1) _ _ z', of len offp] t pre ns pos by simp
  next
    case 3
    then have "m_len n - o' < nat len" using o'(1) by linarith
    then show ?thesis using 3 across_ok [OF ok' st o'(2,1) _ z', of "nat len" offp] len pre ns pos by simp
  qed
qed

end
