(* ===== verification/Mbuf_Laws.thy ===== *)
theory Mbuf_Laws
  imports Mbuf_Pulldown
begin

text \<open>
  The properties of network buffers: each chain routine acts on the bytes of its chains as a
  list operation and leaves every other chain alone, the tag set is an exact filter, and the
  cases in which the code does not do what it means to.
\<close>

subsection \<open>Sample stores and mbufs\<close>

definition no_hdr :: pkthdr where
  "no_hdr = \<lparr>ph_len = 0, ph_tags = [], ph_tagsset = 0, ph_prio = 0\<rparr>"

definition data_mbuf :: "u8 list \<Rightarrow> mbuf" where
  "data_mbuf bs = \<lparr>m_type = 1, m_flags = 0, m_data = 0, m_len = length bs,
     m_dat = bs @ replicate (MLEN - length bs) 0, m_pkthdr = no_hdr, m_ext = 0\<rparr>"

definition hdr_mbuf :: "u8 list \<Rightarrow> int \<Rightarrow> mbuf" where
  "hdr_mbuf bs n = \<lparr>m_type = 1, m_flags = M_PKTHDR, m_data = m_pktdat, m_len = length bs,
     m_dat = replicate m_pktdat 0 @ bs @ replicate (MHLEN - length bs) 0,
     m_pkthdr = no_hdr\<lparr>ph_len := n\<rparr>, m_ext = 0\<rparr>"

text \<open>A store whose recycled mbufs have length \<open>k\<close>.\<close>

definition sample_store :: "nat \<Rightarrow> mstore" where
  "sample_store k = \<lparr>mb_avail = 10, mb_junk = (data_mbuf [])\<lparr>m_len := k\<rparr>, cl_avail = (\<lambda>_. 10),
     cl_junk = (\<lambda>n. replicate n 0), tag_avail = 10, tag_junk = (\<lambda>n. replicate n 0), m_mtypes = (\<lambda>_. 0),
     ext_mem = (\<lambda>_. []), ext_ref = (\<lambda>_. 0), ext_pool = (\<lambda>_. 0), ext_next = 0\<rparr>"

lemma data_mbuf_facts [simp]:
  "is_ext (data_mbuf bs) = False" "is_pkthdr (data_mbuf bs) = False" "m_len (data_mbuf bs) = length bs"
  "m_bytes st (data_mbuf bs) = bs" "zeroize (data_mbuf bs) = False"
  by (simp_all add: data_mbuf_def m_bytes_def m_buf_def mem_read_def flag_simps)

lemma hdr_mbuf_facts [simp]:
  "is_ext (hdr_mbuf bs n) = False" "is_pkthdr (hdr_mbuf bs n) = True" "m_len (hdr_mbuf bs n) = length bs"
  "m_bytes st (hdr_mbuf bs n) = bs" "zeroize (hdr_mbuf bs n) = False" "m_pkthdr (hdr_mbuf bs n) = no_hdr\<lparr>ph_len := n\<rparr>"
  by (simp_all add: hdr_mbuf_def m_bytes_def m_buf_def mem_read_def flag_simps)

lemma wf_sample [simp]:
  "length bs \<le> MLEN \<Longrightarrow> wf_mbuf st (data_mbuf bs)" "length bs \<le> MHLEN \<Longrightarrow> wf_mbuf st (hdr_mbuf bs n)"
  by (simp_all add: wf_mbuf_def m_buf_def, simp_all add: data_mbuf_def hdr_mbuf_def msize_facts)

lemma store_ok_sample [simp]: "store_ok (sample_store k)"
  by (simp add: store_ok_def sample_store_def data_mbuf_def)

lemma sample_fields [simp]:
  "m_len (mb_junk (sample_store k)) = k" "mb_avail (sample_store k) = 10" "cl_avail (sample_store k) = (\<lambda>_. 10)"
  by (simp_all add: sample_store_def)

lemmas sample_simps = chain_ok_def pkt_ok_def tags_fit_def no_hdr_def M_READONLY_def msize_facts M_COPYALL_def

subsection \<open>Reading\<close>

text \<open>
  C38 (copydata_reads): \<^verbatim>\<open>m_copydata\<close> returns the bytes from \<open>off\<close> on, \<open>len\<close> of
  them, of the chain; it panics exactly when an argument is negative or the chain is too short.
\<close>

theorem copydata_reads:
  assumes "wf_chain st ms"
  shows "m_copydata st ms off len =
    (if off < 0 then Inl ''m_copydata: off < 0''
     else if len < 0 then Inl ''m_copydata: len < 0''
     else if ms = [] \<or> int (chain_len ms) < off then Inl ''m_copydata: short mbuf chain''
     else if int (chain_len ms) < off + len then Inl ''m_copydata: null mbuf''
     else Inr (take (nat len) (drop (nat off) (chain_bytes st ms))))"
  using assms by (rule m_copydata_correct)

theorem copydata_reads_witness:
  "m_copydata (sample_store 0) [data_mbuf [1, 2], data_mbuf [], data_mbuf [3, 4, 5]] 1 3 = Inr [2, 3, 4]"
  using copydata_reads [of "sample_store 0" "[data_mbuf [1, 2], data_mbuf [], data_mbuf [3, 4, 5]]" 1 3]
  by (simp add: msize_facts)

text \<open>
  \<^verbatim>\<open>m_apply\<close> hands its function consecutive pieces of the chain that
  together are exactly the requested bytes, in order, and returns the first non-zero result.
\<close>

theorem apply_covers:
  assumes "wf_chain st ms" "0 \<le> off" "0 \<le> len" "off + len \<le> int (chain_len ms)"
  shows "\<exists>ps. concat ps = take (nat len) (drop (nat off) (chain_bytes st ms))
    \<and> m_apply st ms off len f s = Inr (apply_pieces f ps s)"
  using assms by (rule m_apply_correct)

theorem apply_covers_witness:
  "\<exists>ps. concat ps = [2, 3, 4] \<and> m_apply (sample_store 0) [data_mbuf [1, 2], data_mbuf [3, 4, 5]] 1 3
     (\<lambda>s p. (0, s @ p)) [] = Inr (apply_pieces (\<lambda>s p. (0, s @ p)) ps ([] :: u8 list))"
  using apply_covers [of "sample_store 0" "[data_mbuf [1, 2], data_mbuf [3, 4, 5]]" 1 3 "\<lambda>s p. (0, s @ p)" "[]"]
  by (simp add: msize_facts)

subsection \<open>Changing a chain\<close>

text \<open>
  C37 (adj_trims): \<^verbatim>\<open>m_adj\<close> drops bytes from the front, or with a negative count from the
  back, never more than there are, and keeps the length in the packet header right.
\<close>

theorem adj_trims:
  assumes "wf_chain st ms" "pkt_ok ms"
  shows "chain_bytes st (m_adj ms req_len) =
      (if 0 \<le> req_len then drop (nat req_len) (chain_bytes st ms)
       else take (chain_len ms - nat (- req_len)) (chain_bytes st ms))
    \<and> wf_chain st (m_adj ms req_len) \<and> pkt_ok (m_adj ms req_len)"
  using m_adj_front [OF assms, of req_len] m_adj_back [OF assms, of req_len] by (cases "0 \<le> req_len") auto

theorem adj_trims_witness:
  "chain_bytes (sample_store 0) (m_adj [hdr_mbuf [1, 2] 5, data_mbuf [3, 4, 5]] 3) = [4, 5]
   \<and> chain_bytes (sample_store 0) (m_adj [hdr_mbuf [1, 2] 5, data_mbuf [3, 4, 5]] (- 4)) = [1]
   \<and> pkt_ok (m_adj [hdr_mbuf [1, 2] 5, data_mbuf [3, 4, 5]] (- 4))"
  using adj_trims [of "sample_store 0" "[hdr_mbuf [1, 2] 5, data_mbuf [3, 4, 5]]" 3]
    adj_trims [of "sample_store 0" "[hdr_mbuf [1, 2] 5, data_mbuf [3, 4, 5]]" "- 4"]
  by (simp add: sample_simps)

text \<open>
  \<^verbatim>\<open>m_cat\<close> appends the second chain to the first, copying small mbufs
  into the free space of the last one or linking them.  The bytes of every other chain stay, even
  where clusters are shared.
\<close>

theorem cat_joins:
  assumes "chain_ok st (ms @ ns @ os)" "ms \<noteq> []" "\<forall>n\<in>set ns. \<not> zeroize n" "m_cat st ms ns = (st', ks)"
  shows "chain_bytes st' ks = chain_bytes st ms @ chain_bytes st ns \<and> chain_bytes st' os = chain_bytes st os
    \<and> chain_ok st' (ks @ os)"
  using m_cat_correct [OF assms] by blast

theorem cat_joins_witness:
  "\<exists>st' ks. m_cat (sample_store 0) [data_mbuf [1]] [data_mbuf [2, 3]] = (st', ks)
     \<and> chain_bytes st' ks = [1, 2, 3] \<and> chain_ok st' ks"
proof -
  obtain st' ks where c: "m_cat (sample_store 0) [data_mbuf [1]] [data_mbuf [2, 3]] = (st', ks)" by fastforce
  from cat_joins [of "sample_store 0" "[data_mbuf [1]]" "[data_mbuf [2, 3]]" "[]", OF _ _ _ c] c show ?thesis
    by (simp add: sample_simps)
qed

text \<open>
  C36 (prepend_makes_room): \<^verbatim>\<open>m_prepend\<close> gives a chain whose first mbuf has \<open>len\<close> new
  contiguous bytes in front of the old contents, with the packet length increased; other chains
  stay.  A caller that may sleep always gets it, unless \<open>len\<close> exceeds an mbuf with a header.
\<close>

theorem prepend_makes_room:
  assumes "chain_ok st (ms @ os)" "pkt_ok ms" "store_ok st" "len \<le> MHLEN"
  shows "(\<forall>st' ks. m_prepend st ms len how = Inr (st', Some ks) \<longrightarrow>
      drop len (chain_bytes st' ks) = chain_bytes st ms \<and> chain_ok st' (ks @ os) \<and> pkt_ok ks
      \<and> len \<le> m_len (hd ks) \<and> chain_len ks = len + chain_len ms \<and> chain_bytes st' os = chain_bytes st os)
    \<and> (\<exists>st' ks. m_prepend st ms len True = Inr (st', Some ks))"
  using m_prepend_correct [OF assms] m_prepend_result(2) [of ms len st] assms(2,4) by (auto simp: pkt_ok_def)

theorem prepend_makes_room_witness:
  "\<exists>st' ks. m_prepend (sample_store 0) [hdr_mbuf [1, 2] 2] 14 True = Inr (st', Some ks)
     \<and> drop 14 (chain_bytes st' ks) = [1, 2] \<and> pkt_ok ks \<and> 14 \<le> m_len (hd ks) \<and> chain_len ks = 16"
  using prepend_makes_room [of "sample_store 0" "[hdr_mbuf [1, 2] 2]" "[]" 14 True]
  by (auto simp: sample_simps)
lemma m_pullup_new_total:
  "\<exists>st1 q. m_pullup_new st n len = Inr (st1, q)
     \<and> (q = None \<longrightarrow> MAXMCLBYTES < len \<or> mb_avail st = 0 \<or> (\<exists>pi. cl_avail st pi = 0))"
proof (cases "MAXMCLBYTES < len \<or> mb_avail st = 0")
  case True
  then show ?thesis by (auto simp: m_pullup_new_def m_get_def)
next
  case False
  obtain m0 st0 where g: "m_get st False (m_type n) = (Some m0, st0)" "cl_avail st0 = cl_avail st"
    using False by (simp add: m_get_def count_mtype_def Let_def)
  obtain pi where pi: "m_clpool len = Some pi" using m_clpool_None [of len] False by fastforce
  have "is_ext (snd (mextadd s m pi))" for s m by (simp add: mextadd_def Let_def flag_simps)
  then show ?thesis using False g pi
    by (cases "cl_avail st pi = 0") (auto simp: m_pullup_new_def mclgeti_eq Let_def split: prod.splits if_splits, metis snd_conv)
qed

lemma m_pullup_total:
  assumes ok: "chain_ok st (ms @ os)" and ne: "ms \<noteq> []" and st: "store_ok st"
    and z: "\<forall>m\<in>set ms. \<not> zeroize m" and ro: "\<not> M_READONLY st (hd ms)"
  shows "\<exists>st' ks. m_pullup st ms len = Inr (st', ks)
    \<and> (ks = [] \<longrightarrow> chain_len ms < len \<or> MAXMCLBYTES < len \<or> mb_avail st = 0 \<or> (\<exists>pi. cl_avail st pi = 0))"
proof -
  obtain n ns where ms: "ms = n # ns" using ne by (cases ms) auto
  have ok': "chain_ok st (n # ns @ os)" using ok by (simp add: ms)
  have wf: "wf_mbuf st n" using ok' by (simp add: chain_ok_def)
  let ?here = "\<not> is_ext n \<and> ns \<noteq> [] \<and> m_data n + len < MLEN
     \<or> is_ext n \<and> len > MHLEN \<and> ns \<noteq> [] \<and> m_data n + len < length (ext_mem st (m_ext n))"
  show ?thesis
  proof (cases ?here)
    case here: True
    then have room: "m_data n + len \<le> length (m_buf st n)" using pullup_room [OF wf, of len] by blast
    obtain s m' ns' k where l: "m_pullup_loop st n ns (len - m_len n) = (s, m', ns', k)" by (metis prod_cases4)
    have "\<forall>m\<in>set ns. \<not> zeroize m" "\<not> M_READONLY st n" using z ro by (simp_all add: ms)
    from m_pullup_here(1) [OF ok' this room _ l] show ?thesis
      using here l by (cases "m_len n \<ge> len") (auto simp: m_pullup_def ms)
  next
    case False
    obtain st1 q where p: "m_pullup_new st n len = Inr (st1, q)"
      and q: "q = None \<longrightarrow> MAXMCLBYTES < len \<or> mb_avail st = 0 \<or> (\<exists>pi. cl_avail st pi = 0)"
      using m_pullup_new_total [of st n len] by auto
    show ?thesis
    proof (cases q)
      case None
      then show ?thesis
        using p q unfolding m_pullup_def ms Let_def list.sel if_not_P [OF False] by simp
    next
      case (Some mn)
      obtain m n' where mn: "mn = (m, n')" by (cases mn)
      obtain s m' ns' k where l: "m_pullup_loop st1 m (n' # ns) len = (s, m', ns', k)" by (metis prod_cases4)
      have "\<forall>m\<in>set (n # ns). \<not> zeroize m" using z by (simp add: ms)
      from m_pullup_moved(1) [OF ok' this st p [unfolded Some mn] l] show ?thesis
        using p Some mn l unfolding m_pullup_def ms Let_def list.sel if_not_P [OF False] by auto
    qed
  qed
qed

text \<open>
  C11 (pullup_contiguous): \<^verbatim>\<open>m_pullup\<close> on a chain whose first buffer is not shared never
  panics.  If it returns a chain, that chain has the same bytes and the first \<open>len\<close> of them
  lie in its first mbuf, the packet header moved along, and every other chain is untouched.  It
  returns no chain only if the packet is shorter than \<open>len\<close>, \<open>len\<close> exceeds every cluster, or a
  pool is empty.
\<close>

theorem pullup_contiguous:
  assumes "chain_ok st (ms @ os)" "ms \<noteq> []" "store_ok st" "\<forall>m\<in>set ms. \<not> zeroize m" "\<not> M_READONLY st (hd ms)"
  shows "\<exists>st' ks. m_pullup st ms len = Inr (st', ks)
    \<and> (if ks = [] then chain_len ms < len \<or> MAXMCLBYTES < len \<or> mb_avail st = 0 \<or> (\<exists>pi. cl_avail st pi = 0)
       else chain_bytes st' ks = chain_bytes st ms \<and> len \<le> m_len (hd ks) \<and> chain_ok st' (ks @ os)
         \<and> chain_bytes st' os = chain_bytes st os \<and> is_pkthdr (hd ks) = is_pkthdr (hd ms)
         \<and> (is_pkthdr (hd ms) \<longrightarrow> m_pkthdr (hd ks) = m_pkthdr (hd ms)))"
  using m_pullup_total [OF assms, of len] m_pullup_correct(1) [OF assms, of len]
  unfolding pullup_post_def by metis

theorem pullup_contiguous_witness:
  "\<exists>st' ks. m_pullup (sample_store 0) [hdr_mbuf [1, 2] 5, data_mbuf [3, 4, 5]] 4 = Inr (st', ks)
     \<and> ks \<noteq> [] \<and> chain_bytes st' ks = [1, 2, 3, 4, 5] \<and> 4 \<le> m_len (hd ks)"
proof -
  have "\<not> M_READONLY (sample_store 0) (hdr_mbuf [1, 2] 5)" by (simp add: M_READONLY_def)
  with pullup_contiguous [of "sample_store 0" "[hdr_mbuf [1, 2] 5, data_mbuf [3, 4, 5]]" "[]" 4] show ?thesis
    by (auto simp: sample_simps MAXMCLBYTES_def split: if_splits)
qed

text \<open>
  C22 (split_partitions): \<^verbatim>\<open>m_split\<close> of a packet always returns.  Either the chain keeps its
  bytes, or the two parts hold the first \<open>len\<close> bytes and the rest, each header with its own
  length, and no buffer of any chain is written.  A caller that may sleep gets the second part
  whenever there is one.  The recycled header mbuf must have length zero.
\<close>

theorem split_partitions:
  assumes "chain_ok st (ms @ os)" "pkt_ok ms" "is_pkthdr (hd ms)" "store_ok st"
    "tags_fit (ph_tags (m_pkthdr (hd ms)))" "m_len (mb_junk st) = 0"
  shows "\<exists>st' hs ts. m_split st ms len wait = Some (Inr (st', hs, ts)) \<and> ext_mem st' = ext_mem st
    \<and> (ts = [] \<and> chain_bytes st' hs = chain_bytes st ms \<and> chain_ok st' (hs @ os) \<and> pkt_ok hs
       \<or> chain_bytes st' hs = take len (chain_bytes st ms) \<and> chain_bytes st' ts = drop len (chain_bytes st ms)
         \<and> chain_ok st' (hs @ ts @ os) \<and> pkt_ok hs \<and> (ts \<noteq> [] \<longrightarrow> pkt_ok ts))
    \<and> (wait \<and> len < chain_len ms \<longrightarrow> ts \<noteq> [])"
  using m_split_hdr [OF assms, of len wait] by (auto simp: split_result_def split_post_def)

theorem split_partitions_witness:
  "\<exists>st' hs ts. m_split (sample_store 0) [hdr_mbuf [1, 2] 5, data_mbuf [3, 4, 5]] 3 True = Some (Inr (st', hs, ts))
     \<and> chain_bytes st' hs = [1, 2, 3] \<and> chain_bytes st' ts = [4, 5] \<and> pkt_ok hs \<and> pkt_ok ts"
proof -
  have "\<not> M_READONLY (sample_store 0) (hdr_mbuf [1, 2] 5)" by (simp add: M_READONLY_def)
  with split_partitions [of "sample_store 0" "[hdr_mbuf [1, 2] 5, data_mbuf [3, 4, 5]]" "[]" 3 True] show ?thesis
    by (auto simp: sample_simps)
qed

text \<open>
  When the split point lies in an internal mbuf with more than
  \<^verbatim>\<open>MHLEN\<close> bytes left, the header mbuf of the second part is meant to be empty, but its length
  is never set: it keeps the length the mbuf was recycled with, and the second part gets that many
  stray bytes in front.
\<close>

theorem split_stale_header:
  assumes "is_pkthdr (hd ms)" "tags_fit (ph_tags (m_pkthdr (hd ms)))" "store_ok st"
    "m_seek ms l = Some (pre, m, post, len)" "\<not> is_ext m" "MHLEN < m_len m - len"
    "m_split st ms l wait = Some (Inr (st', hs, ts))" "ts \<noteq> []"
  shows "m_len (hd ts) = m_len (mb_junk st)"
  using assms by (rule m_split_stale_length)


definition long_packet :: "mbuf list" where
  "long_packet = [hdr_mbuf [1] 201, data_mbuf (replicate 200 7)]"

theorem split_stale_header_witness:
  "\<exists>st' hs ts. m_split (sample_store 5) long_packet 21 True = Some (Inr (st', hs, ts)) \<and> m_len (hd ts) = 5"
proof -
  have "case m_split (sample_store 5) long_packet 21 True of Some (Inr (st', hs, ts)) \<Rightarrow> ts \<noteq> [] | _ \<Rightarrow> False"
    by code_simp
  then obtain st' hs ts where r: "m_split (sample_store 5) long_packet 21 True = Some (Inr (st', hs, ts))" "ts \<noteq> []"
    by (auto split: option.splits sum.splits prod.splits)
  have s: "m_seek long_packet 21 = Some ([hdr_mbuf [1] 201], data_mbuf (replicate 200 7), [], 20)"
    by (simp add: long_packet_def)
  from split_stale_header [OF _ _ _ s _ _ r] r show ?thesis
    by (auto simp: long_packet_def sample_simps)
qed

text \<open>
  C5 (copym_copies): \<^verbatim>\<open>m_copym0\<close>, sharing clusters or copying them, always returns.  A
  caller that may sleep gets a chain with the requested bytes, with the header's tags and the new
  length when it copies from the start of a packet; no buffer in use by any chain of \<open>xs\<close>
  changes.  The packet's first mbuf must not be empty.
\<close>

theorem copym_copies:
  assumes "chain_ok st xs" "set ms \<subseteq> set xs" "ms \<noteq> []" "store_ok st"
    "0 \<le> off" "off \<le> int (chain_len ms)" "int (chain_len ms) < M_COPYALL"
    "0 \<le> len" "len = M_COPYALL \<or> off + len \<le> int (chain_len ms)"
    "off = 0 \<and> is_pkthdr (hd ms) \<longrightarrow> 0 < m_len (hd ms) \<and> tags_fit (ph_tags (m_pkthdr (hd ms)))"
  shows "\<exists>st' ks. m_copym0 st ms off len wait deep = Some (Inr (st', ks))
    \<and> (\<not> wait \<and> ks = []
       \<or> chain_ok st' (ks @ xs) \<and> chain_bytes st' xs = chain_bytes st xs
         \<and> chain_bytes st' ks = (if len = M_COPYALL then drop (nat off) (chain_bytes st ms)
             else take (nat len) (drop (nat off) (chain_bytes st ms))))
    \<and> (off = 0 \<and> is_pkthdr (hd ms) \<and> ks \<noteq> [] \<longrightarrow> is_pkthdr (hd ks)
        \<and> ph_len (m_pkthdr (hd ks)) = (if len = M_COPYALL then ph_len (m_pkthdr (hd ms)) else len)
        \<and> ph_tags (m_pkthdr (hd ks)) = ph_tags (m_pkthdr (hd ms)))"
  using m_copym0_correct [OF assms, of wait deep] keeps_bytes(2) chain_okD(1) [OF assms(1)]
  unfolding copied_def by blast

theorem copym_copies_witness:
  "\<exists>st' ks. m_copym0 (sample_store 0) [hdr_mbuf [1, 2] 5, data_mbuf [3, 4, 5]] 0 4 True True = Some (Inr (st', ks))
     \<and> chain_bytes st' ks = [1, 2, 3, 4] \<and> is_pkthdr (hd ks) \<and> ph_len (m_pkthdr (hd ks)) = 4"
proof -
  let ?p = "[hdr_mbuf [1, 2] 5, data_mbuf [3, 4, 5]]"
  have "chain_ok (sample_store 0) ?p" by (simp add: sample_simps)
  from copym_copies [OF this, of ?p 0 4 True True] show ?thesis by (auto simp: sample_simps)
qed

subsection \<open>Tags\<close>

text \<open>The tag set of a header is the union of its tags' types.\<close>

definition tagsset_ok :: "mbuf \<Rightarrow> bool" where
  "tagsset_ok m \<longleftrightarrow> ph_tagsset (m_pkthdr m) = tags_of (ph_tags (m_pkthdr m))"

lemma bit_fold_tags: "bit (fold (\<lambda>t s. s OR m_tag_id t) ts a) i \<longleftrightarrow> bit a i \<or> (\<exists>t\<in>set ts. bit (m_tag_id t) i)"
  by (induction ts arbitrary: a) (auto simp: bit_or_iff)

lemma tags_of_Cons: "tags_of (t # ts) = tags_of ts OR m_tag_id t"
  by (rule bit_word_eqI) (auto simp: tags_of_def bit_fold_tags bit_or_iff)

lemma tags_of_member: "t \<in> set ts \<Longrightarrow> m_tag_id t \<noteq> 0 \<Longrightarrow> tags_of ts AND m_tag_id t \<noteq> 0"
proof -
  assume "t \<in> set ts" "m_tag_id t \<noteq> 0"
  then obtain i where "bit (m_tag_id t) i" by (metis bit_0_eq bit_eqI bot_apply bot_bool_def)
  with \<open>t \<in> set ts\<close> have "bit (tags_of ts AND m_tag_id t) i" by (auto simp: tags_of_def bit_fold_tags bit_and_iff)
  then show ?thesis by auto
qed

lemma tagsset_prepend: "tagsset_ok m \<Longrightarrow> tagsset_ok (m_tag_prepend m t)"
  by (simp add: tagsset_ok_def m_tag_prepend_def Let_def tags_of_Cons)

lemma tagsset_delete: "tagsset_ok (snd (m_tag_delete st m t))" "tagsset_ok (snd (m_tag_delete_chain st m))"
  by (simp_all add: tagsset_ok_def m_tag_delete_def m_tag_delete_chain_def Let_def tags_of_def)

text \<open>
  With a correct tag set the quick test in \<^verbatim>\<open>m_tag_find\<close> never hides a
  tag: the search finds the first tag of the type in the whole list, and the routines that add,
  remove and copy tags keep the tag set correct.
\<close>

theorem tag_find_exact:
  assumes "tagsset_ok m" "type \<noteq> 0"
  shows "m_tag_find m type None = find (\<lambda>p. m_tag_id p = type) (ph_tags (m_pkthdr m))
    \<and> tagsset_ok (m_tag_prepend m t) \<and> tagsset_ok (snd (m_tag_delete st m t))
    \<and> (m_tag_id t = type \<longrightarrow> m_tag_find (m_tag_prepend m t) type None = Some t)"
proof -
  have f: "m_tag_find m' type None = find (\<lambda>p. m_tag_id p = type) (ph_tags (m_pkthdr m'))" if "tagsset_ok m'" for m'
  proof (cases "find (\<lambda>p. m_tag_id p = type) (ph_tags (m_pkthdr m'))")
    case None
    then show ?thesis by (simp add: m_tag_find_def)
  next
    case (Some p)
    then have "p \<in> set (ph_tags (m_pkthdr m'))" "m_tag_id p = type" by (auto simp: find_Some_iff)
    then have "ph_tagsset (m_pkthdr m') AND type \<noteq> 0" using that tags_of_member assms(2) by (auto simp: tagsset_ok_def)
    then show ?thesis by (simp add: m_tag_find_def)
  qed
  then show ?thesis using assms(1) tagsset_prepend [OF assms(1), of t] tagsset_delete(1) [of st m t]
    by (auto simp: m_tag_prepend_def Let_def)
qed

theorem tag_find_exact_witness:
  "m_tag_find (m_tag_prepend (hdr_mbuf [] 0) \<lparr>m_tag_id = 4, m_tag_data = []\<rparr>) 4 None
     = Some \<lparr>m_tag_id = 4, m_tag_data = []\<rparr>"
  using tag_find_exact [of "hdr_mbuf [] 0" 4 "\<lparr>m_tag_id = 4, m_tag_data = []\<rparr>" "sample_store 0"]
  by (simp add: tagsset_ok_def no_hdr_def tags_of_def)

subsection \<open>Where the code goes wrong\<close>

text \<open>Two mbufs that share one cluster of 200 bytes, the second right behind the first.\<close>

definition cluster_mbuf :: "nat \<Rightarrow> nat \<Rightarrow> mbuf" where
  "cluster_mbuf off len = (data_mbuf [])\<lparr>m_flags := M_EXT OR M_EXTWR, m_data := off, m_len := len, m_ext := 0\<rparr>"

definition shared_store :: mstore where
  "shared_store = (sample_store 0)\<lparr>ext_mem := (\<lambda>_. replicate 200 9), ext_ref := (\<lambda>i. if i = 0 then 2 else 0),
     ext_next := 1\<rparr>"

text \<open>
  \<^verbatim>\<open>m_pullup\<close> writes into the free space of a cluster without
  asking whether it is shared.  With 160 bytes of a cluster in front, and another mbuf of
  another chain using the bytes behind them, pulling up 164 bytes overwrites the other chain.
\<close>

theorem pullup_clobbers_shared:
  "chain_ok shared_store ([cluster_mbuf 0 160, data_mbuf [1, 2, 3, 4]] @ [cluster_mbuf 160 4])
   \<and> M_READONLY shared_store (cluster_mbuf 0 160)
   \<and> chain_bytes shared_store [cluster_mbuf 160 4] = [9, 9, 9, 9]
   \<and> (case m_pullup shared_store [cluster_mbuf 0 160, data_mbuf [1, 2, 3, 4]] 164 of
        Inr (st', ks) \<Rightarrow> ks \<noteq> [] \<and> chain_bytes st' [cluster_mbuf 160 4] = [1, 2, 3, 4]
      | Inl e \<Rightarrow> False)"
  by (intro conjI) code_simp+

text \<open>
  Copying a packet whose header mbuf is empty makes \<^verbatim>\<open>m_copym0\<close> put
  the header and the bytes of the second mbuf, up to \<^verbatim>\<open>MLEN\<close> of them, into one mbuf that has
  room for \<^verbatim>\<open>MHLEN\<close>: the write runs past the end of the mbuf.
\<close>

theorem copym_overflows:
  "chain_ok (sample_store 0) [hdr_mbuf [] 200, data_mbuf (replicate 200 7)]
   \<and> pkt_ok [hdr_mbuf [] 200, data_mbuf (replicate 200 7)]
   \<and> (case m_copym0 (sample_store 0) [hdr_mbuf [] 200, data_mbuf (replicate 200 7)] 0 200 True False of
        Some (Inr (st', ks)) \<Rightarrow> MLEN < length (m_dat (hd ks)) | _ \<Rightarrow> False)"
  by (intro conjI) code_simp+

subsection \<open>Bringing data together\<close>



text \<open>
  C24 (defrag_single): \<^verbatim>\<open>m_defrag\<close> turns a packet of at most the largest cluster size into a single
  mbuf with the same bytes and the same header, or reports \<^verbatim>\<open>ENOBUFS\<close> with the packet as it was;
  the latter never for a caller that may sleep.  Other chains keep their bytes.
\<close>

theorem defrag_single:
  assumes "chain_ok st (ms @ os)" "pkt_ok ms" "is_pkthdr (hd ms)" "store_ok st" "\<forall>m\<in>set ms. \<not> zeroize m"
    "chain_len ms \<le> MAXMCLBYTES"
  shows "\<exists>st' ks e. m_defrag st ms how = Inr (st', ks, e)
    \<and> (if e = 0 then length ks = 1 \<and> chain_bytes st' ks = chain_bytes st ms \<and> chain_ok st' (ks @ os)
         \<and> chain_bytes st' os = chain_bytes st os \<and> is_pkthdr (hd ks) \<and> m_pkthdr (hd ks) = m_pkthdr (hd ms)
       else e = ENOBUFS \<and> \<not> how \<and> ks = ms \<and> chain_ok st' (ms @ os) \<and> chain_bytes st' (ms @ os) = chain_bytes st (ms @ os))"
  using m_defrag_correct [OF assms, of how] by simp

theorem defrag_single_witness:
  "\<exists>st' k. m_defrag (sample_store 0) [hdr_mbuf [1, 2] 5, data_mbuf [3, 4, 5]] True = Inr (st', [k], 0)
     \<and> m_bytes st' k = [1, 2, 3, 4, 5]"
proof -
  have l: "(\<exists>x. xs = [x] \<and> P x) \<longleftrightarrow> length xs = 1 \<and> P (hd xs)" for xs :: "mbuf list" and P by (cases xs) auto
  from defrag_single [of "sample_store 0" "[hdr_mbuf [1, 2] 5, data_mbuf [3, 4, 5]]" "[]" True] obtain st' ks e where
    "m_defrag (sample_store 0) [hdr_mbuf [1, 2] 5, data_mbuf [3, 4, 5]] True = Inr (st', ks, e)" "e = 0" "length ks = 1"
    "chain_bytes st' ks = [1, 2, 3, 4, 5]" by (auto simp: sample_simps MAXMCLBYTES_def split: if_splits)
  then show ?thesis using l [of ks "\<lambda>k. m_bytes st' k = [1, 2, 3, 4, 5]"] by (cases ks) auto
qed

text \<open>
  C23 (devget_copies): \<^verbatim>\<open>m_devget\<close> always returns; a packet it returns holds exactly the bytes of the
  device buffer and has their number in its header, wherever the first data is placed.  It
  succeeds on every non-empty buffer if the offset is in range and there is an mbuf for every
  byte and the header.  No other chain changes.
\<close>

theorem devget_copies:
  assumes "chain_ok st os" "store_ok st"
  shows "\<exists>st' ks. m_devget max_linkhdr st buf off = Inr (st', ks) \<and> chain_ok st' (ks @ os) \<and> chain_bytes st' os = chain_bytes st os
    \<and> (ks \<noteq> [] \<longrightarrow> chain_bytes st' ks = buf \<and> is_pkthdr (hd ks) \<and> ph_len (m_pkthdr (hd ks)) = int (length buf))
    \<and> (0 \<le> off \<and> off \<le> int MHLEN \<and> buf \<noteq> [] \<and> length buf < mb_avail st \<longrightarrow> ks \<noteq> [])"
  using assms by (rule m_devget_correct)

theorem devget_copies_witness:
  "\<exists>st' ks. m_devget 16 (sample_store 0) [1, 2, 3] 2 = Inr (st', ks) \<and> chain_bytes st' ks = [1, 2, 3]"
  using devget_copies [of "sample_store 0" "[]" 16 "[1, 2, 3]" 2] by (auto simp: sample_simps)

text \<open>An empty device buffer: the header mbuf is taken, and the null pointer returned.\<close>

lemma devget_empty_leaks:
  "m_devget 16 (sample_store 0) [] 0 = Inr (st', ks) \<Longrightarrow> ks = [] \<and> mb_avail st' + 1 = mb_avail (sample_store 0)"
  by (auto simp: m_devget_def m_gethdr_def devget_loop.simps msize_facts Let_def count_mtype_effect)

end
