(* ===== verification/Mbuf_Queue.thy ===== *)
theory Mbuf_Queue
  imports Prelude "HOL-Library.Multiset"
begin

text \<open>
  Lists and queues of packets (end of \<^verbatim>\<open>kern/uipc_mbuf.c\<close>, \<^verbatim>\<open>sys/mbuf.h\<close>).  The packets are linked
  through \<^verbatim>\<open>m_nextpkt\<close>, and a list has pointers to its first and last packet.  Packets are
  addresses here, and the links are a map in the heap, so that the operations change the links
  as the code does.
\<close>

subsection \<open>Lists\<close>

text \<open>The links of all packets, and the packets given to \<^verbatim>\<open>m_freem\<close>, last one first.\<close>

record qheap =
  qh_next :: "nat \<Rightarrow> nat option"
  qh_freed :: "nat list"

record mbuf_list =
  ml_head :: "nat option"
  ml_tail :: "nat option"
  ml_len :: u32

definition ml_empty :: "mbuf_list \<Rightarrow> bool" where
  "ml_empty ml \<longleftrightarrow> ml_len ml = 0"

definition set_next :: "qheap \<Rightarrow> nat \<Rightarrow> nat option \<Rightarrow> qheap" where
  "set_next h m p = h\<lparr>qh_next := (qh_next h)(m := p)\<rparr>"

definition ml_init :: mbuf_list where
  "ml_init = \<lparr>ml_head = None, ml_tail = None, ml_len = 0\<rparr>"

definition ml_enqueue :: "qheap \<Rightarrow> mbuf_list \<Rightarrow> nat \<Rightarrow> qheap \<times> mbuf_list" where
  "ml_enqueue h ml m =
     (let (h, ml) =
        (case ml_tail ml of
           None \<Rightarrow> (h, ml\<lparr>ml_head := Some m, ml_tail := Some m\<rparr>)
         | Some t \<Rightarrow> (set_next h t (Some m), ml\<lparr>ml_tail := Some m\<rparr>))
      in (set_next h m None, ml\<lparr>ml_len := ml_len ml + 1\<rparr>))"

text \<open>\<open>None\<close> is the use of a null pointer.\<close>

definition ml_join :: "qheap \<Rightarrow> mbuf_list \<Rightarrow> mbuf_list \<Rightarrow> (qheap \<times> mbuf_list \<times> mbuf_list) option" where
  "ml_join h mla mlb =
     (if ml_empty mlb then Some (h, mla, mlb)
      else
        map_option (\<lambda>(h, mla). (h, mla\<lparr>ml_tail := ml_tail mlb, ml_len := ml_len mla + ml_len mlb\<rparr>, ml_init))
          (if ml_empty mla then Some (h, mla\<lparr>ml_head := ml_head mlb\<rparr>)
           else map_option (\<lambda>t. (set_next h t (ml_head mlb), mla)) (ml_tail mla)))"

definition ml_dequeue :: "qheap \<Rightarrow> mbuf_list \<Rightarrow> qheap \<times> mbuf_list \<times> nat option" where
  "ml_dequeue h ml =
     (case ml_head ml of
        None \<Rightarrow> (h, ml, None)
      | Some m \<Rightarrow>
          let n = qh_next h m;
              ml = ml\<lparr>ml_head := n, ml_tail := (if n = None then None else ml_tail ml)\<rparr>
          in (set_next h m None, ml\<lparr>ml_len := ml_len ml - 1\<rparr>, Some m))"

definition ml_dechain :: "mbuf_list \<Rightarrow> mbuf_list \<times> nat option" where
  "ml_dechain ml = (ml_init, ml_head ml)"

text \<open>
  The loop of \<^verbatim>\<open>ml_filter\<close>.  \<open>mp\<close> is the place of the link to the packet at hand: the head of the
  list, or the link of the packet last kept.
\<close>

partial_function (option) ml_filter_loop :: "(nat \<Rightarrow> bool) \<Rightarrow> qheap \<Rightarrow> mbuf_list \<Rightarrow> mbuf_list \<Rightarrow> nat option \<Rightarrow> nat option
    \<Rightarrow> (qheap \<times> mbuf_list \<times> mbuf_list) option" where
  "ml_filter_loop f h ml matches mp p =
     (case p of
        None \<Rightarrow> Some (h, ml, matches)
      | Some m \<Rightarrow>
          let n = qh_next h m
          in if f m then
               let (h, ml) = (case mp of None \<Rightarrow> (h, ml\<lparr>ml_head := n\<rparr>) | Some q \<Rightarrow> (set_next h q n, ml));
                   (h, matches) = ml_enqueue h matches m
               in ml_filter_loop f h ml matches mp n
             else ml_filter_loop f h (ml\<lparr>ml_tail := Some m\<rparr>) matches (Some m) n)"

declare ml_filter_loop.simps [code]

definition ml_filter :: "(nat \<Rightarrow> bool) \<Rightarrow> qheap \<Rightarrow> mbuf_list \<Rightarrow> (qheap \<times> mbuf_list \<times> nat option) option" where
  "ml_filter f h ml =
     map_option (\<lambda>(h, ml, matches).
         let ml = (if ml_head ml = None then ml\<lparr>ml_tail := None\<rparr> else ml)
         in (h, ml\<lparr>ml_len := ml_len ml - ml_len matches\<rparr>, ml_head matches))
       (ml_filter_loop f h ml ml_init None (ml_head ml))"

subsection \<open>Queues\<close>

record mbuf_queue =
  mq_list :: mbuf_list
  mq_maxlen :: u32
  mq_drops :: u32

definition mq_len :: "mbuf_queue \<Rightarrow> u32" where
  "mq_len mq = ml_len (mq_list mq)"

definition mq_init :: "mbuf_queue \<Rightarrow> u32 \<Rightarrow> mbuf_queue" where
  "mq_init mq maxlen = mq\<lparr>mq_list := ml_init, mq_maxlen := maxlen\<rparr>"

definition q_freem :: "qheap \<Rightarrow> nat \<Rightarrow> qheap" where
  "q_freem h m = h\<lparr>qh_freed := m # qh_freed h\<rparr>"

definition mq_enqueue :: "qheap \<Rightarrow> mbuf_queue \<Rightarrow> nat \<Rightarrow> qheap \<times> mbuf_queue \<times> bool" where
  "mq_enqueue h mq m =
     (if mq_len mq < mq_maxlen mq then
        let (h, ml) = ml_enqueue h (mq_list mq) m in (h, mq\<lparr>mq_list := ml\<rparr>, False)
      else (q_freem h m, mq\<lparr>mq_drops := mq_drops mq + 1\<rparr>, True))"

definition mq_dequeue :: "qheap \<Rightarrow> mbuf_queue \<Rightarrow> qheap \<times> mbuf_queue \<times> nat option" where
  "mq_dequeue h mq = (let (h, ml, m) = ml_dequeue h (mq_list mq) in (h, mq\<lparr>mq_list := ml\<rparr>, m))"

text \<open>The loop that frees a list that does not go into the queue.\<close>

partial_function (option) mq_drop_loop :: "qheap \<Rightarrow> mbuf_list \<Rightarrow> (qheap \<times> mbuf_list) option" where
  "mq_drop_loop h ml =
     (case ml_dequeue h ml of
        (h, ml, None) \<Rightarrow> Some (h, ml)
      | (h, ml, Some m) \<Rightarrow> mq_drop_loop (q_freem h m) ml)"

declare mq_drop_loop.simps [code]

definition mq_enlist :: "qheap \<Rightarrow> mbuf_queue \<Rightarrow> mbuf_list \<Rightarrow> (qheap \<times> mbuf_queue \<times> mbuf_list \<times> u32) option" where
  "mq_enlist h mq ml =
     (if mq_len mq < mq_maxlen mq then
        map_option (\<lambda>(h, q, ml). (h, mq\<lparr>mq_list := q\<rparr>, ml, 0)) (ml_join h (mq_list mq) ml)
      else
        let dropped = ml_len ml; mq = mq\<lparr>mq_drops := mq_drops mq + dropped\<rparr>
        in if dropped \<noteq> 0 then map_option (\<lambda>(h, ml). (h, mq, ml, dropped)) (mq_drop_loop h ml)
           else Some (h, mq, ml, 0))"

definition mq_delist :: "mbuf_queue \<Rightarrow> mbuf_queue \<times> mbuf_list" where
  "mq_delist mq = (mq\<lparr>mq_list := ml_init\<rparr>, mq_list mq)"

definition mq_dechain :: "mbuf_queue \<Rightarrow> mbuf_queue \<times> nat option" where
  "mq_dechain mq = (let (ml, m) = ml_dechain (mq_list mq) in (mq\<lparr>mq_list := ml\<rparr>, m))"

definition mq_filter :: "(nat \<Rightarrow> bool) \<Rightarrow> qheap \<Rightarrow> mbuf_queue \<Rightarrow> (qheap \<times> mbuf_queue \<times> nat option) option" where
  "mq_filter f h mq = map_option (\<lambda>(h, ml, m). (h, mq\<lparr>mq_list := ml\<rparr>, m)) (ml_filter f h (mq_list mq))"

subsection \<open>Lists in the heap\<close>

text \<open>The links lead from \<open>p\<close> over the packets of a list to \<open>q\<close>.\<close>

fun seg :: "(nat \<Rightarrow> nat option) \<Rightarrow> nat option \<Rightarrow> nat list \<Rightarrow> nat option \<Rightarrow> bool" where
  "seg n p [] q \<longleftrightarrow> p = q"
| "seg n p (x # xs) q \<longleftrightarrow> p = Some x \<and> seg n (n x) xs q"

definition ml_ok :: "qheap \<Rightarrow> mbuf_list \<Rightarrow> nat list \<Rightarrow> bool" where
  "ml_ok h ml xs \<longleftrightarrow> seg (qh_next h) (ml_head ml) xs None \<and> distinct xs \<and>
     ml_tail ml = (if xs = [] then None else Some (last xs)) \<and> ml_len ml = word_of_nat (length xs) \<and> length xs < 2 ^ 32"

lemma seg_app: "seg n p (xs @ ys) q \<longleftrightarrow> (\<exists>r. seg n p xs r \<and> seg n r ys q)"
  by (induction xs arbitrary: p) auto

lemma seg_upd: "m \<notin> set xs \<Longrightarrow> seg (n(m := v)) p xs q \<longleftrightarrow> seg n p xs q"
  by (induction xs arbitrary: p) auto

text \<open>The link of the last packet can be set to a new end.\<close>

lemma seg_last: "xs \<noteq> [] \<Longrightarrow> distinct xs \<Longrightarrow> seg n p xs q \<Longrightarrow> seg (n(last xs := r)) p xs r"
  by (induction xs arbitrary: p) (auto simp: seg_upd)

lemma seg_head: "seg n p xs q \<Longrightarrow> xs \<noteq> [] \<Longrightarrow> p = Some (hd xs)"
  by (cases xs) auto

lemma ml_empty_iff: "ml_ok h ml xs \<Longrightarrow> ml_empty ml \<longleftrightarrow> xs = []"
  by (auto simp: ml_ok_def ml_empty_def word_of_nat_eq_0_iff dest: nat_dvd_not_less)

lemma ml_ok_init [simp]: "ml_ok h ml_init []"
  by (simp add: ml_ok_def ml_init_def)

lemma next_simps [simp]: "qh_next (set_next h m p) = (qh_next h)(m := p)" "qh_freed (set_next h m p) = qh_freed h"
  by (simp_all add: set_next_def)

text \<open>A list does not notice changes to packets outside it.\<close>

lemma ml_ok_frame: "ml_ok h ml xs \<Longrightarrow> \<forall>x\<in>set xs. qh_next h' x = qh_next h x \<Longrightarrow> ml_ok h' ml xs"
proof -
  assume ok: "ml_ok h ml xs" and e: "\<forall>x\<in>set xs. qh_next h' x = qh_next h x"
  have "seg (qh_next h') p xs q" if "seg (qh_next h) p xs q" for p q using that e by (induction xs arbitrary: p) auto
  then show ?thesis using ok by (simp add: ml_ok_def)
qed

lemma enqueue_ok:
  assumes ok: "ml_ok h ml xs" and m: "m \<notin> set xs" "Suc (length xs) < 2 ^ 32" and e: "ml_enqueue h ml m = (h', ml')"
  shows "ml_ok h' ml' (xs @ [m])" "\<forall>x. x \<notin> set xs \<longrightarrow> x \<noteq> m \<longrightarrow> qh_next h' x = qh_next h x" "qh_freed h' = qh_freed h"
proof -
  have "seg ((qh_next h)(last xs := Some m)) (ml_head ml) xs (Some m)" if "xs \<noteq> []"
    using seg_last [OF that] ok unfolding ml_ok_def by blast
  then have s: "seg ((qh_next h)(last xs := Some m, m := None)) (ml_head ml) xs (Some m)" if "xs \<noteq> []"
    using seg_upd [OF m(1)] that by simp
  show "ml_ok h' ml' (xs @ [m])"
    using ok m e s by (cases "xs = []") (auto simp: ml_ok_def ml_enqueue_def seg_app split: if_splits)
  show "\<forall>x. x \<notin> set xs \<longrightarrow> x \<noteq> m \<longrightarrow> qh_next h' x = qh_next h x" "qh_freed h' = qh_freed h"
    using ok e by (cases "xs = []"; auto simp: ml_ok_def ml_enqueue_def split: if_splits)+
qed

lemma dequeue_empty: "ml_ok h ml [] \<Longrightarrow> ml_dequeue h ml = (h, ml, None)"
  by (auto simp: ml_ok_def ml_dequeue_def)

lemma dequeue_ok:
  assumes ok: "ml_ok h ml (x # xs)"
  shows "\<exists>h' ml'. ml_dequeue h ml = (h', ml', Some x) \<and> ml_ok h' ml' xs \<and> qh_next h' = (qh_next h)(x := None) \<and> qh_freed h' = qh_freed h"
proof -
  have x: "x \<notin> set xs" "seg (qh_next h) (qh_next h x) xs None" using ok by (auto simp: ml_ok_def)
  have "qh_next h x = None \<longleftrightarrow> xs = []" using x(2) by (cases xs) auto
  then show ?thesis using ok x by (auto simp: ml_ok_def ml_dequeue_def seg_upd)
qed

lemma join_ok:
  assumes a: "ml_ok h mla xs" and b: "ml_ok h mlb ys" and d: "set xs \<inter> set ys = {}" "length xs + length ys < 2 ^ 32"
  shows "\<exists>h' ml'. ml_join h mla mlb = Some (h', ml', ml_init) \<and> ml_ok h' ml' (xs @ ys) \<and> qh_freed h' = qh_freed h"
proof (cases "ys = []")
  case True
  then have "mlb = ml_init" using b by (auto simp: ml_ok_def ml_init_def)
  then show ?thesis using True a by (simp add: ml_join_def ml_empty_def ml_init_def)
next
  case ys: False
  then have ne: "\<not> ml_empty mlb" using ml_empty_iff [OF b] by simp
  show ?thesis
  proof (cases "xs = []")
    case True
    then have "ml_empty mla" "ml_len mla = 0" using a by (auto simp: ml_ok_def ml_empty_def)
    then show ?thesis using True ne b ys by (simp add: ml_join_def ml_ok_def)
  next
    case xs: False
    then have na: "\<not> ml_empty mla" "ml_tail mla = Some (last xs)" using a ml_empty_iff [OF a] by (simp_all add: ml_ok_def)
    have "seg ((qh_next h)(last xs := ml_head mlb)) (ml_head mla) xs (ml_head mlb)"
      using seg_last [OF xs] a unfolding ml_ok_def by blast
    moreover have "seg ((qh_next h)(last xs := ml_head mlb)) (ml_head mlb) ys None"
    proof -
      have "last xs \<notin> set ys" using xs d(1) last_in_set by blast
      then show ?thesis using seg_upd b by (simp add: ml_ok_def)
    qed
    ultimately have "seg ((qh_next h)(last xs := ml_head mlb)) (ml_head mla) (xs @ ys) None" by (auto simp: seg_app)
    then show ?thesis using ne na xs ys a b d by (auto simp: ml_join_def ml_ok_def)
  qed
qed

text \<open>
  The state of the filter loop: the packets \<open>K\<close> were kept, \<open>M\<close> went to the matches, and \<open>R\<close> are
  to come.
\<close>

definition filtering :: "qheap \<Rightarrow> mbuf_list \<Rightarrow> mbuf_list \<Rightarrow> nat option \<Rightarrow> nat option \<Rightarrow> nat list \<Rightarrow> nat list \<Rightarrow> nat list \<Rightarrow> bool" where
  "filtering h ml matches mp p K M R \<longleftrightarrow>
     seg (qh_next h) (ml_head ml) K p \<and> seg (qh_next h) p R None \<and> mp = (if K = [] then None else Some (last K)) \<and>
     (K \<noteq> [] \<longrightarrow> ml_tail ml = Some (last K)) \<and> ml_ok h matches M \<and> distinct (K @ M @ R) \<and> length (K @ M @ R) < 2 ^ 32"

lemma filtering_match:
  assumes i: "filtering h ml matches mp (Some m) K M (m # R)"
    and u: "(h1, ml1) = (case mp of None \<Rightarrow> (h, ml\<lparr>ml_head := qh_next h m\<rparr>) | Some q \<Rightarrow> (set_next h q (qh_next h m), ml))"
    and e: "ml_enqueue h1 matches m = (h2, matches2)"
  shows "filtering h2 ml1 matches2 mp (qh_next h m) K (M @ [m]) R" "qh_freed h2 = qh_freed h" "ml_len ml1 = ml_len ml"
proof -
  have d: "distinct (K @ M @ m # R)" "length (K @ M @ m # R) < 2 ^ 32" and ok: "ml_ok h matches M"
    and s: "seg (qh_next h) (ml_head ml) K (Some m)" "seg (qh_next h) (qh_next h m) R None" using i by (auto simp: filtering_def)
  have mp: "mp = (if K = [] then None else Some (last K))" using i by (simp add: filtering_def)
  have n1: "\<forall>x. x \<notin> set K \<longrightarrow> qh_next h1 x = qh_next h x" using u mp by (auto split: if_splits)
  have k1: "seg (qh_next h1) (ml_head ml1) K (qh_next h m)"
    using u mp s(1) seg_last [of K "qh_next h" "ml_head ml" "Some m"] d by (auto split: if_splits)
  have ok1: "ml_ok h1 matches M" by (rule ml_ok_frame [OF ok]) (use n1 d in auto)
  note q = enqueue_ok [OF ok1 _ _ e]
  have n2: "\<forall>x\<in>set K. qh_next h2 x = qh_next h1 x" "\<forall>x\<in>set R. qh_next h2 x = qh_next h x"
  proof -
    have x: "x \<notin> set M \<and> x \<noteq> m \<and> (x \<in> set R \<longrightarrow> x \<notin> set K)" if "x \<in> set K \<or> x \<in> set R" for x using d that by auto
    have e: "\<forall>x. x \<notin> set M \<longrightarrow> x \<noteq> m \<longrightarrow> qh_next h2 x = qh_next h1 x" using q(2) d by simp
    show "\<forall>x\<in>set K. qh_next h2 x = qh_next h1 x" using e x by blast
    show "\<forall>x\<in>set R. qh_next h2 x = qh_next h x" using e n1 x by metis
  qed
  have seg_cong: "seg n' p xs r" if "seg n p xs r" "\<forall>x\<in>set xs. n' x = n x" for n n' p r xs
    using that by (induction xs arbitrary: p) auto
  have "seg (qh_next h2) (ml_head ml1) K (qh_next h m)" "seg (qh_next h2) (qh_next h m) R None"
    using seg_cong [OF k1 n2(1)] seg_cong [OF s(2) n2(2)] by blast+
  then show "filtering h2 ml1 matches2 mp (qh_next h m) K (M @ [m]) R"
    using q(1) d i u by (auto simp: filtering_def split: if_splits)
  show "qh_freed h2 = qh_freed h" "ml_len ml1 = ml_len ml" using q(3) d u mp by (auto split: if_splits)
qed

lemma filter_loop_ok:
  "filtering h ml matches mp p K M R \<Longrightarrow>
   \<exists>h' ml' matches' mp'. ml_filter_loop f h ml matches mp p = Some (h', ml', matches') \<and>
     filtering h' ml' matches' mp' None (K @ filter (\<lambda>m. \<not> f m) R) (M @ filter f R) [] \<and>
     qh_freed h' = qh_freed h \<and> ml_len ml' = ml_len ml"
proof (induction R arbitrary: h ml matches mp p K M)
  case Nil
  then have "p = None" by (simp add: filtering_def)
  then show ?case using Nil by (auto simp: ml_filter_loop.simps filtering_def)
next
  case (Cons m R)
  then have p: "p = Some m" by (simp add: filtering_def)
  show ?case
  proof (cases "f m")
    case True
    obtain h1 ml1 where u: "(h1, ml1) = (case mp of None \<Rightarrow> (h, ml\<lparr>ml_head := qh_next h m\<rparr>) | Some q \<Rightarrow> (set_next h q (qh_next h m), ml))"
      by (cases "case mp of None \<Rightarrow> (h, ml\<lparr>ml_head := qh_next h m\<rparr>) | Some q \<Rightarrow> (set_next h q (qh_next h m), ml)") auto
    obtain h2 matches2 where e: "ml_enqueue h1 matches m = (h2, matches2)" by fastforce
    note s = filtering_match [OF Cons.prems [unfolded p] u e]
    have "ml_filter_loop f h ml matches mp p = ml_filter_loop f h2 ml1 matches2 mp (qh_next h m)"
      using True by (simp add: p ml_filter_loop.simps [of f h ml] u [symmetric] e)
    then show ?thesis using Cons.IH [OF s(1)] s(2,3) True by simp
  next
    case False
    have "filtering h (ml\<lparr>ml_tail := Some m\<rparr>) matches (Some m) (qh_next h m) (K @ [m]) M R"
      using Cons.prems p by (auto simp: filtering_def seg_app)
    from Cons.IH [OF this] show ?thesis using False by (simp add: p ml_filter_loop.simps [of f h ml])
  qed
qed

lemma filter_ok:
  assumes ok: "ml_ok h ml xs"
  shows "\<exists>h' ml' p. ml_filter f h ml = Some (h', ml', p) \<and> ml_ok h' ml' (filter (\<lambda>m. \<not> f m) xs) \<and>
    seg (qh_next h') p (filter f xs) None \<and> qh_freed h' = qh_freed h"
proof -
  have "filtering h ml ml_init None (ml_head ml) [] [] xs" using ok by (simp add: filtering_def ml_ok_def ml_init_def)
  from filter_loop_ok [OF this, of f] obtain h' ml' matches mp' where
    l: "ml_filter_loop f h ml ml_init None (ml_head ml) = Some (h', ml', matches)" "qh_freed h' = qh_freed h" "ml_len ml' = ml_len ml"
    and i: "filtering h' ml' matches mp' None (filter (\<lambda>m. \<not> f m) xs) (filter f xs) []" by auto
  have "length xs = length (filter f xs) + length (filter (\<lambda>m. \<not> f m) xs)" by (simp add: sum_length_filter_compl)
  then have "ml_len ml' - ml_len matches = word_of_nat (length (filter (\<lambda>m. \<not> f m) xs))" "length (filter (\<lambda>m. \<not> f m) xs) < 2 ^ 32"
    using l(3) ok i by (auto simp: ml_ok_def filtering_def)
  then show ?thesis using l i by (auto simp: ml_filter_def ml_ok_def filtering_def Let_def dest: seg_head)
qed

lemma drop_loop_ok:
  "ml_ok h ml xs \<Longrightarrow> \<exists>h' ml'. mq_drop_loop h ml = Some (h', ml') \<and> ml_ok h' ml' [] \<and> qh_freed h' = rev xs @ qh_freed h \<and>
     (\<forall>x. x \<notin> set xs \<longrightarrow> qh_next h' x = qh_next h x)"
proof (induction xs arbitrary: h ml)
  case Nil
  then show ?case using dequeue_empty [OF Nil] by (simp add: mq_drop_loop.simps)
next
  case (Cons x xs)
  from dequeue_ok [OF Cons.prems] obtain h1 ml1 where
    d: "ml_dequeue h ml = (h1, ml1, Some x)" "ml_ok h1 ml1 xs" "qh_next h1 = (qh_next h)(x := None)" "qh_freed h1 = qh_freed h" by blast
  have "ml_ok (q_freem h1 x) ml1 xs" using d(2) by (simp add: ml_ok_def q_freem_def)
  from Cons.IH [OF this] show ?case using d by (auto simp: mq_drop_loop.simps [of h] q_freem_def)
qed

subsection \<open>A queue as a bounded list\<close>

text \<open>
  The calls on a queue.  The specification works on the list of packets in the queue and gives
  the list afterwards, the packets handed out and the packets freed.
\<close>

datatype mqop = Enqueue nat | Dequeue | Enlist "nat list" | Delist | Dechain | Filter "nat \<Rightarrow> bool"

fun mq_spec :: "nat \<Rightarrow> nat list \<Rightarrow> mqop \<Rightarrow> nat list \<times> nat list \<times> nat list" where
  "mq_spec maxlen xs (Enqueue m) = (if length xs < maxlen then (xs @ [m], [], []) else (xs, [], [m]))"
| "mq_spec maxlen xs Dequeue = (tl xs, take 1 xs, [])"
| "mq_spec maxlen xs (Enlist ys) = (if length xs < maxlen then (xs @ ys, [], []) else (xs, [], ys))"
| "mq_spec maxlen xs Delist = ([], xs, [])"
| "mq_spec maxlen xs Dechain = ([], xs, [])"
| "mq_spec maxlen xs (Filter f) = (filter (\<lambda>m. \<not> f m) xs, filter f xs, [])"

text \<open>The calls of the code; \<open>ml\<close> is the list given to \<^verbatim>\<open>mq_enlist\<close>.\<close>

fun mq_exec :: "qheap \<Rightarrow> mbuf_queue \<Rightarrow> mbuf_list \<Rightarrow> mqop \<Rightarrow> (qheap \<times> mbuf_queue \<times> nat option) option" where
  "mq_exec h mq ml (Enqueue m) = (let (h, mq, dropped) = mq_enqueue h mq m in Some (h, mq, None))"
| "mq_exec h mq ml Dequeue = Some (mq_dequeue h mq)"
| "mq_exec h mq ml (Enlist ys) = map_option (\<lambda>(h, mq, ml, dropped). (h, mq, None)) (mq_enlist h mq ml)"
| "mq_exec h mq ml Delist = (let (mq, ml) = mq_delist mq in Some (h, mq, ml_head ml))"
| "mq_exec h mq ml Dechain = (let (mq, m) = mq_dechain mq in Some (h, mq, m))"
| "mq_exec h mq ml (Filter f) = mq_filter f h mq"

text \<open>The packets a call brings in are not in the queue, and the length stays in its type.\<close>

fun mqop_in :: "mqop \<Rightarrow> nat list" where
  "mqop_in (Enqueue m) = [m]"
| "mqop_in (Enlist ys) = ys"
| "mqop_in _ = []"

definition mqop_ok :: "qheap \<Rightarrow> mbuf_list \<Rightarrow> nat list \<Rightarrow> mqop \<Rightarrow> bool" where
  "mqop_ok h ml xs op \<longleftrightarrow> set xs \<inter> set (mqop_in op) = {} \<and> length xs + length (mqop_in op) < 2 ^ 32 \<and>
     (\<forall>ys. op = Enlist ys \<longrightarrow> ml_ok h ml ys)"

text \<open>The outcome of a call agrees with the specification.\<close>

definition mq_agrees :: "qheap \<Rightarrow> mbuf_queue \<Rightarrow> nat list \<times> nat list \<times> nat list \<Rightarrow> qheap \<Rightarrow> mbuf_queue \<Rightarrow> nat option \<Rightarrow> bool" where
  "mq_agrees h mq = (\<lambda>(xs', out, freed) h' mq' p.
     ml_ok h' (mq_list mq') xs' \<and> seg (qh_next h') p out None \<and> qh_freed h' = rev freed @ qh_freed h \<and>
     mq_maxlen mq' = mq_maxlen mq \<and> mq_drops mq' = mq_drops mq + word_of_nat (length freed))"

lemma mq_len_less: "ml_ok h (mq_list mq) xs \<Longrightarrow> mq_len mq < mq_maxlen mq \<longleftrightarrow> length xs < unat (mq_maxlen mq)"
  by (simp add: mq_len_def ml_ok_def word_less_nat_alt unat_of_nat)

lemma enqueue_agrees:
  assumes ok: "ml_ok h (mq_list mq) xs" and op: "mqop_ok h ml xs (Enqueue m)"
  shows "\<exists>h' mq' p. mq_exec h mq ml (Enqueue m) = Some (h', mq', p) \<and> mq_agrees h mq (mq_spec (unat (mq_maxlen mq)) xs (Enqueue m)) h' mq' p"
proof -
  obtain h1 ml1 where e: "ml_enqueue h (mq_list mq) m = (h1, ml1)" by fastforce
  have m: "m \<notin> set xs" "Suc (length xs) < 2 ^ 32" using op by (simp_all add: mqop_ok_def)
  show ?thesis using ok e enqueue_ok [OF ok m e] mq_len_less [OF ok]
    by (auto simp: mq_enqueue_def mq_agrees_def q_freem_def ml_ok_def)
qed

lemma enlist_agrees:
  assumes ok: "ml_ok h (mq_list mq) xs" and op: "mqop_ok h ml xs (Enlist ys)"
  shows "\<exists>h' mq' p. mq_exec h mq ml (Enlist ys) = Some (h', mq', p) \<and> mq_agrees h mq (mq_spec (unat (mq_maxlen mq)) xs (Enlist ys)) h' mq' p"
proof -
  have ml: "ml_ok h ml ys" and d: "set xs \<inter> set ys = {}" "length xs + length ys < 2 ^ 32" using op by (simp_all add: mqop_ok_def)
  have len: "ml_len ml = word_of_nat (length ys)" using ml by (simp add: ml_ok_def)
  show ?thesis
  proof (cases "length xs < unat (mq_maxlen mq)")
    case True
    then show ?thesis using join_ok [OF ok ml d] mq_len_less [OF ok] by (auto simp: mq_enlist_def mq_agrees_def)
  next
    case False
    from drop_loop_ok [OF ml] obtain h' ml' where
      l: "mq_drop_loop h ml = Some (h', ml')" "qh_freed h' = rev ys @ qh_freed h" "\<forall>x. x \<notin> set ys \<longrightarrow> qh_next h' x = qh_next h x" by blast
    have "ml_ok h' (mq_list mq) xs" by (rule ml_ok_frame [OF ok]) (use l(3) d(1) in blast)
    then show ?thesis using False l ok len ml_empty_iff [OF ml] mq_len_less [OF ok]
      by (cases "ys = []") (auto simp: mq_enlist_def mq_agrees_def ml_empty_def Let_def)
  qed
qed

text \<open>
  C21 (mq_refines): every call on a packet queue, with its relinking of packets, does to the
  queue what the specification does to a list: first in, first out, at most the given length
  for single packets, a filter that keeps the order of both parts.  No packet gets lost or
  doubled: the packets before and those brought in are those in the queue afterwards, those
  handed out and those freed, and the drops are counted.
\<close>

theorem mq_refines:
  assumes "ml_ok h (mq_list mq) xs" "mqop_ok h ml xs op" "mq_spec (unat (mq_maxlen mq)) xs op = (xs', out, freed)"
  shows "(\<exists>h' mq' p. mq_exec h mq ml op = Some (h', mq', p) \<and>
      ml_ok h' (mq_list mq') xs' \<and> seg (qh_next h') p out None \<and> qh_freed h' = rev freed @ qh_freed h \<and>
      mq_maxlen mq' = mq_maxlen mq \<and> mq_drops mq' = mq_drops mq + word_of_nat (length freed)) \<and>
    mset xs + mset (mqop_in op) = mset xs' + mset out + mset freed"
proof
  have "\<exists>h' mq' p. mq_exec h mq ml op = Some (h', mq', p) \<and> mq_agrees h mq (mq_spec (unat (mq_maxlen mq)) xs op) h' mq' p"
  proof (cases op)
    case (Enqueue m)
    then show ?thesis using enqueue_agrees assms(1,2) by simp
  next
    case Dequeue
    then show ?thesis using assms(1) dequeue_empty [of h "mq_list mq"] dequeue_ok [of h "mq_list mq" "hd xs" "tl xs"]
      by (cases xs) (auto simp: mq_dequeue_def mq_agrees_def)
  next
    case (Enlist ys)
    then show ?thesis using enlist_agrees assms(1,2) by simp
  next
    case (Filter f)
    then show ?thesis using filter_ok [OF assms(1), of f] by (auto simp: mq_filter_def mq_agrees_def)
  qed (use assms(1) in \<open>auto simp: mq_delist_def mq_dechain_def ml_dechain_def mq_agrees_def ml_ok_def ml_init_def\<close>)
  then show "\<exists>h' mq' p. mq_exec h mq ml op = Some (h', mq', p) \<and>
      ml_ok h' (mq_list mq') xs' \<and> seg (qh_next h') p out None \<and> qh_freed h' = rev freed @ qh_freed h \<and>
      mq_maxlen mq' = mq_maxlen mq \<and> mq_drops mq' = mq_drops mq + word_of_nat (length freed)"
    using assms(3) by (simp add: mq_agrees_def)
  show "mset xs + mset (mqop_in op) = mset xs' + mset out + mset freed"
    using assms(3) by (cases op; cases xs) (auto split: if_splits simp: multiset_partition [symmetric])
qed

theorem mq_refines_witness:
  "\<exists>h' mq' p. mq_exec \<lparr>qh_next = (\<lambda>m. if m = 1 then Some 2 else if m = 2 then Some 3 else None), qh_freed = []\<rparr>
      \<lparr>mq_list = \<lparr>ml_head = Some 1, ml_tail = Some 3, ml_len = 3\<rparr>, mq_maxlen = 4, mq_drops = 0\<rparr> ml_init (Filter (\<lambda>m. m = 2)) = Some (h', mq', p) \<and>
    ml_ok h' (mq_list mq') [1, 3] \<and> seg (qh_next h') p [2] None"
  using mq_refines [of "\<lparr>qh_next = (\<lambda>m. if m = 1 then Some 2 else if m = 2 then Some 3 else None), qh_freed = []\<rparr>"
      "\<lparr>mq_list = \<lparr>ml_head = Some 1, ml_tail = Some 3, ml_len = 3\<rparr>, mq_maxlen = 4, mq_drops = 0\<rparr>" "[1, 2, 3]" ml_init "Filter (\<lambda>m. m = 2)" "[1, 3]" "[2]" "[]"]
  by (auto simp: ml_ok_def mqop_ok_def)

end
