(* ===== verification/Bpf.thy ===== *)
theory Bpf
  imports Mbuf_Chain
begin

text \<open>
  The packet filter machine, \<^verbatim>\<open>net/bpf_filter.c\<close>: the interpreter
  \<^verbatim>\<open>bpf_filter\<close>, its reads from mbuf chains, and the checker \<^verbatim>\<open>bpf_validate\<close> that
  decides which programs the kernel accepts from a user.  An access outside the program, the
  scratch memory or the packet, a division by zero and a read through a pointer of the wrong kind
  are the outcome \<open>Fault\<close>; shifts by 32 or more, which C leaves open, are a parameter.
\<close>

subsection \<open>Instructions\<close>

record bpf_insn =
  bi_code :: u16
  bi_jt :: u8
  bi_jf :: u8
  bi_k :: u32

abbreviation BPF_LD :: u16 where "BPF_LD \<equiv> 0x00"
abbreviation BPF_LDX :: u16 where "BPF_LDX \<equiv> 0x01"
abbreviation BPF_ST :: u16 where "BPF_ST \<equiv> 0x02"
abbreviation BPF_STX :: u16 where "BPF_STX \<equiv> 0x03"
abbreviation BPF_ALU :: u16 where "BPF_ALU \<equiv> 0x04"
abbreviation BPF_JMP :: u16 where "BPF_JMP \<equiv> 0x05"
abbreviation BPF_RET :: u16 where "BPF_RET \<equiv> 0x06"
abbreviation BPF_MISC :: u16 where "BPF_MISC \<equiv> 0x07"
abbreviation BPF_W :: u16 where "BPF_W \<equiv> 0x00"
abbreviation BPF_H :: u16 where "BPF_H \<equiv> 0x08"
abbreviation BPF_B :: u16 where "BPF_B \<equiv> 0x10"
abbreviation BPF_IMM :: u16 where "BPF_IMM \<equiv> 0x00"
abbreviation BPF_ABS :: u16 where "BPF_ABS \<equiv> 0x20"
abbreviation BPF_IND :: u16 where "BPF_IND \<equiv> 0x40"
abbreviation BPF_MEM :: u16 where "BPF_MEM \<equiv> 0x60"
abbreviation BPF_LEN :: u16 where "BPF_LEN \<equiv> 0x80"
abbreviation BPF_MSH :: u16 where "BPF_MSH \<equiv> 0xa0"
abbreviation BPF_ADD :: u16 where "BPF_ADD \<equiv> 0x00"
abbreviation BPF_SUB :: u16 where "BPF_SUB \<equiv> 0x10"
abbreviation BPF_MUL :: u16 where "BPF_MUL \<equiv> 0x20"
abbreviation BPF_DIV :: u16 where "BPF_DIV \<equiv> 0x30"
abbreviation BPF_OR :: u16 where "BPF_OR \<equiv> 0x40"
abbreviation BPF_AND :: u16 where "BPF_AND \<equiv> 0x50"
abbreviation BPF_LSH :: u16 where "BPF_LSH \<equiv> 0x60"
abbreviation BPF_RSH :: u16 where "BPF_RSH \<equiv> 0x70"
abbreviation BPF_NEG :: u16 where "BPF_NEG \<equiv> 0x80"
abbreviation BPF_JA :: u16 where "BPF_JA \<equiv> 0x00"
abbreviation BPF_JEQ :: u16 where "BPF_JEQ \<equiv> 0x10"
abbreviation BPF_JGT :: u16 where "BPF_JGT \<equiv> 0x20"
abbreviation BPF_JGE :: u16 where "BPF_JGE \<equiv> 0x30"
abbreviation BPF_JSET :: u16 where "BPF_JSET \<equiv> 0x40"
abbreviation BPF_K :: u16 where "BPF_K \<equiv> 0x00"
abbreviation BPF_X :: u16 where "BPF_X \<equiv> 0x08"
abbreviation BPF_A :: u16 where "BPF_A \<equiv> 0x10"
abbreviation BPF_TAX :: u16 where "BPF_TAX \<equiv> 0x00"
abbreviation BPF_TXA :: u16 where "BPF_TXA \<equiv> 0x80"

definition BPF_CLASS :: "u16 \<Rightarrow> u16" where "BPF_CLASS code = code AND 0x07"
definition BPF_MODE :: "u16 \<Rightarrow> u16" where "BPF_MODE code = code AND 0xe0"
definition BPF_OP :: "u16 \<Rightarrow> u16" where "BPF_OP code = code AND 0xf0"
definition BPF_SRC :: "u16 \<Rightarrow> u16" where "BPF_SRC code = code AND 0x08"

definition BPF_MEMWORDS :: nat where "BPF_MEMWORDS = 16"
definition BPF_MAXINSNS :: nat where "BPF_MAXINSNS = 512"

subsection \<open>Reading the packet\<close>

text \<open>
  The argument \<open>p\<close> of the interpreter points to contiguous bytes or, when the buffer length
  is zero, to an mbuf chain.  A read gives a value, finds the packet too short (the filter then
  rejects it), or leaves the memory it may touch.
\<close>

datatype packet = Contig "u8 list" | Chain mstore "mbuf list"

datatype fetch = Got u32 | Short | Bad

definition EXTRACT_SHORT :: "u8 \<Rightarrow> u8 \<Rightarrow> u32" where
  "EXTRACT_SHORT a b = push_bit 8 (ucast a) OR ucast b"

definition EXTRACT_LONG :: "u8 \<Rightarrow> u8 \<Rightarrow> u8 \<Rightarrow> u8 \<Rightarrow> u32" where
  "EXTRACT_LONG a b c d = push_bit 24 (ucast a) OR push_bit 16 (ucast b) OR push_bit 8 (ucast c) OR ucast d"

text \<open>\<^verbatim>\<open>MINDEX\<close>: the mbuf that holds byte \<open>k\<close>, the offset in it and the mbufs after it.\<close>

fun MINDEX :: "mbuf list \<Rightarrow> u32 \<Rightarrow> (mbuf \<times> u32 \<times> mbuf list) option" where
  "MINDEX [] k = None"
| "MINDEX (m # ms) k =
     (if k \<ge> word_of_nat (m_len m) then MINDEX ms (k - word_of_nat (m_len m)) else Some (m, k, ms))"

text \<open>A byte of an mbuf's buffer, \<open>i\<close> bytes behind the data pointer.\<close>

definition m_byte :: "mstore \<Rightarrow> mbuf \<Rightarrow> nat \<Rightarrow> u8 option" where
  "m_byte st m i = (if m_data m + i < length (m_buf st m) then Some (m_buf st m ! (m_data m + i)) else None)"

definition fetch1 :: "u8 option \<Rightarrow> fetch" where
  "fetch1 a = (case a of Some a \<Rightarrow> Got (ucast a) | None \<Rightarrow> Bad)"

definition fetch2 :: "u8 option \<Rightarrow> u8 option \<Rightarrow> fetch" where
  "fetch2 a b = (case (a, b) of (Some a, Some b) \<Rightarrow> Got (EXTRACT_SHORT a b) | _ \<Rightarrow> Bad)"

definition fetch4 :: "u8 option \<Rightarrow> u8 option \<Rightarrow> u8 option \<Rightarrow> u8 option \<Rightarrow> fetch" where
  "fetch4 a b c d =
     (case (a, b, c, d) of (Some a, Some b, Some c, Some d) \<Rightarrow> Got (EXTRACT_LONG a b c d) | _ \<Rightarrow> Bad)"

definition bpf_m_xword :: "mstore \<Rightarrow> mbuf list \<Rightarrow> u32 \<Rightarrow> fetch" where
  "bpf_m_xword st ms k0 =
     (case MINDEX ms k0 of
        None \<Rightarrow> Short
      | Some (m, k, next) \<Rightarrow>
          let len = word_of_nat (m_len m) :: u32; cp = (\<lambda>i. m_byte st m (unat k + i))
          in if len \<ge> k + 4 then fetch4 (cp 0) (cp 1) (cp 2) (cp 3)
             else case next of
                    [] \<Rightarrow> Short
                  | m0 # _ \<Rightarrow>
                      if word_of_nat (m_len m0) + len - k < 4 then Short
                      else
                        let np = m_byte st m0
                        in if len - k = 1 then fetch4 (cp 0) (np 0) (np 1) (np 2)
                           else if len - k = 2 then fetch4 (cp 0) (cp 1) (np 0) (np 1)
                           else fetch4 (cp 0) (cp 1) (cp 2) (np 0))"

definition bpf_m_xhalf :: "mstore \<Rightarrow> mbuf list \<Rightarrow> u32 \<Rightarrow> fetch" where
  "bpf_m_xhalf st ms k0 =
     (case MINDEX ms k0 of
        None \<Rightarrow> Short
      | Some (m, k, next) \<Rightarrow>
          let len = word_of_nat (m_len m) :: u32; cp = (\<lambda>i. m_byte st m (unat k + i))
          in if len \<ge> k + 2 then fetch2 (cp 0) (cp 1)
             else case next of
                    [] \<Rightarrow> Short
                  | m0 # _ \<Rightarrow> fetch2 (cp 0) (m_byte st m0 0))"

text \<open>The byte read of \<^verbatim>\<open>bpf_filter\<close>, which is written out there three times.\<close>

definition bpf_m_xbyte :: "mstore \<Rightarrow> mbuf list \<Rightarrow> u32 \<Rightarrow> fetch" where
  "bpf_m_xbyte st ms k0 =
     (case MINDEX ms k0 of None \<Rightarrow> Short | Some (m, k, next) \<Rightarrow> fetch1 (m_byte st m (unat k)))"

definition p_byte :: "u8 list \<Rightarrow> nat \<Rightarrow> u8 option" where
  "p_byte p i = (if i < length p then Some (p ! i) else None)"

definition bpf_word :: "packet \<Rightarrow> u32 \<Rightarrow> u32 \<Rightarrow> fetch" where
  "bpf_word p buflen k =
     (if k > buflen \<or> 4 > buflen - k then
        if buflen \<noteq> 0 then Short
        else case p of Contig _ \<Rightarrow> Bad | Chain st ms \<Rightarrow> bpf_m_xword st ms k
      else case p of
             Contig b \<Rightarrow> fetch4 (p_byte b (unat k)) (p_byte b (unat k + 1)) (p_byte b (unat k + 2)) (p_byte b (unat k + 3))
           | Chain _ _ \<Rightarrow> Bad)"

definition bpf_half :: "packet \<Rightarrow> u32 \<Rightarrow> u32 \<Rightarrow> fetch" where
  "bpf_half p buflen k =
     (if k > buflen \<or> 2 > buflen - k then
        if buflen \<noteq> 0 then Short
        else case p of Contig _ \<Rightarrow> Bad | Chain st ms \<Rightarrow> bpf_m_xhalf st ms k
      else case p of Contig b \<Rightarrow> fetch2 (p_byte b (unat k)) (p_byte b (unat k + 1)) | Chain _ _ \<Rightarrow> Bad)"

definition bpf_byte :: "packet \<Rightarrow> u32 \<Rightarrow> u32 \<Rightarrow> fetch" where
  "bpf_byte p buflen k =
     (if k \<ge> buflen then
        if buflen \<noteq> 0 then Short
        else case p of Contig _ \<Rightarrow> Bad | Chain st ms \<Rightarrow> bpf_m_xbyte st ms k
      else case p of Contig b \<Rightarrow> fetch1 (p_byte b (unat k)) | Chain _ _ \<Rightarrow> Bad)"

subsection \<open>The interpreter\<close>

record bpf_state =
  bs_pc :: nat
  bs_A :: u32
  bs_X :: u32
  bs_mem :: "u32 list"

datatype outcome = Running bpf_state | Ret u32 | Fault

definition next_pc :: "bpf_state \<Rightarrow> bpf_state" where
  "next_pc s = s\<lparr>bs_pc := bs_pc s + 1\<rparr>"

definition with_fetch :: "fetch \<Rightarrow> (u32 \<Rightarrow> bpf_state) \<Rightarrow> outcome" where
  "with_fetch v f = (case v of Got x \<Rightarrow> Running (f x) | Short \<Rightarrow> Ret 0 | Bad \<Rightarrow> Fault)"

text \<open>
  What the interpreter reads of the world: the packet by width and offset, its length on the
  wire, and what the machine does with shift counts of 32 and more.
\<close>

record bpf_env =
  en_word :: "u32 \<Rightarrow> fetch"
  en_half :: "u32 \<Rightarrow> fetch"
  en_byte :: "u32 \<Rightarrow> fetch"
  en_wirelen :: u32
  en_shl :: "u32 \<Rightarrow> u32 \<Rightarrow> u32"
  en_shr :: "u32 \<Rightarrow> u32 \<Rightarrow> u32"

definition shl :: "bpf_env \<Rightarrow> u32 \<Rightarrow> u32 \<Rightarrow> u32" where
  "shl e a n = (if n < 32 then push_bit (unat n) a else en_shl e a n)"

definition shr :: "bpf_env \<Rightarrow> u32 \<Rightarrow> u32 \<Rightarrow> u32" where
  "shr e a n = (if n < 32 then drop_bit (unat n) a else en_shr e a n)"

text \<open>Returns, loads and stores.\<close>

definition mem_get :: "bpf_state \<Rightarrow> u32 \<Rightarrow> fetch" where
  "mem_get s k = (if unat k < length (bs_mem s) then Got (bs_mem s ! unat k) else Bad)"

definition mem_put :: "bpf_state \<Rightarrow> u32 \<Rightarrow> u32 \<Rightarrow> outcome" where
  "mem_put s k v =
     (if unat k < length (bs_mem s) then Running (next_pc (s\<lparr>bs_mem := (bs_mem s)[unat k := v]\<rparr>)) else Fault)"

definition bpf_load :: "bpf_env \<Rightarrow> bpf_insn \<Rightarrow> bpf_state \<Rightarrow> outcome option" where
  "bpf_load e i s =
     (let c = bi_code i; k = bi_k i; A = bs_A s; X = bs_X s;
          setA = (\<lambda>v. next_pc (s\<lparr>bs_A := v\<rparr>)); setX = (\<lambda>v. next_pc (s\<lparr>bs_X := v\<rparr>))
      in if c = BPF_RET OR BPF_K then Some (Ret k)
         else if c = BPF_RET OR BPF_A then Some (Ret A)
         else if c = BPF_LD OR BPF_W OR BPF_ABS then Some (with_fetch (en_word e k) setA)
         else if c = BPF_LD OR BPF_H OR BPF_ABS then Some (with_fetch (en_half e k) setA)
         else if c = BPF_LD OR BPF_B OR BPF_ABS then Some (with_fetch (en_byte e k) setA)
         else if c = BPF_LD OR BPF_W OR BPF_LEN then Some (Running (setA (en_wirelen e)))
         else if c = BPF_LDX OR BPF_W OR BPF_LEN then Some (Running (setX (en_wirelen e)))
         else if c = BPF_LD OR BPF_W OR BPF_IND then Some (with_fetch (en_word e (X + k)) setA)
         else if c = BPF_LD OR BPF_H OR BPF_IND then Some (with_fetch (en_half e (X + k)) setA)
         else if c = BPF_LD OR BPF_B OR BPF_IND then Some (with_fetch (en_byte e (X + k)) setA)
         else if c = BPF_LDX OR BPF_MSH OR BPF_B then
           Some (with_fetch (en_byte e k) (\<lambda>v. setX (push_bit 2 (v AND 0xf))))
         else if c = BPF_LD OR BPF_IMM then Some (Running (setA k))
         else if c = BPF_LDX OR BPF_IMM then Some (Running (setX k))
         else if c = BPF_LD OR BPF_MEM then Some (with_fetch (mem_get s k) setA)
         else if c = BPF_LDX OR BPF_MEM then Some (with_fetch (mem_get s k) setX)
         else if c = BPF_ST then Some (mem_put s k A)
         else if c = BPF_STX then Some (mem_put s k X)
         else None)"

text \<open>Jumps: the offset is added to the address of the next instruction.\<close>

definition jump :: "bpf_state \<Rightarrow> nat \<Rightarrow> outcome" where
  "jump s d = Running (s\<lparr>bs_pc := bs_pc s + 1 + d\<rparr>)"

definition bpf_jump :: "bpf_insn \<Rightarrow> bpf_state \<Rightarrow> outcome option" where
  "bpf_jump i s =
     (let c = bi_code i; k = bi_k i; A = bs_A s; X = bs_X s;
          branch = (\<lambda>b. Some (jump s (unat (if b then bi_jt i else bi_jf i))))
      in if c = BPF_JMP OR BPF_JA then Some (jump s (unat k))
         else if c = BPF_JMP OR BPF_JGT OR BPF_K then branch (A > k)
         else if c = BPF_JMP OR BPF_JGE OR BPF_K then branch (A \<ge> k)
         else if c = BPF_JMP OR BPF_JEQ OR BPF_K then branch (A = k)
         else if c = BPF_JMP OR BPF_JSET OR BPF_K then branch (A AND k \<noteq> 0)
         else if c = BPF_JMP OR BPF_JGT OR BPF_X then branch (A > X)
         else if c = BPF_JMP OR BPF_JGE OR BPF_X then branch (A \<ge> X)
         else if c = BPF_JMP OR BPF_JEQ OR BPF_X then branch (A = X)
         else if c = BPF_JMP OR BPF_JSET OR BPF_X then branch (A AND X \<noteq> 0)
         else None)"

text \<open>Arithmetic.  Division by \<open>X\<close> is checked when it runs, division by a constant is not.\<close>

definition bpf_alu :: "bpf_env \<Rightarrow> bpf_insn \<Rightarrow> bpf_state \<Rightarrow> outcome option" where
  "bpf_alu e i s =
     (let c = bi_code i; k = bi_k i; A = bs_A s; X = bs_X s;
          setA = (\<lambda>v. Some (Running (next_pc (s\<lparr>bs_A := v\<rparr>))))
      in if c = BPF_ALU OR BPF_ADD OR BPF_X then setA (A + X)
         else if c = BPF_ALU OR BPF_SUB OR BPF_X then setA (A - X)
         else if c = BPF_ALU OR BPF_MUL OR BPF_X then setA (A * X)
         else if c = BPF_ALU OR BPF_DIV OR BPF_X then (if X = 0 then Some (Ret 0) else setA (A div X))
         else if c = BPF_ALU OR BPF_AND OR BPF_X then setA (A AND X)
         else if c = BPF_ALU OR BPF_OR OR BPF_X then setA (A OR X)
         else if c = BPF_ALU OR BPF_LSH OR BPF_X then setA (shl e A X)
         else if c = BPF_ALU OR BPF_RSH OR BPF_X then setA (shr e A X)
         else if c = BPF_ALU OR BPF_ADD OR BPF_K then setA (A + k)
         else if c = BPF_ALU OR BPF_SUB OR BPF_K then setA (A - k)
         else if c = BPF_ALU OR BPF_MUL OR BPF_K then setA (A * k)
         else if c = BPF_ALU OR BPF_DIV OR BPF_K then (if k = 0 then Some Fault else setA (A div k))
         else if c = BPF_ALU OR BPF_AND OR BPF_K then setA (A AND k)
         else if c = BPF_ALU OR BPF_OR OR BPF_K then setA (A OR k)
         else if c = BPF_ALU OR BPF_LSH OR BPF_K then setA (shl e A k)
         else if c = BPF_ALU OR BPF_RSH OR BPF_K then setA (shr e A k)
         else if c = BPF_ALU OR BPF_NEG then setA (- A)
         else if c = BPF_MISC OR BPF_TAX then Some (Running (next_pc (s\<lparr>bs_X := A\<rparr>)))
         else if c = BPF_MISC OR BPF_TXA then setA X
         else None)"

definition bpf_step :: "bpf_env \<Rightarrow> bpf_insn list \<Rightarrow> bpf_state \<Rightarrow> outcome" where
  "bpf_step e prog s =
     (if bs_pc s \<ge> length prog then Fault
      else
        let i = prog ! bs_pc s
        in case bpf_load e i s of
             Some r \<Rightarrow> r
           | None \<Rightarrow>
               (case bpf_jump i s of
                  Some r \<Rightarrow> r
                | None \<Rightarrow> (case bpf_alu e i s of Some r \<Rightarrow> r | None \<Rightarrow> Ret 0)))"

partial_function (option) bpf_run :: "bpf_env \<Rightarrow> bpf_insn list \<Rightarrow> bpf_state \<Rightarrow> outcome option" where
  "bpf_run e prog s =
     (case bpf_step e prog s of Running s' \<Rightarrow> bpf_run e prog s' | r \<Rightarrow> Some r)"

definition bpf_env_of :: "packet \<Rightarrow> u32 \<Rightarrow> u32 \<Rightarrow> (u32 \<Rightarrow> u32 \<Rightarrow> u32) \<Rightarrow> (u32 \<Rightarrow> u32 \<Rightarrow> u32) \<Rightarrow> bpf_env" where
  "bpf_env_of p wirelen buflen ubl ubr =
     \<lparr>en_word = bpf_word p buflen, en_half = bpf_half p buflen, en_byte = bpf_byte p buflen,
      en_wirelen = wirelen, en_shl = ubl, en_shr = ubr\<rparr>"

definition bpf_filter :: "bpf_insn list option \<Rightarrow> packet \<Rightarrow> u32 \<Rightarrow> u32
    \<Rightarrow> (u32 \<Rightarrow> u32 \<Rightarrow> u32) \<Rightarrow> (u32 \<Rightarrow> u32 \<Rightarrow> u32) \<Rightarrow> outcome option" where
  "bpf_filter prog p wirelen buflen ubl ubr =
     (case prog of
        None \<Rightarrow> Some (Ret (- 1))
      | Some f \<Rightarrow>
          bpf_run (bpf_env_of p wirelen buflen ubl ubr) f
            \<lparr>bs_pc = 0, bs_A = 0, bs_X = 0, bs_mem = replicate BPF_MEMWORDS 0\<rparr>)"

subsection \<open>The checker\<close>

text \<open>
  The checks on instruction \<open>i\<close> of \<open>len\<close>.  The target of a jump is computed in 32 bits.
  \<open>maxbuf\<close> is the variable \<^verbatim>\<open>bpf_maxbufsize\<close>, which a system call can set.
\<close>

definition check_load :: "u32 \<Rightarrow> bpf_insn \<Rightarrow> bool" where
  "check_load maxbuf p =
     (let mode = BPF_MODE (bi_code p)
      in if mode = BPF_IMM then True
         else if mode = BPF_ABS \<or> mode = BPF_IND \<or> mode = BPF_MSH then bi_k p < maxbuf
         else if mode = BPF_MEM then bi_k p < word_of_nat BPF_MEMWORDS
         else mode = BPF_LEN)"

definition check_alu :: "bpf_insn \<Rightarrow> bool" where
  "check_alu p =
     (let op = BPF_OP (bi_code p)
      in if op \<in> {BPF_ADD, BPF_SUB, BPF_MUL, BPF_OR, BPF_AND, BPF_LSH, BPF_RSH, BPF_NEG} then True
         else if op = BPF_DIV then \<not> (BPF_SRC (bi_code p) = BPF_K \<and> bi_k p = 0)
         else False)"

definition check_jump :: "u32 \<Rightarrow> u32 \<Rightarrow> bpf_insn \<Rightarrow> bool" where
  "check_jump len i p =
     (let from' = i + 1; op = BPF_OP (bi_code p)
      in if op = BPF_JA then \<not> (from' + bi_k p < from' \<or> from' + bi_k p \<ge> len)
         else if op \<in> {BPF_JEQ, BPF_JGT, BPF_JGE, BPF_JSET} then
           \<not> (from' + ucast (bi_jt p) \<ge> len \<or> from' + ucast (bi_jf p) \<ge> len)
         else False)"

definition check_insn :: "u32 \<Rightarrow> u32 \<Rightarrow> u32 \<Rightarrow> bpf_insn \<Rightarrow> bool" where
  "check_insn maxbuf len i p =
     (let class' = BPF_CLASS (bi_code p)
      in if class' = BPF_LD \<or> class' = BPF_LDX then check_load maxbuf p
         else if class' = BPF_ST \<or> class' = BPF_STX then bi_k p < word_of_nat BPF_MEMWORDS
         else if class' = BPF_ALU then check_alu p
         else if class' = BPF_JMP then check_jump len i p
         else class' = BPF_RET \<or> class' = BPF_MISC)"

definition bpf_validate :: "u32 \<Rightarrow> bpf_insn list \<Rightarrow> bool" where
  "bpf_validate maxbuf f =
     (if length f < 1 \<or> length f > BPF_MAXINSNS then False
      else list_all (\<lambda>i. check_insn maxbuf (word_of_nat (length f)) (word_of_nat i) (f ! i)) [0..<length f]
           \<and> BPF_CLASS (bi_code (f ! (length f - 1))) = BPF_RET)"

subsection \<open>A checked program runs to a result\<close>

lemma bpf_validateD:
  assumes "bpf_validate maxbuf f" "i < length f"
  shows "check_insn maxbuf (word_of_nat (length f)) (word_of_nat i) (f ! i)" "length f \<le> 512"
    "Suc i < length f \<or> BPF_CLASS (bi_code (f ! i)) = BPF_RET"
proof -
  show "check_insn maxbuf (word_of_nat (length f)) (word_of_nat i) (f ! i)" "length f \<le> 512"
    using assms by (auto simp: bpf_validate_def list_all_iff BPF_MAXINSNS_def split: if_splits)
  show "Suc i < length f \<or> BPF_CLASS (bi_code (f ! i)) = BPF_RET"
  proof (cases "Suc i < length f")
    case False
    then have "i = length f - 1" using assms(2) by simp
    then show ?thesis using assms(1) by (simp add: bpf_validate_def split: if_splits)
  qed simp
qed

text \<open>The jump targets the checker computes in 32 bits are the ones the interpreter reaches.\<close>

lemma jump_target:
  assumes "i < n" "n \<le> 512" "word_of_nat i + 1 + k < (word_of_nat n :: u32)" "\<not> word_of_nat i + 1 + k < (word_of_nat i + 1 :: u32)"
  shows "i + 1 + unat k < n"
proof -
  have n: "unat (word_of_nat n :: u32) = n" and i: "unat (word_of_nat i + 1 :: u32) = i + 1"
    using assms(1,2) by (simp_all add: unat_of_nat unat_word_ariths)
  have "unat (word_of_nat i + 1 + k) = i + 1 + unat k"
    using assms(4) unat_plus_simple [of "word_of_nat i + 1 :: u32" k] i by (simp add: not_less)
  then show ?thesis using assms(3) n by (simp add: word_less_nat_alt)
qed

lemma jump_target_byte:
  assumes "i < n" "n \<le> 512" "word_of_nat i + 1 + ucast (j :: u8) < (word_of_nat n :: u32)"
  shows "i + 1 + unat j < n"
proof -
  have l: "unat j < 256" by (rule order_less_le_trans [OF unsigned_less]) simp
  then have j: "unat (ucast j :: u32) = unat j" by (simp add: unsigned_ucast_eq take_bit_nat_eq_self)
  have "unat (word_of_nat i + 1 :: u32) = i + 1" using assms(1,2) by (simp add: unat_of_nat unat_word_ariths)
  then have "unat (word_of_nat i + 1 + ucast j :: u32) = i + 1 + unat j"
    using j l assms(1,2) by (simp add: unat_word_ariths)
  then show ?thesis using assms by (simp add: word_less_nat_alt unat_of_nat)
qed

text \<open>
  A state the interpreter can be in: inside the program, all scratch words there.  A good
  environment never makes a read leave the packet.
\<close>

definition bpf_ok :: "bpf_insn list \<Rightarrow> bpf_state \<Rightarrow> bool" where
  "bpf_ok prog s \<longleftrightarrow> bs_pc s < length prog \<and> length (bs_mem s) = BPF_MEMWORDS"

definition env_ok :: "bpf_env \<Rightarrow> bool" where
  "env_ok e \<longleftrightarrow> (\<forall>k. en_word e k \<noteq> Bad \<and> en_half e k \<noteq> Bad \<and> en_byte e k \<noteq> Bad)"

text \<open>What a step of a checked program may do: go on further down in the program, or return.\<close>

definition safe_step :: "bpf_insn list \<Rightarrow> bpf_state \<Rightarrow> outcome \<Rightarrow> bool" where
  "safe_step prog s r \<longleftrightarrow>
     (case r of Running s' \<Rightarrow> bpf_ok prog s' \<and> bs_pc s < bs_pc s' | Ret _ \<Rightarrow> True | Fault \<Rightarrow> False)"

lemma safe_next:
  "Suc (bs_pc s) < length prog \<Longrightarrow> length (bs_mem s') = BPF_MEMWORDS \<Longrightarrow> bs_pc s' = bs_pc s \<Longrightarrow>
   safe_step prog s (Running (next_pc s'))"
  by (simp add: safe_step_def bpf_ok_def next_pc_def)

lemma safe_fetch:
  "v \<noteq> Bad \<Longrightarrow> (\<And>x. safe_step prog s (Running (f x))) \<Longrightarrow> safe_step prog s (with_fetch v f)"
  by (cases v) (simp_all add: with_fetch_def, simp add: safe_step_def)

lemmas check_defs = check_insn_def check_load_def check_alu_def check_jump_def
  BPF_CLASS_def BPF_MODE_def BPF_OP_def BPF_SRC_def Let_def

lemma mem_bound: "k < word_of_nat BPF_MEMWORDS \<Longrightarrow> unat (k :: u32) < BPF_MEMWORDS"
  by (simp add: BPF_MEMWORDS_def word_less_nat_alt)

lemma load_safe:
  assumes c: "check_insn maxbuf n j i" and ok: "bpf_ok prog s" and e: "env_ok e"
    and np: "Suc (bs_pc s) < length prog \<or> BPF_CLASS (bi_code i) = BPF_RET"
    and r: "bpf_load e i s = Some r"
  shows "safe_step prog s r"
proof -
  have mem: "length (bs_mem s) = BPF_MEMWORDS" using ok by (simp add: bpf_ok_def)
  have ret: "safe_step prog s (Ret v)" for v by (simp add: safe_step_def)
  have go: "safe_step prog s (Running (next_pc (s\<lparr>bs_A := v\<rparr>)))" "safe_step prog s (Running (next_pc (s\<lparr>bs_X := v\<rparr>)))"
    "safe_step prog s (Running (next_pc (s\<lparr>bs_mem := (bs_mem s)[k := v]\<rparr>)))"
    if "BPF_CLASS (bi_code i) \<noteq> BPF_RET" for v k
    using np that mem by (simp_all add: safe_next)
  have ld: "safe_step prog s (with_fetch v (\<lambda>v. next_pc (s\<lparr>bs_A := f v\<rparr>)))"
    "safe_step prog s (with_fetch v (\<lambda>v. next_pc (s\<lparr>bs_X := f v\<rparr>)))"
    if "BPF_CLASS (bi_code i) \<noteq> BPF_RET" "v \<noteq> Bad" for v f
    using go(1,2) [OF that(1)] that(2) by (simp_all add: safe_fetch)
  have env: "en_word e k \<noteq> Bad" "en_half e k \<noteq> Bad" "en_byte e k \<noteq> Bad" for k using e by (simp_all add: env_ok_def)
  have mg: "mem_get s k \<noteq> Bad" if "k < word_of_nat BPF_MEMWORDS" for k
    using mem_bound [OF that] mem by (simp add: mem_get_def)
  have mp: "safe_step prog s (mem_put s k v)" if "k < word_of_nat BPF_MEMWORDS" "BPF_CLASS (bi_code i) \<noteq> BPF_RET" for k v
    using mem_bound [OF that(1)] mem go(3) [OF that(2)] by (simp add: mem_put_def)
  show ?thesis
    using r c
    by (simp only: bpf_load_def Let_def split: if_split_asm) (auto simp: check_defs ret go ld env mg mp)
qed

lemma jump_safe:
  assumes v: "bpf_validate maxbuf prog" and ok: "bpf_ok prog s" and i: "i = prog ! bs_pc s" and r: "bpf_jump i s = Some r"
  shows "safe_step prog s r"
proof -
  have pc: "bs_pc s < length prog" and mem: "length (bs_mem s) = BPF_MEMWORDS" using ok by (simp_all add: bpf_ok_def)
  note d = bpf_validateD [OF v pc, folded i]
  have to: "safe_step prog s (jump s k)" if "bs_pc s + 1 + k < length prog" for k
    using that mem by (simp add: safe_step_def jump_def bpf_ok_def)
  have ja: "safe_step prog s (jump s (unat k))"
    if "word_of_nat (bs_pc s) + 1 + k < (word_of_nat (length prog) :: u32)"
      "\<not> word_of_nat (bs_pc s) + 1 + k < (word_of_nat (bs_pc s) + 1 :: u32)" for k
    by (rule to, rule jump_target) (use that pc d in simp_all)
  have jc: "safe_step prog s (jump s (unat j))"
    if "word_of_nat (bs_pc s) + 1 + ucast (j :: u8) < (word_of_nat (length prog) :: u32)" for j
    using to jump_target_byte [OF pc d(2) that] by simp
  show ?thesis
    using r d(1)
    by (simp only: bpf_jump_def Let_def split: if_split_asm) (auto simp: check_defs not_le ja jc)
qed

lemma alu_safe:
  assumes c: "check_insn maxbuf n j i" and ok: "bpf_ok prog s"
    and np: "Suc (bs_pc s) < length prog \<or> BPF_CLASS (bi_code i) = BPF_RET"
    and r: "bpf_alu e i s = Some r"
  shows "safe_step prog s r"
proof -
  have mem: "length (bs_mem s) = BPF_MEMWORDS" using ok by (simp add: bpf_ok_def)
  have ret: "safe_step prog s (Ret v)" for v by (simp add: safe_step_def)
  have go: "safe_step prog s (Running (next_pc (s\<lparr>bs_A := v\<rparr>)))" "safe_step prog s (Running (next_pc (s\<lparr>bs_X := v\<rparr>)))"
    if "BPF_CLASS (bi_code i) \<noteq> BPF_RET" for v
    using np that mem by (simp_all add: safe_next)
  show ?thesis
    using r c by (simp only: bpf_alu_def Let_def split: if_split_asm) (auto simp: check_defs ret go)
qed

lemma step_safe:
  assumes v: "bpf_validate maxbuf prog" and ok: "bpf_ok prog s" and e: "env_ok e"
  shows "safe_step prog s (bpf_step e prog s)"
proof -
  have pc: "bs_pc s < length prog" using ok by (simp add: bpf_ok_def)
  note d = bpf_validateD [OF v pc]
  show ?thesis
    using pc load_safe [OF d(1) ok e d(3)] jump_safe [OF v ok refl] alu_safe [OF d(1) ok d(3), of e]
    by (simp add: bpf_step_def Let_def safe_step_def split: option.split)
qed

lemma run_returns:
  assumes v: "bpf_validate maxbuf prog" and e: "env_ok e"
  shows "bpf_ok prog s \<Longrightarrow> \<exists>r. bpf_run e prog s = Some (Ret r)"
proof (induction "length prog - bs_pc s" arbitrary: s rule: less_induct)
  case less
  note safe = step_safe [OF v less.prems e]
  show ?case
  proof (cases "bpf_step e prog s")
    case (Running s')
    then have "bpf_ok prog s'" "length prog - bs_pc s' < length prog - bs_pc s"
      using safe less.prems by (auto simp: safe_step_def bpf_ok_def)
    from less.hyps [OF this(2,1)] show ?thesis using Running by (simp add: bpf_run.simps [of e prog s])
  qed (use safe in \<open>simp_all add: bpf_run.simps [of e prog s] safe_step_def\<close>)
qed

end
