(* ===== verification/Bpf_Packet.thy ===== *)
theory Bpf_Packet
  imports Bpf
begin

text \<open>
  The packet as the filter sees it.  Reading from contiguous bytes and reading from an mbuf
  chain meet the same specification, so a filter gives the same verdict on both.
\<close>

subsection \<open>The specification of packet reads\<close>

definition ref_byte :: "u8 list \<Rightarrow> u32 \<Rightarrow> fetch" where
  "ref_byte b k = (if unat k < length b then Got (ucast (b ! unat k)) else Short)"

definition ref_half :: "u8 list \<Rightarrow> u32 \<Rightarrow> fetch" where
  "ref_half b k = (if unat k + 2 \<le> length b then Got (EXTRACT_SHORT (b ! unat k) (b ! (unat k + 1))) else Short)"

definition ref_word :: "u8 list \<Rightarrow> u32 \<Rightarrow> fetch" where
  "ref_word b k =
     (if unat k + 4 \<le> length b
      then Got (EXTRACT_LONG (b ! unat k) (b ! (unat k + 1)) (b ! (unat k + 2)) (b ! (unat k + 3))) else Short)"

text \<open>
  A kind of packet: what it holds, when it may be read, and the three reads.  The filter relies
  on nothing else of it.
\<close>

locale packet_source =
  fixes word :: "'p \<Rightarrow> u32 \<Rightarrow> fetch"
    and half :: "'p \<Rightarrow> u32 \<Rightarrow> fetch"
    and byte :: "'p \<Rightarrow> u32 \<Rightarrow> fetch"
    and bytes :: "'p \<Rightarrow> u8 list"
    and readable :: "'p \<Rightarrow> bool"
  assumes word_law: "readable p \<Longrightarrow> word p k = ref_word (bytes p) k"
    and half_law: "readable p \<Longrightarrow> half p k = ref_half (bytes p) k"
    and byte_law: "readable p \<Longrightarrow> byte p k = ref_byte (bytes p) k"
begin

lemma reads_ref: "readable p \<Longrightarrow> word p = ref_word (bytes p) \<and> half p = ref_half (bytes p) \<and> byte p = ref_byte (bytes p)"
  by (auto simp: word_law half_law byte_law)

lemma reads_in_bounds:
  "readable p \<Longrightarrow> word p k \<noteq> Bad \<and> half p k \<noteq> Bad \<and> byte p k \<noteq> Bad"
  by (simp add: word_law half_law byte_law ref_word_def ref_half_def ref_byte_def)

lemma env_readable:
  "readable p \<Longrightarrow> en_word e = word p \<Longrightarrow> en_half e = half p \<Longrightarrow> en_byte e = byte p \<Longrightarrow> env_ok e"
  by (simp add: env_ok_def reads_in_bounds)

end

subsection \<open>Contiguous packets\<close>

definition contig_ok :: "u8 list \<Rightarrow> bool" where
  "contig_ok b \<longleftrightarrow> 0 < length b \<and> length b < 2 ^ 32"

lemma buflen_facts:
  fixes b :: "u8 list" and k :: u32
  assumes "contig_ok b"
  defines "n \<equiv> word_of_nat (length b) :: u32"
  shows "unat n = length b" "n \<noteq> 0" "k \<le> n \<Longrightarrow> unat (n - k) = length b - unat k" "k \<le> n \<longleftrightarrow> unat k \<le> length b"
proof -
  show n: "unat n = length b" using assms(1) by (simp add: n_def contig_ok_def unat_of_nat)
  show "n \<noteq> 0" using n assms(1) by (auto simp: contig_ok_def)
  show "k \<le> n \<longleftrightarrow> unat k \<le> length b" by (simp add: word_le_nat_alt n)
  show "k \<le> n \<Longrightarrow> unat (n - k) = length b - unat k" by (simp add: unat_sub n)
qed

interpretation contig: packet_source
  "\<lambda>b. bpf_word (Contig b) (word_of_nat (length b))" "\<lambda>b. bpf_half (Contig b) (word_of_nat (length b))"
  "\<lambda>b. bpf_byte (Contig b) (word_of_nat (length b))" "\<lambda>b. b" contig_ok
proof
  fix b :: "u8 list" and k :: u32
  let ?n = "word_of_nat (length b) :: u32"
  assume ok: "contig_ok b"
  note f = buflen_facts [OF ok]
  have c: "(k > ?n \<or> d > ?n - k) \<longleftrightarrow> length b < unat k + unat d" for d
    using f(3,4) [of k] by (cases "k \<le> ?n") (auto simp: word_less_nat_alt not_le f(1))
  show "bpf_word (Contig b) ?n k = ref_word b k"
    using c [of 4] f(2) by (auto simp: bpf_word_def ref_word_def p_byte_def fetch4_def)
  show "bpf_half (Contig b) ?n k = ref_half b k"
    using c [of 2] f(2) by (auto simp: bpf_half_def ref_half_def p_byte_def fetch2_def)
  show "bpf_byte (Contig b) ?n k = ref_byte b k"
    using f(2) by (auto simp: bpf_byte_def ref_byte_def p_byte_def fetch1_def word_le_nat_alt f(1))
qed

subsection \<open>Packets in mbuf chains\<close>

text \<open>
  A word is read from two neighbouring mbufs at most.  So the mbufs between the first and the
  last must hold three bytes or more, and the last one must not be empty.
\<close>

fun dense_tail :: "mbuf list \<Rightarrow> bool" where
  "dense_tail [] = True"
| "dense_tail [m] = (0 < m_len m)"
| "dense_tail (m # ms) = (3 \<le> m_len m \<and> dense_tail ms)"

definition dense :: "mstore \<times> mbuf list \<Rightarrow> bool" where
  "dense = (\<lambda>(st, ms). ms \<noteq> [] \<and> wf_chain st ms \<and> chain_len ms < 2 ^ 31 \<and> dense_tail (tl ms))"

lemma dense_tail_suffix: "dense_tail (pre @ ms) \<Longrightarrow> dense_tail ms"
  by (induction pre rule: dense_tail.induct) (cases ms; auto)+

lemma MINDEX_Some:
  "chain_len ms < 2 ^ 32 \<Longrightarrow> MINDEX ms k = Some (m, k', rest) \<Longrightarrow>
   \<exists>pre. ms = pre @ m # rest \<and> unat k = chain_len pre + unat k' \<and> unat k' < m_len m"
proof (induction ms k rule: MINDEX.induct)
  case (2 m0 ms k)
  have u: "unat (word_of_nat (m_len m0) :: u32) = m_len m0" using "2.prems"(1) by (simp add: unat_of_nat)
  show ?case
  proof (cases "k \<ge> word_of_nat (m_len m0)")
    case True
    then have s: "unat (k - word_of_nat (m_len m0)) = unat k - m_len m0" "m_len m0 \<le> unat k"
      by (simp_all add: unat_sub u word_le_nat_alt)
    from True 2 obtain pre where "ms = pre @ m # rest" "unat (k - word_of_nat (m_len m0)) = chain_len pre + unat k'"
      "unat k' < m_len m" by auto
    then show ?thesis using s by (intro exI [of _ "m0 # pre"]) simp
  next
    case False
    then show ?thesis using "2.prems"(2) by (intro exI [of _ "[]"]) (auto simp: word_le_nat_alt u)
  qed
qed simp

lemma MINDEX_None: "chain_len ms < 2 ^ 32 \<Longrightarrow> MINDEX ms k = None \<longleftrightarrow> chain_len ms \<le> unat k"
proof (induction ms k rule: MINDEX.induct)
  case (2 m0 ms k)
  have u: "unat (word_of_nat (m_len m0) :: u32) = m_len m0" using "2.prems"(1) by (simp add: unat_of_nat)
  then show ?case using 2 by (auto simp: word_le_nat_alt unat_sub)
qed simp

lemma m_byte_in: "wf_mbuf st m \<Longrightarrow> i < m_len m \<Longrightarrow> m_byte st m i = Some (m_bytes st m ! i)"
  by (simp add: m_byte_def wf_mbuf_def m_bytes_def mem_read_def)

text \<open>What a read finds at a position inside the chain.\<close>

definition at_byte :: "mstore \<Rightarrow> mbuf list \<Rightarrow> u32 \<Rightarrow> mbuf \<Rightarrow> u32 \<Rightarrow> mbuf list \<Rightarrow> u8 list \<Rightarrow> bool" where
  "at_byte st ms k m k' rest bs \<longleftrightarrow>
     chain_bytes st ms = bs @ m_bytes st m @ chain_bytes st rest \<and> unat k = length bs + unat k' \<and> unat k' < m_len m \<and>
     wf_mbuf st m \<and> wf_chain st rest \<and> dense_tail rest \<and> m_len m + chain_len rest < 2 ^ 31"

lemma MINDEX_dense:
  assumes "dense (st, ms)" "MINDEX ms k = Some (m, k', rest)"
  shows "\<exists>bs. at_byte st ms k m k' rest bs"
proof -
  from assms(1) have ms: "ms \<noteq> []" and wf: "wf_chain st ms" and len: "chain_len ms < 2 ^ 31" and d: "dense_tail (tl ms)"
    by (simp_all add: dense_def)
  from MINDEX_Some [OF _ assms(2)] len obtain pre where pre: "ms = pre @ m # rest"
    "unat k = chain_len pre + unat k'" "unat k' < m_len m" by fastforce
  have "tl ms = tl (pre @ [m]) @ rest" using pre(1) by (cases pre) simp_all
  then have "dense_tail rest" using d dense_tail_suffix by metis
  then show ?thesis using pre wf len by (intro exI [of _ "chain_bytes st pre"]) (simp add: at_byte_def length_chain_bytes)
qed

lemma at_byte_first:
  assumes "at_byte st ms k m k' rest bs" "unat k' + j < m_len m"
  shows "m_byte st m (unat k' + j) = Some (chain_bytes st ms ! (unat k + j))"
  using assms by (simp add: at_byte_def m_byte_in nth_append)

lemma at_byte_second:
  assumes "at_byte st ms k m k' (m0 # rest) bs" "m_len m + j = unat k' + i" "j < m_len m0"
  shows "m_byte st m0 j = Some (chain_bytes st ms ! (unat k + i))"
proof -
  have i: "unat k + i = length bs + (m_len m + j)" using assms by (simp add: at_byte_def)
  have "(bs @ m_bytes st m @ m_bytes st m0 @ ys) ! (length bs + (m_len m + j)) = m_bytes st m0 ! j" for ys
    using assms(1,3) by (simp add: at_byte_def nth_append)
  then show ?thesis using assms(1,3) by (simp only: i) (simp add: at_byte_def m_byte_in)
qed

lemma dense_neighbour: "dense_tail (m # ms) \<Longrightarrow> 0 < m_len m \<and> (3 \<le> m_len m \<or> ms = [])"
  by (cases ms) auto

lemma at_byte_words:
  assumes "at_byte st ms k m k' rest bs"
  shows "unat (word_of_nat (m_len m) :: u32) = m_len m"
    "unat (word_of_nat (m_len m) - k' :: u32) = m_len m - unat k'"
    "unat d < 2 ^ 31 \<Longrightarrow> unat (k' + d) = unat k' + unat d"
    "rest = m0 # rs \<Longrightarrow> unat (word_of_nat (m_len m0) + word_of_nat (m_len m) - k' :: u32) = m_len m0 + m_len m - unat k'"
proof -
  from assms have b: "unat k' < m_len m" "m_len m + chain_len rest < 2 ^ 31" by (simp_all add: at_byte_def)
  show l: "unat (word_of_nat (m_len m) :: u32) = m_len m" using b by (simp add: unat_of_nat)
  show "unat (word_of_nat (m_len m) - k' :: u32) = m_len m - unat k'"
    using b l by (simp add: unat_sub word_le_nat_alt)
  show "unat d < 2 ^ 31 \<Longrightarrow> unat (k' + d) = unat k' + unat d" using b by (simp add: unat_word_ariths)
  assume r: "rest = m0 # rs"
  have s: "unat (word_of_nat (m_len m0) + word_of_nat (m_len m) :: u32) = m_len m0 + m_len m"
    using b r by (simp add: unat_word_ariths unat_of_nat)
  then show "unat (word_of_nat (m_len m0) + word_of_nat (m_len m) - k' :: u32) = m_len m0 + m_len m - unat k'"
    using b by (simp add: unat_sub word_le_nat_alt)
qed

lemma chain_total: "at_byte st ms k m k' rest bs \<Longrightarrow> length (chain_bytes st ms) = length bs + m_len m + chain_len rest"
  by (simp add: at_byte_def length_chain_bytes)

lemma chain_short: "dense (st, ms) \<Longrightarrow> MINDEX ms k = None \<Longrightarrow> length (chain_bytes st ms) \<le> unat k"
  using MINDEX_None [of ms k] by (simp add: dense_def length_chain_bytes)

lemma xbyte_law:
  assumes d: "dense (st, ms)" shows "bpf_m_xbyte st ms k = ref_byte (chain_bytes st ms) k"
proof (cases "MINDEX ms k")
  case None
  then show ?thesis using chain_short [OF d None] by (simp add: bpf_m_xbyte_def ref_byte_def)
next
  case (Some t)
  then obtain m k' rest where t: "MINDEX ms k = Some (m, k', rest)" by (cases t) auto
  from MINDEX_dense [OF d t] obtain bs where a: "at_byte st ms k m k' rest bs" ..
  show ?thesis using at_byte_first [OF a, of 0] chain_total [OF a] a t
    by (simp add: bpf_m_xbyte_def ref_byte_def fetch1_def at_byte_def)
qed


lemma xhalf_law:
  assumes d: "dense (st, ms)" shows "bpf_m_xhalf st ms k = ref_half (chain_bytes st ms) k"
proof (cases "MINDEX ms k")
  case None
  then show ?thesis using chain_short [OF d None] by (simp add: bpf_m_xhalf_def ref_half_def)
next
  case (Some t)
  then obtain m k' rest where t: "MINDEX ms k = Some (m, k', rest)" by (cases t) auto
  from MINDEX_dense [OF d t] obtain bs where a: "at_byte st ms k m k' rest bs" ..
  have k: "unat k = length bs + unat k'" "unat k' < m_len m" using a by (simp_all add: at_byte_def)
  have g: "(k' + 2 \<le> word_of_nat (m_len m)) = (unat k' + 2 \<le> m_len m)"
    by (simp add: word_le_nat_alt at_byte_words [OF a])
  note tot = chain_total [OF a]
  have c0: "m_byte st m (unat k') = Some (chain_bytes st ms ! unat k)" using at_byte_first [OF a, of 0] k by simp
  show ?thesis
  proof (cases "unat k' + 2 \<le> m_len m")
    case True
    then show ?thesis using at_byte_first [OF a, of 1] c0 k tot t
      by (simp add: bpf_m_xhalf_def ref_half_def fetch2_def g)
  next
    case False
    then have e: "m_len m = unat k' + 1" using k by simp
    show ?thesis
    proof (cases rest)
      case Nil
      then show ?thesis using False k tot t by (simp add: bpf_m_xhalf_def ref_half_def g)
    next
      case (Cons m0 rs)
      with a have "0 < m_len m0" using dense_neighbour by (auto simp: at_byte_def)
      then have "m_byte st m0 0 = Some (chain_bytes st ms ! (unat k + 1))" "unat k + 2 \<le> length (chain_bytes st ms)"
        using at_byte_second [OF a [unfolded Cons], of 0 1] k e tot Cons by simp_all
      then show ?thesis using False c0 t Cons by (simp add: bpf_m_xhalf_def ref_half_def fetch2_def g)
    qed
  qed
qed

text \<open>A word that starts in one mbuf and ends in the next.\<close>

lemma xword_straddle:
  assumes a: "at_byte st ms k m k' (m0 # rs) bs" and s: "m_len m < unat k' + 4"
    and t: "MINDEX ms k = Some (m, k', m0 # rs)"
  shows "bpf_m_xword st ms k = ref_word (chain_bytes st ms) k"
proof -
  let ?len = "word_of_nat (m_len m) :: u32"
  have k: "unat k = length bs + unat k'" "unat k' < m_len m" using a by (simp_all add: at_byte_def)
  have g: "(k' + 4 \<le> ?len) = (unat k' + 4 \<le> m_len m)" by (simp add: word_le_nat_alt at_byte_words [OF a])
  have sm: "(word_of_nat (m_len m0) + ?len - k' < 4) = (m_len m0 + m_len m - unat k' < 4)"
    by (simp add: word_less_nat_alt at_byte_words(4) [OF a refl])
  have w: "(?len - k' = 1) = (m_len m - unat k' = 1)" "(?len - k' = 2) = (m_len m - unat k' = 2)"
    by (simp_all add: word_unat_eq_iff at_byte_words(2) [OF a])
  have n: "3 \<le> m_len m0 \<or> rs = []" using a dense_neighbour by (auto simp: at_byte_def)
  have tot: "length (chain_bytes st ms) = length bs + m_len m + m_len m0 + chain_len rs"
    using chain_total [OF a] by simp
  have long: "(m_len m0 + m_len m - unat k' < 4) = (\<not> unat k + 4 \<le> length (chain_bytes st ms))"
    using n k tot s by auto
  note cp = at_byte_first [OF a] and np = at_byte_second [OF a]
  show ?thesis
  proof (cases "m_len m0 + m_len m - unat k' < 4")
    case True
    then show ?thesis using long s t by (simp add: bpf_m_xword_def ref_word_def g sm)
  next
    case False
    consider "m_len m = unat k' + 1" | "m_len m = unat k' + 2" | "m_len m = unat k' + 3" using k s by linarith
    then show ?thesis
    proof cases
      case 1
      then have "m_byte st m (unat k') = Some (chain_bytes st ms ! (unat k + 0))"
        "m_byte st m0 0 = Some (chain_bytes st ms ! (unat k + 1))"
        "m_byte st m0 1 = Some (chain_bytes st ms ! (unat k + 2))"
        "m_byte st m0 2 = Some (chain_bytes st ms ! (unat k + 3))"
        "m_len m - unat k' = 1"
        using False cp [of 0] np [of 0 1] np [of 1 2] np [of 2 3] by simp_all
      then show ?thesis using False s long t by (simp add: bpf_m_xword_def ref_word_def fetch4_def g sm w)
    next
      case 2
      then have "m_byte st m (unat k') = Some (chain_bytes st ms ! (unat k + 0))"
        "m_byte st m (unat k' + 1) = Some (chain_bytes st ms ! (unat k + 1))"
        "m_byte st m0 0 = Some (chain_bytes st ms ! (unat k + 2))"
        "m_byte st m0 1 = Some (chain_bytes st ms ! (unat k + 3))"
        "m_len m - unat k' = 2"
        using False cp [of 0] cp [of 1] np [of 0 2] np [of 1 3] by simp_all
      then show ?thesis using False s long t by (simp add: bpf_m_xword_def ref_word_def fetch4_def g sm w)
    next
      case 3
      then have "m_byte st m (unat k') = Some (chain_bytes st ms ! (unat k + 0))"
        "m_byte st m (unat k' + 1) = Some (chain_bytes st ms ! (unat k + 1))"
        "m_byte st m (unat k' + 2) = Some (chain_bytes st ms ! (unat k + 2))"
        "m_byte st m0 0 = Some (chain_bytes st ms ! (unat k + 3))"
        "m_len m - unat k' = 3"
        using False cp [of 0] cp [of 1] cp [of 2] np [of 0 3] by simp_all
      then show ?thesis using False s long t by (simp add: bpf_m_xword_def ref_word_def fetch4_def g sm w)
    qed
  qed
qed

lemma xword_law:
  assumes d: "dense (st, ms)" shows "bpf_m_xword st ms k = ref_word (chain_bytes st ms) k"
proof (cases "MINDEX ms k")
  case None
  then show ?thesis using chain_short [OF d None] by (simp add: bpf_m_xword_def ref_word_def)
next
  case (Some t)
  then obtain m k' rest where t: "MINDEX ms k = Some (m, k', rest)" by (cases t) auto
  from MINDEX_dense [OF d t] obtain bs where a: "at_byte st ms k m k' rest bs" ..
  have k: "unat k = length bs + unat k'" "unat k' < m_len m" using a by (simp_all add: at_byte_def)
  have g: "(k' + 4 \<le> word_of_nat (m_len m)) = (unat k' + 4 \<le> m_len m)"
    by (simp add: word_le_nat_alt at_byte_words [OF a])
  note tot = chain_total [OF a] and cp = at_byte_first [OF a]
  show ?thesis
  proof (cases "unat k' + 4 \<le> m_len m")
    case True
    then show ?thesis using cp [of 0] cp [of 1] cp [of 2] cp [of 3] k tot t
      by (simp add: bpf_m_xword_def ref_word_def fetch4_def g)
  next
    case False
    then show ?thesis
    proof (cases rest)
      case Nil
      then show ?thesis using False k tot t by (simp add: bpf_m_xword_def ref_word_def g)
    next
      case (Cons m0 rs)
      then show ?thesis using xword_straddle [OF a [unfolded Cons] _ t [unfolded Cons]] False by simp
    qed
  qed
qed

interpretation chain: packet_source
  "\<lambda>(st, ms). bpf_word (Chain st ms) 0" "\<lambda>(st, ms). bpf_half (Chain st ms) 0"
  "\<lambda>(st, ms). bpf_byte (Chain st ms) 0" "\<lambda>(st, ms). chain_bytes st ms" dense
proof
  fix p :: "mstore \<times> mbuf list" and k :: u32
  assume d: "dense p"
  obtain st ms where p: "p = (st, ms)" by (cases p)
  have z: "0 < k \<or> 4 > - k" "0 < k \<or> 2 > - k" by (cases "k = 0"; simp add: word_neq_0_conv)+
  show "(case p of (st, ms) \<Rightarrow> bpf_word (Chain st ms) 0) k = ref_word (case p of (st, ms) \<Rightarrow> chain_bytes st ms) k"
    using xword_law d z by (simp add: p bpf_word_def)
  show "(case p of (st, ms) \<Rightarrow> bpf_half (Chain st ms) 0) k = ref_half (case p of (st, ms) \<Rightarrow> chain_bytes st ms) k"
    using xhalf_law d z by (simp add: p bpf_half_def)
  show "(case p of (st, ms) \<Rightarrow> bpf_byte (Chain st ms) 0) k = ref_byte (case p of (st, ms) \<Rightarrow> chain_bytes st ms) k"
    using xbyte_law d by (simp add: p bpf_byte_def)
qed

end
