(* ===== verification/Bpf_Laws.thy ===== *)
theory Bpf_Laws
  imports Bpf_Packet Mbuf_Laws
begin

text \<open>
  The properties of the packet filter: what the checker guarantees of a run, that contiguous
  packets and mbuf chains are filtered alike, and the inputs the code does not guard against.
\<close>

declare bpf_run.simps [code]

text \<open>A packet and a buffer length that belong together.\<close>

fun readable :: "packet \<Rightarrow> u32 \<Rightarrow> bool" where
  "readable (Contig b) n = (contig_ok b \<and> n = word_of_nat (length b))"
| "readable (Chain st ms) n = (dense (st, ms) \<and> n = 0)"

lemma env_ok_readable: "readable p n \<Longrightarrow> env_ok (bpf_env_of p wl n ubl ubr)"
proof (cases p)
  case (Contig b)
  then show "readable p n \<Longrightarrow> ?thesis" using contig.env_readable [of b] by (simp add: bpf_env_of_def)
next
  case (Chain st ms)
  then show "readable p n \<Longrightarrow> ?thesis" using chain.env_readable [of "(st, ms)"] by (simp add: bpf_env_of_def)
qed

definition bpf_start :: bpf_state where
  "bpf_start = \<lparr>bs_pc = 0, bs_A = 0, bs_X = 0, bs_mem = replicate BPF_MEMWORDS 0\<rparr>"

lemma bpf_filter_run: "bpf_filter (Some f) p wl n ubl ubr = bpf_run (bpf_env_of p wl n ubl ubr) f bpf_start"
  by (simp add: bpf_filter_def bpf_start_def)

lemma bpf_ok_start: "bpf_validate maxbuf f \<Longrightarrow> bpf_ok f bpf_start"
  by (auto simp: bpf_ok_def bpf_start_def bpf_validate_def split: if_splits)

text \<open>The states a run goes through, with the number of steps taken.\<close>

inductive bpf_reach :: "bpf_env \<Rightarrow> bpf_insn list \<Rightarrow> nat \<Rightarrow> bpf_state \<Rightarrow> bool" for e prog where
  start: "bpf_reach e prog 0 bpf_start"
| step: "bpf_reach e prog n s \<Longrightarrow> bpf_step e prog s = Running s' \<Longrightarrow> bpf_reach e prog (Suc n) s'"

text \<open>A filter that looks for the Ethernet type of IP and accepts 96 bytes then.\<close>

definition ip_filter :: "bpf_insn list" where
  "ip_filter =
     [\<lparr>bi_code = BPF_LD OR BPF_H OR BPF_ABS, bi_jt = 0, bi_jf = 0, bi_k = 12\<rparr>,
      \<lparr>bi_code = BPF_JMP OR BPF_JEQ OR BPF_K, bi_jt = 0, bi_jf = 1, bi_k = 0x800\<rparr>,
      \<lparr>bi_code = BPF_RET OR BPF_K, bi_jt = 0, bi_jf = 0, bi_k = 96\<rparr>,
      \<lparr>bi_code = BPF_RET OR BPF_K, bi_jt = 0, bi_jf = 0, bi_k = 0\<rparr>]"

lemma ip_filter_valid: "bpf_validate 32768 ip_filter"
  by code_simp

lemma dense_sample: "dense (sample_store 0, [data_mbuf (replicate 12 1 @ [8]), data_mbuf [0, 1]])"
  by (simp add: dense_def sample_simps)



text \<open>
  C33 (filter_run_bounded): every state a checked program goes through has its program counter
  inside the program and all its scratch words, and after \<open>n\<close> steps the counter has reached
  \<open>n\<close> or more.  So a run takes fewer steps than the program has instructions.
\<close>

theorem filter_run_bounded:
  assumes "bpf_validate maxbuf f" "readable p len" "bpf_reach (bpf_env_of p wirelen len ubl ubr) f n s"
  shows "length (bs_mem s) = BPF_MEMWORDS \<and> n \<le> bs_pc s \<and> bs_pc s < length f"
  using assms(3)
proof induction
  case start
  then show ?case using bpf_ok_start [OF assms(1)] by (simp add: bpf_ok_def)
next
  case (step n s s')
  then have "bpf_ok f s" by (simp add: bpf_ok_def)
  from step_safe [OF assms(1) this env_ok_readable [OF assms(2)], of wirelen ubl ubr] step show ?case
    by (auto simp: safe_step_def bpf_ok_def)
qed

theorem filter_run_bounded_witness:
  "length (bs_mem bpf_start) = BPF_MEMWORDS \<and> 0 \<le> bs_pc bpf_start \<and> bs_pc bpf_start < length ip_filter"
  by (rule filter_run_bounded [OF ip_filter_valid, of "Contig [1]" 1 0 "\<lambda>a n. a" "\<lambda>a n. a" 0 bpf_start])
     (simp_all add: contig_ok_def bpf_reach.start)

lemma filter_same_bytes:
  assumes "dense (st, ms)" "chain_bytes st ms \<noteq> []"
  shows "bpf_filter prog (Chain st ms) wirelen 0 ubl ubr
         = bpf_filter prog (Contig (chain_bytes st ms)) wirelen (word_of_nat (length (chain_bytes st ms))) ubl ubr"
proof -
  from assms have "contig_ok (chain_bytes st ms)" using length_chain_bytes [of st ms]
    by (auto simp: contig_ok_def dense_def simp flip: length_greater_0_conv)
  note c = contig.reads_ref [OF this] and d = chain.reads_ref [OF assms(1)]
  show ?thesis using c d by (simp add: bpf_filter_def bpf_env_of_def split: option.split)
qed

text \<open>
  C16 (filter_chain_as_contig): a filter gives the same verdict on an mbuf chain and on the
  same bytes in one buffer, whatever the program, when the chain has no mbuf so short that a
  word could span three of them.
\<close>

theorem filter_chain_as_contig:
  assumes "dense (st, ms)" "chain_bytes st ms \<noteq> []"
  shows "bpf_filter prog (Chain st ms) wirelen 0 ubl ubr
         = bpf_filter prog (Contig (chain_bytes st ms)) wirelen (word_of_nat (length (chain_bytes st ms))) ubl ubr"
  using assms by (rule filter_same_bytes)

theorem filter_chain_as_contig_witness:
  "bpf_filter (Some ip_filter) (Chain (sample_store 0) [data_mbuf (replicate 12 1 @ [8]), data_mbuf [0, 1]]) 60 0
     (\<lambda>a n. a) (\<lambda>a n. a) = Some (Ret 96)"
proof -
  have "bpf_filter (Some ip_filter) (Contig (replicate 12 1 @ [8, 0, 1])) 60 15 (\<lambda>a n. a) (\<lambda>a n. a) = Some (Ret 96)"
    by code_simp
  then show ?thesis using filter_chain_as_contig [OF dense_sample] by simp
qed

text \<open>
  A half word that starts in the last byte of one mbuf is completed
  from the buffer of the next mbuf even when that mbuf holds no data.  The value is made of a
  byte that is not part of the packet, or the read leaves the buffer.
\<close>

theorem xhalf_reads_stale:
  assumes "wf_mbuf st m" "0 < m_len m" "m_len m < 2 ^ 31" "m_len m0 = 0"
  shows "bpf_m_xhalf st (m # m0 # ms) (word_of_nat (m_len m - 1))
         = fetch2 (Some (last (m_bytes st m))) (m_byte st m0 0)"
proof -
  obtain l where l: "m_len m = Suc l" using assms(2) by (cases "m_len m") auto
  have u: "unat (word_of_nat l :: u32) = l" "unat (word_of_nat (Suc l) :: u32) = Suc l"
    using assms(3) l by (simp_all add: unat_of_nat del: of_nat_Suc)
  have lt: "\<not> (word_of_nat (Suc l) :: u32) \<le> word_of_nat l" using u by (simp add: word_le_nat_alt del: of_nat_Suc)
  have "unat (word_of_nat l + 2 :: u32) = l + 2" using u(1) assms(3) l by (simp add: unat_word_ariths)
  then have ge: "\<not> (word_of_nat l + 2 :: u32) \<le> word_of_nat (Suc l)"
    using u(2) by (simp add: word_le_nat_alt del: of_nat_Suc)
  have "m_byte st m l = Some (last (m_bytes st m))"
    using assms(1) m_byte_in [OF assms(1), of l] l by (subst last_conv_nth) (auto simp flip: length_0_conv)
  then show ?thesis using u by (simp add: bpf_m_xhalf_def Let_def l lt ge del: of_nat_Suc linorder_not_le)
qed

theorem xhalf_reads_stale_witness:
  "chain_bytes (sample_store 0) [data_mbuf [8], (data_mbuf [77])\<lparr>m_len := 0\<rparr>] = [8]
   \<and> bpf_m_xhalf (sample_store 0) [data_mbuf [8], (data_mbuf [77])\<lparr>m_len := 0\<rparr>] 0 = Got 0x84D"
proof -
  have "fetch2 (Some (last (m_bytes (sample_store 0) (data_mbuf [8])))) (m_byte (sample_store 0) ((data_mbuf [77])\<lparr>m_len := 0\<rparr>) 0) = Got 0x84D"
    by code_simp
  moreover have "chain_bytes (sample_store 0) [data_mbuf [8], (data_mbuf [77])\<lparr>m_len := 0\<rparr>] = [8]" by code_simp
  ultimately show ?thesis
    using xhalf_reads_stale [of "sample_store 0" "data_mbuf [8]" "(data_mbuf [77])\<lparr>m_len := 0\<rparr>" "[]"]
    by (simp add: sample_simps)
qed

text \<open>
  A buffer length of zero means that the packet is an mbuf chain.
  An empty contiguous packet is taken for one, so that a checked program reads an mbuf where
  there is none.
\<close>

theorem empty_buffer_faults:
  "bpf_validate 32768 ip_filter
   \<and> bpf_filter (Some ip_filter) (Contig []) wirelen 0 ubl ubr = Some Fault
   \<and> bpf_filter (Some ip_filter) (Contig [7]) wirelen 1 ubl ubr = Some (Ret 0)"
proof (intro conjI)
  show "bpf_validate 32768 ip_filter" by (rule ip_filter_valid)
  show "bpf_filter (Some ip_filter) (Contig []) wirelen 0 ubl ubr = Some Fault"
    "bpf_filter (Some ip_filter) (Contig [7]) wirelen 1 ubl ubr = Some (Ret 0)"
    by (simp_all add: bpf_filter_def bpf_run.simps bpf_step_def ip_filter_def bpf_load_def bpf_env_of_def bpf_half_def
      with_fetch_def)
qed

text \<open>
  The checker accepts a shift by a constant of 32 or more, and the
  result of the program is then whatever the machine makes of the shift.
\<close>

theorem shift_count_unchecked:
  "32 \<le> n \<Longrightarrow>
   bpf_validate maxbuf [\<lparr>bi_code = BPF_ALU OR BPF_LSH OR BPF_K, bi_jt = 0, bi_jf = 0, bi_k = n\<rparr>,
     \<lparr>bi_code = BPF_RET OR BPF_A, bi_jt = 0, bi_jf = 0, bi_k = 0\<rparr>]
   \<and> bpf_filter (Some [\<lparr>bi_code = BPF_ALU OR BPF_LSH OR BPF_K, bi_jt = 0, bi_jf = 0, bi_k = n\<rparr>,
       \<lparr>bi_code = BPF_RET OR BPF_A, bi_jt = 0, bi_jf = 0, bi_k = 0\<rparr>]) p wirelen buflen ubl ubr
     = Some (Ret (ubl 0 n))"
  by (simp add: bpf_validate_def check_defs BPF_MAXINSNS_def bpf_filter_def bpf_run.simps bpf_step_def bpf_load_def
    bpf_jump_def bpf_alu_def bpf_env_of_def shl_def next_pc_def not_less [symmetric] upt_rec)

theorem shift_count_unchecked_witness:
  "bpf_validate 32768 [\<lparr>bi_code = BPF_ALU OR BPF_LSH OR BPF_K, bi_jt = 0, bi_jf = 0, bi_k = 40\<rparr>,
     \<lparr>bi_code = BPF_RET OR BPF_A, bi_jt = 0, bi_jf = 0, bi_k = 0\<rparr>]"
  using shift_count_unchecked [of 40 32768] by simp

end
