(* ===== verification/Bpf_Desc.thy ===== *)
theory Bpf_Desc
  imports Bpf_Laws
begin

text \<open>
  A descriptor of the packet filter device, \<^verbatim>\<open>net/bpf.c\<close> and \<^verbatim>\<open>net/bpfdesc.h\<close>: the buffers that
  collect packets, \<^verbatim>\<open>bpf_catchpacket\<close> and \<^verbatim>\<open>bpfread\<close>.  A buffer is the list of its bytes.
\<close>

subsection \<open>The packet header\<close>

definition BPF_WORDALIGN :: "nat \<Rightarrow> nat" where
  "BPF_WORDALIGN x = (x + 3) div 4 * 4"

record bpf_hdr =
  bh_sec :: u32
  bh_usec :: u32
  bh_caplen :: u32
  bh_datalen :: u32
  bh_hdrlen :: u16

text \<open>The structure in memory, with the least significant byte first; the padding at its end is not written.\<close>

definition le32 :: "u32 \<Rightarrow> u8 list" where
  "le32 w = [ucast w, ucast (drop_bit 8 w), ucast (drop_bit 16 w), ucast (drop_bit 24 w)]"

definition le16 :: "u16 \<Rightarrow> u8 list" where
  "le16 w = [ucast w, ucast (drop_bit 8 w)]"

definition hdr_bytes :: "bpf_hdr \<Rightarrow> u8 list" where
  "hdr_bytes h = le32 (bh_sec h) @ le32 (bh_usec h) @ le32 (bh_caplen h) @ le32 (bh_datalen h) @ le16 (bh_hdrlen h)"

subsection \<open>Descriptors\<close>

text \<open>
  \<open>bd_bif\<close> names the interface the descriptor listens on, \<open>bd_woken\<close> counts the calls of
  \<^verbatim>\<open>bpf_wakeup\<close>.
\<close>

record bpf_d =
  bd_sbuf :: "u8 list option"
  bd_hbuf :: "u8 list option"
  bd_fbuf :: "u8 list option"
  bd_slen :: nat
  bd_hlen :: nat
  bd_bufsize :: nat
  bd_bif :: "nat option"
  bd_rtout :: u64
  bd_rdStart :: u64
  bd_rfilter :: "bpf_insn list option"
  bd_wfilter :: "bpf_insn list option"
  bd_rcount :: u64
  bd_dcount :: u64
  bd_promisc :: bool
  bd_immediate :: u8
  bd_locked :: bool
  bd_fildrop :: bool
  bd_dirfilt :: u8
  bd_queue :: u32
  bd_hdrcmplt :: bool
  bd_async :: int
  bd_sig :: nat
  bd_pgid :: int
  bd_siguid :: nat
  bd_sigeuid :: nat
  bd_ref :: nat
  bd_woken :: nat

definition ROTATE_BUFFERS :: "bpf_d \<Rightarrow> bpf_d" where
  "ROTATE_BUFFERS d =
     d\<lparr>bd_hbuf := bd_sbuf d, bd_hlen := bd_slen d, bd_sbuf := bd_fbuf d, bd_slen := 0, bd_fbuf := None\<rparr>"

definition bpf_wakeup :: "bpf_d \<Rightarrow> bpf_d" where
  "bpf_wakeup d = d\<lparr>bd_woken := bd_woken d + 1\<rparr>"

definition bpf_reset_d :: "bpf_d \<Rightarrow> bpf_d" where
  "bpf_reset_d d =
     (let d = (if bd_hbuf d \<noteq> None then d\<lparr>bd_fbuf := bd_hbuf d, bd_hbuf := None\<rparr> else d)
      in d\<lparr>bd_slen := 0, bd_hlen := 0, bd_rcount := 0, bd_dcount := 0\<rparr>)"

text \<open>The contents of the new buffers are what \<^verbatim>\<open>malloc\<close> finds there.\<close>

definition bpf_allocbufs :: "(nat \<Rightarrow> u8 list) \<Rightarrow> bpf_d \<Rightarrow> bpf_d" where
  "bpf_allocbufs malloc d =
     d\<lparr>bd_fbuf := Some (malloc (bd_bufsize d)), bd_sbuf := Some (malloc (bd_bufsize d)), bd_slen := 0, bd_hlen := 0\<rparr>"

subsection \<open>Catching a packet\<close>

text \<open>
  The header and the data go to the store buffer.  \<open>cpfn\<close> stands for the routine that copies the
  packet and gives the first bytes of it.
\<close>

definition catch_store :: "nat \<Rightarrow> bpf_d \<Rightarrow> nat \<Rightarrow> nat \<Rightarrow> nat \<Rightarrow> (nat \<Rightarrow> string + u8 list) \<Rightarrow> u64 \<times> u64 \<Rightarrow> string + bpf_d" where
  "catch_store hdrlen d pktlen totlen curlen cpfn tv =
     (case bd_sbuf d of
        None \<Rightarrow> Inl ''write to a null pointer''
      | Some b \<Rightarrow>
          let caplen = (totlen + 2 ^ 32 - hdrlen) mod 2 ^ 32;
              hp = \<lparr>bh_sec = ucast (fst tv), bh_usec = ucast (snd tv), bh_caplen = word_of_nat caplen,
                    bh_datalen = word_of_nat pktlen, bh_hdrlen = word_of_nat hdrlen\<rparr>
          in if curlen + 18 > length b \<or> curlen + hdrlen + caplen > length b then Inl ''write beyond the buffer''
             else case cpfn caplen of
                    Inl e \<Rightarrow> Inl e
                  | Inr bytes \<Rightarrow>
                      Inr (d\<lparr>bd_sbuf := Some (mem_write (mem_write b curlen (hdr_bytes hp)) (curlen + hdrlen) bytes),
                             bd_slen := curlen + totlen\<rparr>))"

text \<open>How many bytes to move, with the header.\<close>

definition catch_len :: "nat \<Rightarrow> nat \<Rightarrow> nat \<Rightarrow> nat \<Rightarrow> nat" where
  "catch_len hdrlen bufsize pktlen snaplen =
     (let totlen = (hdrlen + min snaplen pktlen mod 2 ^ 32) mod 2 ^ 32
      in if totlen > bufsize then bufsize else totlen)"

text \<open>A reader that waits with a timeout gets the buffer when the time is over.\<close>

definition catch_timeout :: "u64 \<Rightarrow> bpf_d \<Rightarrow> bpf_d" where
  "catch_timeout ticks d =
     (if bd_rdStart d \<noteq> 0 \<and> bd_rtout d + bd_rdStart d < ticks \<and> bd_fbuf d \<noteq> None
      then bpf_wakeup (ROTATE_BUFFERS (d\<lparr>bd_rdStart := 0\<rparr>)) else d)"

definition bpf_catchpacket :: "nat \<Rightarrow> u64 \<Rightarrow> bpf_d \<Rightarrow> nat \<Rightarrow> nat \<Rightarrow> (nat \<Rightarrow> string + u8 list) \<Rightarrow> u64 \<times> u64 \<Rightarrow> string + bpf_d" where
  "bpf_catchpacket hdrlen ticks d pktlen snaplen cpfn tv =
     (let totlen = catch_len hdrlen (bd_bufsize d) pktlen snaplen;
          curlen = BPF_WORDALIGN (bd_slen d)
      in if curlen + totlen > bd_bufsize d \<and> bd_fbuf d = None then Inr (d\<lparr>bd_dcount := bd_dcount d + 1\<rparr>)
         else
           let (d, curlen) = (if curlen + totlen > bd_bufsize d then (bpf_wakeup (ROTATE_BUFFERS d), 0) else (d, curlen))
           in case catch_store hdrlen d pktlen totlen curlen cpfn tv of
                Inl e \<Rightarrow> Inl e
              | Inr d \<Rightarrow>
                  let d = (if bd_immediate d \<noteq> 0 then bpf_wakeup d else d)
                  in Inr (catch_timeout ticks d))"

subsection \<open>Reading\<close>

abbreviation EINTR :: int where "EINTR \<equiv> 4"
abbreviation EIO :: int where "EIO \<equiv> 5"
abbreviation ENXIO :: int where "ENXIO \<equiv> 6"
abbreviation BPF_EINVAL :: int where "BPF_EINVAL \<equiv> 22"
abbreviation EWOULDBLOCK :: int where "EWOULDBLOCK \<equiv> 35"
abbreviation BPF_ERESTART :: int where "BPF_ERESTART \<equiv> - 1"

datatype read_wait = WSleep bpf_d | WReturn bpf_d int | WReady bpf_d

text \<open>When the time is over, the read takes what there is.\<close>

definition read_timeout :: "bpf_d \<Rightarrow> read_wait" where
  "read_timeout d =
     (if bd_hbuf d \<noteq> None then WReady d else if bd_slen d = 0 then WReturn d 0 else WReady (ROTATE_BUFFERS d))"

text \<open>
  The loop that waits for a full buffer.  Each wakeup has the value of \<^verbatim>\<open>tsleep\<close>, the clock after
  it, and what others did to the descriptor meanwhile.
\<close>

fun read_loop :: "bpf_d \<Rightarrow> u64 \<Rightarrow> (int \<times> u64 \<times> (bpf_d \<Rightarrow> bpf_d)) list \<Rightarrow> read_wait" where
  "read_loop d ticks ws =
     (if bd_hbuf d \<noteq> None then WReady d
      else if bd_bif d = None then (if bd_slen d = 0 then WReturn d EIO else WReady (ROTATE_BUFFERS d))
      else if bd_immediate d \<noteq> 0 \<and> bd_slen d \<noteq> 0 then WReady (ROTATE_BUFFERS d)
      else if bd_rtout d = - 1 \<or> \<not> bd_rdStart d + bd_rtout d < ticks then read_timeout d
      else
        case ws of
          [] \<Rightarrow> WSleep d
        | (error, ticks, others) # ws \<Rightarrow>
            let d = others d
            in if error = EINTR \<or> error = BPF_ERESTART then WReturn d error
               else if error = EWOULDBLOCK then read_timeout d
               else read_loop d ticks ws)"

declare read_loop.simps [simp del]

text \<open>Before the wait: the clock is taken for a timeout.\<close>

definition read_start :: "u64 \<Rightarrow> bpf_d \<Rightarrow> bpf_d" where
  "read_start ticks d =
     d\<lparr>bd_ref := bd_ref d + 1, bd_rdStart := (if bd_rtout d \<noteq> - 1 \<and> bd_rdStart d = 0 then ticks else 0)\<rparr>"

text \<open>After the copy: the hold buffer becomes the free one.\<close>

definition read_done :: "bpf_d \<Rightarrow> bpf_d" where
  "read_done d = d\<lparr>bd_fbuf := bd_hbuf d, bd_hbuf := None, bd_hlen := 0, bd_ref := bd_ref d - 1\<rparr>"

datatype bpf_read = Asleep bpf_d | Returned bpf_d int "u8 list"

text \<open>
  \<open>uerr\<close> is the result of \<^verbatim>\<open>uiomovei\<close>, \<open>others\<close> what happens to the descriptor during that copy,
  which runs without protection.
\<close>

definition bpfread :: "bpf_d \<Rightarrow> nat \<Rightarrow> u64 \<Rightarrow> (int \<times> u64 \<times> (bpf_d \<Rightarrow> bpf_d)) list \<Rightarrow> int \<Rightarrow> (bpf_d \<Rightarrow> bpf_d) \<Rightarrow> bpf_read" where
  "bpfread d resid ticks ws uerr others =
     (if bd_bif d = None then Returned d ENXIO []
      else if resid \<noteq> bd_bufsize d then Returned d BPF_EINVAL []
      else
        case read_loop (read_start ticks d) ticks ws of
          WSleep d \<Rightarrow> Asleep d
        | WReturn d error \<Rightarrow> Returned (d\<lparr>bd_ref := bd_ref d - 1\<rparr>) error []
        | WReady d \<Rightarrow>
            Returned (read_done (others d)) uerr
              (if uerr = 0 then (case bd_hbuf d of None \<Rightarrow> [] | Some b \<Rightarrow> take (bd_hlen d) b) else []))"

end
