(* ===== verification/Bpf_Capture.thy ===== *)
theory Bpf_Capture
  imports Bpf_Desc
begin

text \<open>
  What a program finds in the bytes that a read of the packet filter device returns: the
  captured packets, one after the other, as \<^verbatim>\<open>bpf(4)\<close> tells programs to walk through the buffer.
\<close>

subsection \<open>Walking through a buffer\<close>

definition of_le32 :: "u8 \<Rightarrow> u8 \<Rightarrow> u8 \<Rightarrow> u8 \<Rightarrow> u32" where
  "of_le32 a b c d = ucast a OR push_bit 8 (ucast b) OR push_bit 16 (ucast c) OR push_bit 24 (ucast d)"

definition of_le16 :: "u8 \<Rightarrow> u8 \<Rightarrow> u16" where
  "of_le16 a b = ucast a OR push_bit 8 (ucast b)"

definition le32_at :: "u8 list \<Rightarrow> nat \<Rightarrow> u32" where
  "le32_at bs i = of_le32 (bs ! i) (bs ! (i + 1)) (bs ! (i + 2)) (bs ! (i + 3))"

definition hdr_at :: "u8 list \<Rightarrow> bpf_hdr" where
  "hdr_at bs = \<lparr>bh_sec = le32_at bs 0, bh_usec = le32_at bs 4, bh_caplen = le32_at bs 8, bh_datalen = le32_at bs 12,
     bh_hdrlen = of_le16 (bs ! 16) (bs ! 17)\<rparr>"

text \<open>A captured packet: its time, its length on the wire, and the bytes kept of it.\<close>

record capture =
  cp_sec :: u32
  cp_usec :: u32
  cp_datalen :: u32
  cp_data :: "u8 list"

lemma WORDALIGN_ge: "n \<le> BPF_WORDALIGN n"
  unfolding BPF_WORDALIGN_def by presburger

function bpf_parse :: "u8 list \<Rightarrow> capture list" where
  "bpf_parse bs =
     (let h = hdr_at bs; n = unat (bh_hdrlen h) + unat (bh_caplen h)
      in if length bs < 18 \<or> unat (bh_hdrlen h) < 18 then []
         else \<lparr>cp_sec = bh_sec h, cp_usec = bh_usec h, cp_datalen = bh_datalen h,
               cp_data = take (unat (bh_caplen h)) (drop (unat (bh_hdrlen h)) bs)\<rparr> # bpf_parse (drop (BPF_WORDALIGN n) bs))"
  by pat_completeness auto
termination
proof (relation "measure length", goal_cases)
  case (2 bs h n)
  then show ?case using WORDALIGN_ge [of n] by auto
qed simp

declare bpf_parse.simps [simp del]

subsection \<open>Headers\<close>

lemma of_le32_le32: "of_le32 (ucast w) (ucast (drop_bit 8 w)) (ucast (drop_bit 16 w)) (ucast (drop_bit 24 w)) = w"
proof (rule bit_word_eqI)
  fix n assume n: "n < LENGTH(32)"
  have "n < 8 \<or> n - 8 < 8 \<and> 8 \<le> n \<or> n - 16 < 8 \<and> 16 \<le> n \<or> n - 24 < 8 \<and> 24 \<le> n" using n by simp linarith
  then show "bit (of_le32 (ucast w) (ucast (drop_bit 8 w)) (ucast (drop_bit 16 w)) (ucast (drop_bit 24 w))) n = bit w n"
    using n by (auto simp: of_le32_def bit_simps)
qed

lemma of_le16_le16: "of_le16 (ucast w) (ucast (drop_bit 8 w)) = w"
proof (rule bit_word_eqI)
  fix n assume n: "n < LENGTH(16)"
  have "n < 8 \<or> n - 8 < 8 \<and> 8 \<le> n" using n by simp linarith
  then show "bit (of_le16 (ucast w) (ucast (drop_bit 8 w))) n = bit w n" using n by (auto simp: of_le16_def bit_simps)
qed

lemma length_hdr_bytes [simp]: "length (hdr_bytes h) = 18"
  by (simp add: hdr_bytes_def le32_def le16_def)

lemma hdr_at_bytes: "hdr_at (hdr_bytes h @ bs) = h"
  by (simp add: hdr_at_def le32_at_def hdr_bytes_def le32_def le16_def of_le32_le32 of_le16_le16)

subsection \<open>Buffers that hold packets\<close>

text \<open>The bytes \<open>h\<close> are the packet \<open>r\<close> behind its header.\<close>

definition frame :: "capture \<Rightarrow> u8 list \<Rightarrow> bool" where
  "frame r h \<longleftrightarrow>
     (\<exists>pad. h = hdr_bytes \<lparr>bh_sec = cp_sec r, bh_usec = cp_usec r, bh_caplen = word_of_nat (length (cp_data r)),
                bh_datalen = cp_datalen r, bh_hdrlen = word_of_nat (18 + length pad)\<rparr> @ pad @ cp_data r
        \<and> 18 + length pad < 2 ^ 16 \<and> length (cp_data r) < 2 ^ 32)"

text \<open>Packets one after the other, each but the first after some bytes up to the next word.\<close>

fun frames :: "u8 list \<Rightarrow> capture list \<Rightarrow> bool" where
  "frames bs [] \<longleftrightarrow> bs = []"
| "frames bs [r] \<longleftrightarrow> frame r bs"
| "frames bs (r # r' # rs) \<longleftrightarrow>
     (\<exists>h pad rest. bs = h @ pad @ rest \<and> frame r h \<and> length (h @ pad) = BPF_WORDALIGN (length h) \<and> frames rest (r' # rs))"

lemma WORDALIGN_add: "BPF_WORDALIGN (BPF_WORDALIGN a + b) = BPF_WORDALIGN a + BPF_WORDALIGN b"
  unfolding BPF_WORDALIGN_def by presburger

lemma WORDALIGN_0 [simp]: "BPF_WORDALIGN 0 = 0"
  by (simp add: BPF_WORDALIGN_def)

text \<open>One more packet.\<close>

lemma frames_snoc:
  "frames bs rs \<Longrightarrow> frame r h \<Longrightarrow> length (bs @ pad) = BPF_WORDALIGN (length bs) \<Longrightarrow> frames (bs @ pad @ h) (rs @ [r])"
proof (induction bs rs rule: frames.induct)
  case (3 bs r0 r1 rs)
  then obtain h0 pad0 rest where b: "bs = h0 @ pad0 @ rest" "frame r0 h0" "length (h0 @ pad0) = BPF_WORDALIGN (length h0)" "frames rest (r1 # rs)" by auto
  have "length (rest @ pad) = BPF_WORDALIGN (length rest)"
    using "3.prems"(3) WORDALIGN_add [of "length h0" "length rest"] unfolding b(1) b(3) [symmetric] by (simp add: add.assoc)
  then have "frames (rest @ pad @ h) (r1 # rs @ [r])" using "3.IH" [OF b(4) "3.prems"(2)] by simp
  then show ?case using b by auto
qed auto

lemma unat_small: "n < 2 ^ 16 \<Longrightarrow> unat (word_of_nat n :: u16) = n" "n < 2 ^ 32 \<Longrightarrow> unat (word_of_nat n :: u32) = n"
  by (simp_all add: unat_of_nat)

lemma frame_parse:
  assumes "frame r h" "length (h @ pad) = BPF_WORDALIGN (length h) \<or> pad @ rest = []"
  shows "bpf_parse (h @ pad @ rest) = r # bpf_parse rest" "18 \<le> length h"
proof -
  obtain q where h: "h = hdr_bytes \<lparr>bh_sec = cp_sec r, bh_usec = cp_usec r, bh_caplen = word_of_nat (length (cp_data r)),
      bh_datalen = cp_datalen r, bh_hdrlen = word_of_nat (18 + length q)\<rparr> @ q @ cp_data r" "18 + length q < 2 ^ 16" "length (cp_data r) < 2 ^ 32"
    using assms(1) unfolding frame_def by blast
  let ?h = "\<lparr>bh_sec = cp_sec r, bh_usec = cp_usec r, bh_caplen = word_of_nat (length (cp_data r)),
      bh_datalen = cp_datalen r, bh_hdrlen = word_of_nat (18 + length q)\<rparr> :: bpf_hdr"
  have at: "hdr_at (h @ pad @ rest) = ?h" using hdr_at_bytes [of ?h "q @ cp_data r @ pad @ rest"] h(1) by simp
  have l: "length h = 18 + length q + length (cp_data r)" using h(1) by simp
  then show "18 \<le> length h" by simp
  have u: "unat (bh_hdrlen ?h) = 18 + length q" "unat (bh_caplen ?h) = length (cp_data r)" using unat_small(1) [OF h(2)] unat_small(2) [OF h(3)] by simp_all
  have d: "drop (BPF_WORDALIGN (length h)) (h @ pad @ rest) = rest" using assms(2) WORDALIGN_ge [of "length h"] by auto
  have t: "take (length (cp_data r)) (drop (18 + length q) (h @ pad @ rest)) = cp_data r" using h(1) by simp
  have n: "18 + length q + length (cp_data r) = length h" using l by simp
  have c: "\<not> (length (h @ pad @ rest) < 18 \<or> 18 + length q < 18)" using l by simp
  show "bpf_parse (h @ pad @ rest) = r # bpf_parse rest"
    unfolding bpf_parse.simps [of "h @ pad @ rest"] at Let_def u n d t if_not_P [OF c] by simp
qed

text \<open>A program that walks through the buffer finds these packets.\<close>

lemma parse_frames: "frames bs rs \<Longrightarrow> bpf_parse bs = rs"
proof (induction bs rs rule: frames.induct)
  case (1 bs)
  then show ?case by (simp add: bpf_parse.simps)
next
  case (2 bs r)
  then show ?case using frame_parse(1) [of r bs "[]" "[]"] by (simp add: bpf_parse.simps [of "[]"])
next
  case (3 bs r r' rs)
  then show ?case using frame_parse(1) by auto
qed

subsection \<open>The descriptor's buffers\<close>

text \<open>
  The invariant of a descriptor with buffers: the store buffer is there, exactly one of the
  other slots is taken, and the packets in the store and in the hold buffer are \<open>ss\<close> and \<open>hs\<close>.
\<close>

definition bpf_bufs :: "bpf_d \<Rightarrow> capture list \<Rightarrow> capture list \<Rightarrow> bool" where
  "bpf_bufs d hs ss \<longleftrightarrow> 32 \<le> bd_bufsize d \<and> bd_bufsize d < 2 ^ 31 \<and>
     (\<exists>b. bd_sbuf d = Some b \<and> length b = bd_bufsize d \<and> bd_slen d \<le> bd_bufsize d \<and> frames (take (bd_slen d) b) ss) \<and>
     (case bd_hbuf d of
        None \<Rightarrow> (\<exists>f. bd_fbuf d = Some f \<and> length f = bd_bufsize d) \<and> bd_hlen d = 0 \<and> hs = []
      | Some b \<Rightarrow> bd_fbuf d = None \<and> length b = bd_bufsize d \<and> bd_hlen d \<le> bd_bufsize d \<and> frames (take (bd_hlen d) b) hs)"

lemma bufs_wakeup [simp]: "bpf_bufs (bpf_wakeup d) hs ss = bpf_bufs d hs ss"
  by (cases "bd_hbuf d") (simp_all add: bpf_bufs_def bpf_wakeup_def)

lemma bufs_rotate: "bpf_bufs d hs ss \<Longrightarrow> bd_fbuf d \<noteq> None \<Longrightarrow> bpf_bufs (ROTATE_BUFFERS d) ss [] \<and> hs = []"
  by (auto simp: bpf_bufs_def ROTATE_BUFFERS_def split: option.splits)

text \<open>What is kept of a packet.\<close>

definition captured :: "nat \<Rightarrow> nat \<Rightarrow> u64 \<times> u64 \<Rightarrow> nat \<Rightarrow> u8 list \<Rightarrow> capture" where
  "captured hdrlen bufsize tv snaplen pkt =
     \<lparr>cp_sec = ucast (fst tv), cp_usec = ucast (snd tv), cp_datalen = word_of_nat (length pkt),
      cp_data = take (min snaplen (bufsize - hdrlen)) pkt\<rparr>"

lemma take_mem_write: "off + length ys \<le> length xs \<Longrightarrow> take (off + length ys) (mem_write xs off ys) = take off xs @ ys"
  by (simp add: mem_write_def)

lemma frame_captured:
  assumes "18 \<le> hdrlen" "hdrlen < 2 ^ 16" "length (cp_data r) < 2 ^ 32" "curlen + hdrlen + length (cp_data r) \<le> length b"
    "hp = \<lparr>bh_sec = cp_sec r, bh_usec = cp_usec r, bh_caplen = word_of_nat (length (cp_data r)), bh_datalen = cp_datalen r, bh_hdrlen = word_of_nat hdrlen\<rparr>"
  shows "\<exists>h. take (curlen + hdrlen + length (cp_data r)) (mem_write (mem_write b curlen (hdr_bytes hp)) (curlen + hdrlen) (cp_data r)) = take curlen b @ h
    \<and> frame r h \<and> length h = hdrlen + length (cp_data r)"
proof -
  let ?pad = "take (hdrlen - 18) (drop (curlen + 18) b)"
  have l: "length ?pad = hdrlen - 18" using assms by simp
  have w: "take (curlen + hdrlen) (mem_write b curlen (hdr_bytes hp)) = take curlen b @ hdr_bytes hp @ ?pad"
    using assms(1,4) by (simp add: mem_write_def take_append)
  have "take (curlen + hdrlen + length (cp_data r)) (mem_write (mem_write b curlen (hdr_bytes hp)) (curlen + hdrlen) (cp_data r))
      = take curlen b @ hdr_bytes hp @ ?pad @ cp_data r"
    using take_mem_write [of "curlen + hdrlen" "cp_data r" "mem_write b curlen (hdr_bytes hp)"] assms(1,4) w by simp
  moreover have "frame r (hdr_bytes hp @ ?pad @ cp_data r)"
    unfolding frame_def using assms l by (intro exI [of _ ?pad]) simp
  ultimately show ?thesis using l assms(1) by (intro exI [of _ "hdr_bytes hp @ ?pad @ cp_data r"]) simp
qed

lemma catch_store_ok:
  assumes inv: "bpf_bufs d hs ss" and h: "18 \<le> hdrlen" "hdrlen \<le> 32" and t: "totlen = hdrlen + length (cp_data r)"
    and cur: "curlen = BPF_WORDALIGN (bd_slen d)" "curlen + totlen \<le> bd_bufsize d" and cp: "cpfn (length (cp_data r)) = Inr (cp_data r)"
    and r: "cp_sec r = ucast (fst tv)" "cp_usec r = ucast (snd tv)" "cp_datalen r = word_of_nat pktlen"
  shows "\<exists>b. catch_store hdrlen d pktlen totlen curlen cpfn tv = Inr (d\<lparr>bd_sbuf := Some b, bd_slen := curlen + totlen\<rparr>)
    \<and> bpf_bufs (d\<lparr>bd_sbuf := Some b, bd_slen := curlen + totlen\<rparr>) hs (ss @ [r])"
proof -
  obtain b where b: "bd_sbuf d = Some b" "length b = bd_bufsize d" "bd_slen d \<le> bd_bufsize d" "frames (take (bd_slen d) b) ss"
    and sz: "bd_bufsize d < 2 ^ 31" using inv by (auto simp: bpf_bufs_def)
  have cl: "(totlen + 2 ^ 32 - hdrlen) mod 2 ^ 32 = length (cp_data r)" "length (cp_data r) < 2 ^ 32" using t cur(2) sz by simp_all
  let ?hp = "\<lparr>bh_sec = cp_sec r, bh_usec = cp_usec r, bh_caplen = word_of_nat (length (cp_data r)), bh_datalen = cp_datalen r, bh_hdrlen = word_of_nat hdrlen\<rparr> :: bpf_hdr"
  let ?b = "mem_write (mem_write b curlen (hdr_bytes ?hp)) (curlen + hdrlen) (cp_data r)"
  have fit: "curlen + hdrlen + length (cp_data r) \<le> length b" using b(2) cur(2) t by simp
  have c: "catch_store hdrlen d pktlen totlen curlen cpfn tv = Inr (d\<lparr>bd_sbuf := Some ?b, bd_slen := curlen + totlen\<rparr>)"
    using b(1) fit h(1) cp r unfolding catch_store_def Let_def cl(1) by simp
  from frame_captured [OF h(1) _ cl(2) fit refl] h(2) obtain f where
    f: "take (curlen + hdrlen + length (cp_data r)) ?b = take curlen b @ f" "frame r f" "length f = hdrlen + length (cp_data r)" by auto
  have sl: "bd_slen d \<le> curlen" "curlen \<le> length b" using WORDALIGN_ge cur fit by simp_all
  let ?pad = "take (curlen - bd_slen d) (drop (bd_slen d) b)"
  have split: "take curlen b = take (bd_slen d) b @ ?pad" using sl take_add [of "bd_slen d" "curlen - bd_slen d" b] by simp
  have "frames (take (curlen + totlen) ?b) (ss @ [r])"
    using frames_snoc [OF b(4) f(2), of ?pad] f(1) split t b(2,3) sl cur(1) by (simp add: add.assoc)
  moreover have "length ?b = bd_bufsize d" using b(2) fit h(1) by simp
  ultimately have "bpf_bufs (d\<lparr>bd_sbuf := Some ?b, bd_slen := curlen + totlen\<rparr>) hs (ss @ [r])"
    using inv cur(2) by (cases "bd_hbuf d") (auto simp: bpf_bufs_def)
  with c show ?thesis by blast
qed

lemma bufs_timeout: "bpf_bufs d hs ss \<Longrightarrow> \<exists>hs' ss'. bpf_bufs (catch_timeout ticks d) hs' ss' \<and> hs' @ ss' = hs @ ss"
proof -
  assume b: "bpf_bufs d hs ss"
  have r: "bpf_bufs (d\<lparr>bd_rdStart := 0\<rparr>) hs ss" using b by (cases "bd_hbuf d") (simp_all add: bpf_bufs_def)
  show ?thesis
  proof (cases "bd_rdStart d \<noteq> 0 \<and> bd_rtout d + bd_rdStart d < ticks \<and> bd_fbuf d \<noteq> None")
    case True
    then show ?thesis using bufs_rotate [OF r] by (intro exI [of _ ss] exI [of _ "[]"]) (simp add: catch_timeout_def)
  next
    case False
    then show ?thesis using b unfolding catch_timeout_def if_not_P [OF False] by blast
  qed
qed

text \<open>
  \<^verbatim>\<open>bpf_catchpacket\<close> appends the packet to what is waiting, or drops it and counts it if there
  is no room.  It never writes outside its buffer.
\<close>

definition caught :: "bpf_d \<Rightarrow> capture list \<Rightarrow> capture list \<Rightarrow> capture \<Rightarrow> bpf_d \<Rightarrow> bool" where
  "caught d hs ss r d' \<longleftrightarrow>
     bd_fbuf d = None \<and> d' = d\<lparr>bd_dcount := bd_dcount d + 1\<rparr> \<or>
     (\<exists>hs' ss'. bpf_bufs d' hs' ss' \<and> hs' @ ss' = hs @ ss @ [r]) \<and> bd_dcount d' = bd_dcount d"

lemma catch_fields [simp]:
  "bd_dcount (bpf_wakeup d) = bd_dcount d" "bd_dcount (ROTATE_BUFFERS d) = bd_dcount d" "bd_dcount (catch_timeout ticks d) = bd_dcount d"
  "bd_immediate (bpf_wakeup d) = bd_immediate d" "bd_slen (bpf_wakeup d) = bd_slen d" "bd_slen (ROTATE_BUFFERS d) = 0"
  "bd_bufsize (bpf_wakeup d) = bd_bufsize d" "bd_bufsize (ROTATE_BUFFERS d) = bd_bufsize d"
  by (simp_all add: bpf_wakeup_def ROTATE_BUFFERS_def catch_timeout_def)

lemma catchpacket_ok:
  assumes inv: "bpf_bufs d hs ss" and h: "18 \<le> hdrlen" "hdrlen \<le> 32" and p: "length pkt < 2 ^ 31"
    and cp: "\<And>n. n \<le> length pkt \<Longrightarrow> cpfn n = Inr (take n pkt)"
  shows "\<exists>d'. bpf_catchpacket hdrlen ticks d (length pkt) snaplen cpfn tv = Inr d' \<and>
    caught d hs ss (captured hdrlen (bd_bufsize d) tv snaplen pkt) d'"
proof -
  let ?r = "captured hdrlen (bd_bufsize d) tv snaplen pkt" let ?n = "length (cp_data ?r)"
  let ?tot = "(hdrlen + min snaplen (length pkt) mod 2 ^ 32) mod 2 ^ 32" let ?cur = "BPF_WORDALIGN (bd_slen d)"
  have sz: "32 \<le> bd_bufsize d" using inv by (simp add: bpf_bufs_def)
  have tot: "?tot = hdrlen + min snaplen (length pkt)" using p h(2) by simp
  have nn: "?n = min (min snaplen (length pkt)) (bd_bufsize d - hdrlen)" by (simp add: captured_def min_def)
  have tl: "catch_len hdrlen (bd_bufsize d) (length pkt) snaplen = hdrlen + ?n" using sz h unfolding catch_len_def Let_def tot nn by (cases "bd_bufsize d < hdrlen + min snaplen (length pkt)") auto
  have fit: "hdrlen + ?n \<le> bd_bufsize d" using sz h by (simp add: captured_def)
  have cpn: "cpfn ?n = Inr (cp_data ?r)" using cp [of ?n] by (simp add: captured_def min_def)
  have rr: "cp_sec ?r = ucast (fst tv)" "cp_usec ?r = ucast (snd tv)" "cp_datalen ?r = word_of_nat (length pkt)" by (simp_all add: captured_def)
  let ?store = "catch_store hdrlen" and ?fin = "\<lambda>d. catch_timeout ticks (if bd_immediate d \<noteq> 0 then bpf_wakeup d else d)"
  have fin: "caught d hs ss ?r (?fin d2)" if "bpf_bufs d2 hs2 ss2" "hs2 @ ss2 = hs @ ss @ [?r]" "bd_dcount d2 = bd_dcount d" for d2 hs2 ss2
    using bufs_timeout [of "if bd_immediate d2 \<noteq> 0 then bpf_wakeup d2 else d2" hs2 ss2 ticks] that by (auto simp: caught_def)
  show ?thesis
  proof (cases "?cur + (hdrlen + ?n) > bd_bufsize d")
    case True
    show ?thesis
    proof (cases "bd_fbuf d = None")
      case drop: True
      then show ?thesis using True unfolding bpf_catchpacket_def Let_def tl caught_def by simp
    next
      case False
      note ro = bufs_rotate [OF inv False]
      let ?d = "bpf_wakeup (ROTATE_BUFFERS d)"
      have "bpf_bufs ?d ss []" using ro by simp
      from catch_store_ok [where r = ?r and cpfn = cpfn, OF this h refl _ _ cpn rr, of 0] fit obtain b where
        s: "?store ?d (length pkt) (hdrlen + ?n) 0 cpfn tv = Inr (?d\<lparr>bd_sbuf := Some b, bd_slen := hdrlen + ?n\<rparr>)"
          "bpf_bufs (?d\<lparr>bd_sbuf := Some b, bd_slen := hdrlen + ?n\<rparr>) ss [?r]" by auto
      then show ?thesis using True False fin [OF s(2)] ro unfolding bpf_catchpacket_def Let_def tl by (auto simp: if_splits)
    qed
  next
    case False
    from catch_store_ok [where r = ?r and cpfn = cpfn, OF inv h refl refl _ cpn rr] False obtain b where
      s: "?store d (length pkt) (hdrlen + ?n) ?cur cpfn tv = Inr (d\<lparr>bd_sbuf := Some b, bd_slen := ?cur + (hdrlen + ?n)\<rparr>)"
        "bpf_bufs (d\<lparr>bd_sbuf := Some b, bd_slen := ?cur + (hdrlen + ?n)\<rparr>) hs (ss @ [?r])" by auto
    then show ?thesis using False fin [OF s(2)] unfolding bpf_catchpacket_def Let_def tl by auto
  qed
qed

subsection \<open>Reading what was captured\<close>

definition bpf_held :: "bpf_d \<Rightarrow> u8 list" where
  "bpf_held d = (case bd_hbuf d of None \<Rightarrow> [] | Some b \<Rightarrow> take (bd_hlen d) b)"

definition bpf_stored :: "bpf_d \<Rightarrow> u8 list" where
  "bpf_stored d = (case bd_sbuf d of None \<Rightarrow> [] | Some b \<Rightarrow> take (bd_slen d) b)"

lemma bufs_parse:
  assumes "bpf_bufs d hs ss"
  shows "bpf_parse (bpf_held d) = hs" "bpf_parse (bpf_stored d) = ss"
proof -
  show "bpf_parse (bpf_stored d) = ss" using assms parse_frames by (auto simp: bpf_bufs_def bpf_stored_def)
  show "bpf_parse (bpf_held d) = hs"
  proof (cases "bd_hbuf d")
    case None
    then show ?thesis using assms by (simp add: bpf_bufs_def bpf_held_def bpf_parse.simps [of "[]"])
  next
    case (Some b)
    then show ?thesis using assms parse_frames by (simp add: bpf_bufs_def bpf_held_def)
  qed
qed

lemma bufs_start: "bpf_bufs d hs ss \<Longrightarrow> bpf_bufs (read_start ticks d) hs ss"
  by (cases "bd_hbuf d") (simp_all add: bpf_bufs_def read_start_def)

lemma bufs_done: "bpf_bufs d hs ss \<Longrightarrow> bd_hbuf d \<noteq> None \<Longrightarrow> bpf_bufs (read_done d) [] ss"
  by (auto simp: bpf_bufs_def read_done_def)

lemma bufs_put: "bpf_bufs d hs ss \<Longrightarrow> bpf_bufs (d\<lparr>bd_ref := n\<rparr>) hs ss"
  by (cases "bd_hbuf d") (simp_all add: bpf_bufs_def)

lemma bufs_reset: "bpf_bufs d hs ss \<Longrightarrow> bpf_bufs (bpf_reset_d d) [] []"
  by (cases "bd_hbuf d") (auto simp: bpf_bufs_def bpf_reset_d_def)

lemma bufs_hbuf_free: "bpf_bufs d hs ss \<Longrightarrow> bd_hbuf d = None \<Longrightarrow> bd_fbuf d \<noteq> None \<and> hs = []"
  by (auto simp: bpf_bufs_def)

text \<open>The packets that wait to be read.\<close>

definition pending :: "bpf_d \<Rightarrow> capture list \<Rightarrow> bool" where
  "pending d ps \<longleftrightarrow> (\<exists>hs ss. bpf_bufs d hs ss \<and> hs @ ss = ps)"

lemma pending_rotate: "pending d ps \<Longrightarrow> bd_hbuf d = None \<Longrightarrow> pending (ROTATE_BUFFERS d) ps \<and> bd_hbuf (ROTATE_BUFFERS d) \<noteq> None"
proof -
  assume "pending d ps" "bd_hbuf d = None"
  then obtain hs ss where b: "bpf_bufs d hs ss" "hs @ ss = ps" "bd_fbuf d \<noteq> None" "hs = []" using bufs_hbuf_free unfolding pending_def by blast
  then have "bpf_bufs (ROTATE_BUFFERS d) ss []" using bufs_rotate by blast
  moreover have "bd_hbuf (ROTATE_BUFFERS d) \<noteq> None" using b(1) by (auto simp: bpf_bufs_def ROTATE_BUFFERS_def)
  ultimately show ?thesis using b(2,4) unfolding pending_def by (metis append_Nil append_Nil2)
qed

lemma pending_keeps:
  "pending d ps \<Longrightarrow> pending (read_start ticks d) ps" "pending d ps \<Longrightarrow> pending (d\<lparr>bd_ref := n\<rparr>) ps"
  "pending d ps \<Longrightarrow> pending (d\<lparr>bd_dcount := c\<rparr>) ps"
proof -
  show "pending d ps \<Longrightarrow> pending (read_start ticks d) ps" using bufs_start unfolding pending_def by blast
  show "pending d ps \<Longrightarrow> pending (d\<lparr>bd_ref := n\<rparr>) ps" using bufs_put unfolding pending_def by blast
  have "bpf_bufs d hs ss \<Longrightarrow> bpf_bufs (d\<lparr>bd_dcount := c\<rparr>) hs ss" for hs ss by (cases "bd_hbuf d") (simp_all add: bpf_bufs_def)
  then show "pending d ps \<Longrightarrow> pending (d\<lparr>bd_dcount := c\<rparr>) ps" unfolding pending_def by blast
qed

lemma pending_done: "pending d ps \<Longrightarrow> bd_hbuf d \<noteq> None \<Longrightarrow> \<exists>qs. pending (read_done d) qs \<and> bpf_parse (bpf_held d) @ qs = ps"
proof -
  assume "pending d ps" "bd_hbuf d \<noteq> None"
  then obtain hs ss where b: "bpf_bufs d hs ss" "hs @ ss = ps" "bpf_bufs (read_done d) [] ss" using bufs_done unfolding pending_def by blast
  then have "pending (read_done d) ss" unfolding pending_def by (metis append_Nil)
  then show ?thesis using b(2) bufs_parse(1) [OF b(1)] by blast
qed

text \<open>How a wait ends: the packets stay what they are, and a full buffer is in the hold slot.\<close>

definition wait_ok :: "capture list \<Rightarrow> read_wait \<Rightarrow> bool" where
  "wait_ok ps w \<longleftrightarrow>
     (case w of
        WSleep d \<Rightarrow> pending d ps
      | WReturn d e \<Rightarrow> pending d ps
      | WReady d \<Rightarrow> pending d ps \<and> bd_hbuf d \<noteq> None)"

lemma wait_timeout: "pending d ps \<Longrightarrow> wait_ok ps (read_timeout d)"
  using pending_rotate [of d ps] by (simp add: read_timeout_def wait_ok_def)

lemma wait_loop:
  assumes "pending d ps"
  shows "wait_ok ps (read_loop d ticks [])"
  using assms pending_rotate [OF assms] wait_timeout [OF assms] by (simp add: read_loop.simps [of d ticks] wait_ok_def)

text \<open>After a sleep that returned \<open>error\<close>.\<close>

definition read_woken :: "bpf_d \<Rightarrow> int \<Rightarrow> u64 \<Rightarrow> read_wait" where
  "read_woken d error ticks =
     (if error = EINTR \<or> error = BPF_ERESTART then WReturn d error
      else if error = EWOULDBLOCK then read_timeout d else read_loop d ticks [])"

lemma wait_woken: "pending d ps \<Longrightarrow> wait_ok ps (read_woken d error ticks)"
  using wait_timeout [of d ps] wait_loop [of d ps ticks] by (simp add: read_woken_def) (simp add: wait_ok_def)

lemma read_loop_woken: "read_loop d ticks ((error, ticks', others) # []) =
    (case read_loop d ticks [] of WSleep d \<Rightarrow> read_woken (others d) error ticks' | w \<Rightarrow> w)"
proof (cases "\<exists>d'. read_loop d ticks [] = WSleep d'")
  case True
  then show ?thesis by (auto simp: read_loop.simps [of d ticks] read_woken_def read_timeout_def Let_def split: if_splits)
next
  case False
  then show ?thesis by (auto simp: read_loop.simps [of d ticks] split: if_splits read_wait.splits)
qed

subsection \<open>Packets and one reader in any order\<close>

datatype reader = Idle | Waiting | Copying

text \<open>The state: the descriptor, the reader, the packets read so far, and the packets that were accepted.\<close>

record stream =
  sd :: bpf_d
  sr :: reader
  sgot :: "capture list"
  sseen :: "capture list"

definition after_wait :: "stream \<Rightarrow> read_wait \<Rightarrow> stream" where
  "after_wait s w =
     (case w of
        WSleep d \<Rightarrow> s\<lparr>sd := d, sr := Waiting\<rparr>
      | WReturn d e \<Rightarrow> s\<lparr>sd := d\<lparr>bd_ref := bd_ref d - 1\<rparr>, sr := Idle\<rparr>
      | WReady d \<Rightarrow> s\<lparr>sd := d, sr := Copying\<rparr>)"

text \<open>
  Packets arrive at any time; a read starts, is woken from its sleep, copies the hold buffer
  and returns it; the buffers are flushed while no copy runs.
\<close>

inductive stream_step :: "nat \<Rightarrow> stream \<Rightarrow> stream \<Rightarrow> bool" for hdrlen where
  packet: "length pkt < 2 ^ 31 \<Longrightarrow> (\<And>n. n \<le> length pkt \<Longrightarrow> cpfn n = Inr (take n pkt)) \<Longrightarrow>
    bpf_catchpacket hdrlen ticks (sd s) (length pkt) snaplen cpfn tv = Inr d \<Longrightarrow>
    stream_step hdrlen s (s\<lparr>sd := d, sseen := (if bd_dcount d = bd_dcount (sd s)
      then sseen s @ [captured hdrlen (bd_bufsize (sd s)) tv snaplen pkt] else sseen s)\<rparr>)"
| start: "sr s = Idle \<Longrightarrow> stream_step hdrlen s (after_wait s (read_loop (read_start ticks (sd s)) ticks []))"
| wake: "sr s = Waiting \<Longrightarrow> stream_step hdrlen s (after_wait s (read_woken (sd s) error ticks))"
| copied: "sr s = Copying \<Longrightarrow> stream_step hdrlen s (s\<lparr>sd := read_done (sd s), sr := Idle, sgot := sgot s @ bpf_parse (bpf_held (sd s))\<rparr>)"
| flush: "sr s \<noteq> Copying \<Longrightarrow> stream_step hdrlen s (s\<lparr>sd := bpf_reset_d (sd s), sseen := sgot s\<rparr>)"

definition stream_ok :: "stream \<Rightarrow> bool" where
  "stream_ok s \<longleftrightarrow> (\<exists>ps. pending (sd s) ps \<and> sgot s @ ps = sseen s) \<and> (sr s = Copying \<longrightarrow> bd_hbuf (sd s) \<noteq> None)"

lemma stream_after_wait:
  assumes "wait_ok ps w" "sgot s @ ps = sseen s"
  shows "stream_ok (after_wait s w)"
  using assms pending_keeps(2) by (cases w) (auto simp: wait_ok_def stream_ok_def after_wait_def)

text \<open>The hold buffer stays while it is there: no packet replaces it.\<close>

lemma store_slots: "catch_store hdrlen d n t c cpfn tv = Inr d' \<Longrightarrow> bd_hbuf d' = bd_hbuf d \<and> bd_fbuf d' = bd_fbuf d"
  by (auto simp: catch_store_def Let_def split: if_splits option.splits sum.splits)

lemma caught_holds:
  assumes "bd_hbuf d \<noteq> None" "bd_fbuf d = None" "bpf_catchpacket hdrlen ticks d n snaplen cpfn tv = Inr d'"
  shows "bd_hbuf d' \<noteq> None"
proof -
  have t: "bd_hbuf (catch_timeout ticks e) = bd_hbuf e" if "bd_fbuf e = None" for e using that by (simp add: catch_timeout_def)
  have w: "bd_hbuf (bpf_wakeup e) = bd_hbuf e" "bd_fbuf (bpf_wakeup e) = bd_fbuf e" for e by (simp_all add: bpf_wakeup_def)
  show ?thesis using assms t w store_slots [of hdrlen d n _ _ cpfn tv]
    unfolding bpf_catchpacket_def Let_def by (auto split: if_splits sum.splits)
qed

lemma stream_packet:
  assumes ps: "pending (sd s) ps" "sgot s @ ps = sseen s" "sr s = Copying \<longrightarrow> bd_hbuf (sd s) \<noteq> None" and h: "18 \<le> hdrlen" "hdrlen \<le> 32"
    and p: "length pkt < 2 ^ 31" "\<And>n. n \<le> length pkt \<Longrightarrow> cpfn n = Inr (take n pkt)"
    and c: "bpf_catchpacket hdrlen ticks (sd s) (length pkt) snaplen cpfn tv = Inr d"
  shows "stream_ok (s\<lparr>sd := d, sseen := (if bd_dcount d = bd_dcount (sd s)
      then sseen s @ [captured hdrlen (bd_bufsize (sd s)) tv snaplen pkt] else sseen s)\<rparr>)"
proof -
  let ?r = "captured hdrlen (bd_bufsize (sd s)) tv snaplen pkt"
  obtain hs ss where b: "bpf_bufs (sd s) hs ss" "hs @ ss = ps" using ps(1) by (auto simp: pending_def)
  have "caught (sd s) hs ss ?r d" using catchpacket_ok [OF b(1) h p(1), of cpfn ticks snaplen tv] p(2) c by auto
  then consider "d = (sd s)\<lparr>bd_dcount := bd_dcount (sd s) + 1\<rparr>" | "pending d (ps @ [?r])" "bd_dcount d = bd_dcount (sd s)"
    using b(2) unfolding caught_def pending_def by (metis append.assoc)
  then show ?thesis
  proof cases
    case 1
    then show ?thesis using pending_keeps(3) [OF ps(1)] ps(2,3) by (auto simp: stream_ok_def)
  next
    case 2
    have "bd_hbuf d \<noteq> None" if "sr s = Copying" using caught_holds [OF _ _ c] ps(3) that b(1) by (auto simp: bpf_bufs_def)
    moreover have "sgot s @ ps @ [?r] = sseen s @ [?r]" using ps(2) by (simp flip: append_assoc)
    ultimately show ?thesis using 2 unfolding stream_ok_def by auto
  qed
qed

lemma stream_step_ok:
  assumes "stream_step hdrlen s s'" "stream_ok s" "18 \<le> hdrlen" "hdrlen \<le> 32"
  shows "stream_ok s'"
proof -
  obtain ps where b: "pending (sd s) ps" "sgot s @ ps = sseen s" "sr s = Copying \<longrightarrow> bd_hbuf (sd s) \<noteq> None" using assms(2) by (auto simp: stream_ok_def)
  show ?thesis using assms(1)
  proof (cases rule: stream_step.cases)
    case (packet pkt cpfn ticks snaplen tv d)
    then show ?thesis using stream_packet [OF b assms(3,4), of pkt cpfn ticks snaplen tv d] by simp
  next
    case (start ticks)
    then show ?thesis using stream_after_wait [OF wait_loop [OF pending_keeps(1) [OF b(1)]] b(2)] by simp
  next
    case (wake error ticks)
    then show ?thesis using stream_after_wait [OF wait_woken [OF b(1)] b(2)] by simp
  next
    case copied
    then obtain qs where "pending (read_done (sd s)) qs" "bpf_parse (bpf_held (sd s)) @ qs = ps" using pending_done [OF b(1)] b(3) by blast
    then show ?thesis using copied b(2) by (auto simp: stream_ok_def)
  next
    case flush
    have "pending (bpf_reset_d (sd s)) []" using b(1) bufs_reset unfolding pending_def by (metis append_Nil)
    then show ?thesis using flush by (auto simp: stream_ok_def)
  qed
qed

lemma stream_reach_ok:
  assumes "(stream_step hdrlen)\<^sup>*\<^sup>* s s'" "stream_ok s" "18 \<le> hdrlen" "hdrlen \<le> 32"
  shows "stream_ok s'"
  using assms by (induction rule: rtranclp_induct) (auto intro: stream_step_ok)

end
