(* ===== verification/Bpf_Dev.thy ===== *)
theory Bpf_Dev
  imports Bpf_Capture
begin

text \<open>
  The packet filter device, \<^verbatim>\<open>net/bpf.c\<close>: descriptors by their unit number, the interfaces they
  listen on, the control operations of users, and the taps that drivers call for each packet.
\<close>

subsection \<open>State\<close>

text \<open>
  An interface entry has a number that stands for its address; its listeners are unit numbers.
  \<open>bif_driver\<close> tells whether the driver's pointer leads here.
\<close>

record bpf_if =
  bif_id :: nat
  bif_dlist :: "nat list"
  bif_driver :: bool
  bif_dlt :: nat
  bif_hdrlen :: nat
  bif_ifp :: nat

record bpf_dev =
  bpf_d_list :: "nat \<Rightarrow> bpf_d option"
  bpf_iflist :: "bpf_if list"
  bif_count :: nat
  bpf_bufsize :: nat
  bpf_maxbufsize :: nat

definition BPF_MINBUFSIZE :: nat where "BPF_MINBUFSIZE = 32"

text \<open>What the device uses of the rest of the system: names and modes of interfaces, clock rates, memory.\<close>

record bpf_sys =
  if_xname :: "nat \<Rightarrow> string"
  ifpromisc :: "nat \<Rightarrow> bool \<Rightarrow> int"
  sys_hz :: nat
  sys_tick :: nat
  sys_malloc :: "nat \<Rightarrow> u8 list"

abbreviation EPERM :: int where "EPERM \<equiv> 1"
abbreviation BPF_ENOMEM :: int where "BPF_ENOMEM \<equiv> 12"
abbreviation EBUSY :: int where "EBUSY \<equiv> 16"
abbreviation ENODEV :: int where "ENODEV \<equiv> 19"
abbreviation BPF_EOPNOTSUPP :: int where "BPF_EOPNOTSUPP \<equiv> 45"

definition put_d :: "nat \<Rightarrow> bpf_d \<Rightarrow> bpf_dev \<Rightarrow> bpf_dev" where
  "put_d u d v = v\<lparr>bpf_d_list := (bpf_d_list v)(u := Some d)\<rparr>"

definition find_if :: "bpf_dev \<Rightarrow> nat \<Rightarrow> bpf_if option" where
  "find_if v i = find (\<lambda>bp. bif_id bp = i) (bpf_iflist v)"

definition upd_if :: "nat \<Rightarrow> (bpf_if \<Rightarrow> bpf_if) \<Rightarrow> bpf_dev \<Rightarrow> bpf_dev" where
  "upd_if i f v = v\<lparr>bpf_iflist := map (\<lambda>bp. if bif_id bp = i then f bp else bp) (bpf_iflist v)\<rparr>"

subsection \<open>Descriptors\<close>

definition bpfilter_lookup :: "bpf_dev \<Rightarrow> nat \<Rightarrow> bpf_d option" where
  "bpfilter_lookup v u = bpf_d_list v u"

definition zero_d :: bpf_d where
  "zero_d = \<lparr>bd_sbuf = None, bd_hbuf = None, bd_fbuf = None, bd_slen = 0, bd_hlen = 0, bd_bufsize = 0, bd_bif = None,
     bd_rtout = 0, bd_rdStart = 0, bd_rfilter = None, bd_wfilter = None, bd_rcount = 0, bd_dcount = 0, bd_promisc = False,
     bd_immediate = 0, bd_locked = False, bd_fildrop = False, bd_dirfilt = 0, bd_queue = 0, bd_hdrcmplt = False,
     bd_async = 0, bd_sig = 0, bd_pgid = 0, bd_siguid = 0, bd_sigeuid = 0, bd_ref = 0, bd_woken = 0\<rparr>"

definition bpfilter_create :: "bpf_dev \<Rightarrow> nat \<Rightarrow> bool \<Rightarrow> bpf_d option \<times> bpf_dev" where
  "bpfilter_create v u nomem =
     (if bpfilter_lookup v u \<noteq> None then (None, v)
      else if nomem then (None, v)
      else (Some zero_d, put_d u zero_d v))"

definition bpfilter_destroy :: "bpf_dev \<Rightarrow> nat \<Rightarrow> bpf_dev" where
  "bpfilter_destroy v u = v\<lparr>bpf_d_list := (bpf_d_list v)(u := None)\<rparr>"

definition SIGIO :: nat where "SIGIO = 23"
definition NSIG :: nat where "NSIG = 33"

definition bpfopen :: "bpf_dev \<Rightarrow> nat \<Rightarrow> bool \<Rightarrow> bpf_dev \<times> int" where
  "bpfopen v u nomem =
     (case bpfilter_create v u nomem of
        (None, v) \<Rightarrow> (v, EBUSY)
      | (Some d, v) \<Rightarrow> (put_d u (d\<lparr>bd_bufsize := bpf_bufsize v, bd_sig := SIGIO, bd_ref := bd_ref d + 1\<rparr>) v, 0))"

text \<open>The descriptor goes when the last reference to it goes.\<close>

definition bpf_freed :: "bpf_dev \<Rightarrow> nat \<Rightarrow> bpf_d \<Rightarrow> bpf_dev" where
  "bpf_freed v u d =
     (let d = d\<lparr>bd_ref := bd_ref d - 1\<rparr>
      in if bd_ref d > 0 then put_d u d v else bpfilter_destroy v u)"

definition bpf_attachd :: "bpf_dev \<Rightarrow> nat \<Rightarrow> bpf_d \<Rightarrow> nat \<Rightarrow> bpf_dev" where
  "bpf_attachd v u d i =
     upd_if i (\<lambda>bp. bp\<lparr>bif_dlist := u # bif_dlist bp, bif_driver := True\<rparr>) (put_d u (d\<lparr>bd_bif := Some i\<rparr>) v)"

fun dlist_remove :: "nat \<Rightarrow> nat list \<Rightarrow> string + nat list" where
  "dlist_remove u [] = Inl ''null pointer''"
| "dlist_remove u (x # xs) =
     (if x = u then Inr xs
      else if xs = [] then Inl ''bpf_detachd: descriptor not in list''
      else case dlist_remove u xs of Inl e \<Rightarrow> Inl e | Inr ys \<Rightarrow> Inr (x # ys))"

definition bpf_detachd :: "bpf_sys \<Rightarrow> bpf_dev \<Rightarrow> nat \<Rightarrow> bpf_d \<Rightarrow> string + bpf_dev" where
  "bpf_detachd sys v u d =
     (case Option.bind (bd_bif d) (find_if v) of
        None \<Rightarrow> Inl ''null pointer''
      | Some bp \<Rightarrow>
          let error = (if bd_promisc d then ifpromisc sys (bif_ifp bp) False else 0); d = d\<lparr>bd_promisc := False\<rparr>
          in if error \<noteq> 0 \<and> \<not> (error = BPF_EINVAL \<or> error = ENODEV) then Inl ''bpf: ifpromisc failed''
             else case dlist_remove u (bif_dlist bp) of
                    Inl e \<Rightarrow> Inl e
                  | Inr us \<Rightarrow>
                      Inr (upd_if (bif_id bp) (\<lambda>bp. bp\<lparr>bif_dlist := us, bif_driver := (if us = [] then False else bif_driver bp)\<rparr>)
                             (put_d u (d\<lparr>bd_bif := None\<rparr>) v)))"

definition bpfclose :: "bpf_sys \<Rightarrow> bpf_dev \<Rightarrow> nat \<Rightarrow> string + bpf_dev \<times> int" where
  "bpfclose sys v u =
     (case bpfilter_lookup v u of
        None \<Rightarrow> Inl ''null pointer''
      | Some d \<Rightarrow>
          (case (if bd_bif d \<noteq> None then bpf_detachd sys v u d else Inr v) of
             Inl e \<Rightarrow> Inl e
           | Inr v \<Rightarrow>
               (case bpfilter_lookup v u of
                  None \<Rightarrow> Inl ''null pointer''
                | Some d \<Rightarrow> Inr (bpf_freed v u (bpf_wakeup d), 0))))"

subsection \<open>Filters and interfaces\<close>

text \<open>A program in user memory: no address, or the instructions that can be read there.\<close>

record bpf_program =
  bf_len :: nat
  bf_insns :: "bpf_insn list option"

definition set_filter :: "bool \<Rightarrow> bpf_insn list option \<Rightarrow> bpf_d \<Rightarrow> bpf_d" where
  "set_filter write f d = (if write then d\<lparr>bd_wfilter := f\<rparr> else d\<lparr>bd_rfilter := f\<rparr>)"

definition bpf_setf :: "u32 \<Rightarrow> bpf_d \<Rightarrow> bpf_program \<Rightarrow> bool \<Rightarrow> bpf_d \<times> int" where
  "bpf_setf maxbuf d fp write =
     (case bf_insns fp of
        None \<Rightarrow> if bf_len fp \<noteq> 0 then (d, BPF_EINVAL) else (bpf_reset_d (set_filter write None d), 0)
      | Some mem \<Rightarrow>
          let flen = bf_len fp
          in if flen > BPF_MAXINSNS then (d, BPF_EINVAL)
             else if flen \<le> length mem \<and> bpf_validate maxbuf (take flen mem)
             then (bpf_reset_d (set_filter write (Some (take flen mem)) d), 0)
             else (d, BPF_EINVAL))"

text \<open>The entry of the named interface with the least link type.\<close>

fun pick_if :: "bpf_sys \<Rightarrow> string \<Rightarrow> bpf_if list \<Rightarrow> bpf_if option \<Rightarrow> bpf_if option" where
  "pick_if sys name [] candidate = candidate"
| "pick_if sys name (bp # bps) candidate =
     pick_if sys name bps
       (if if_xname sys (bif_ifp bp) \<noteq> name then candidate
        else case candidate of None \<Rightarrow> Some bp | Some c \<Rightarrow> if bif_dlt c > bif_dlt bp then Some bp else candidate)"

definition bpf_setif :: "bpf_sys \<Rightarrow> bpf_dev \<Rightarrow> nat \<Rightarrow> bpf_d \<Rightarrow> string \<Rightarrow> string + bpf_dev \<times> int" where
  "bpf_setif sys v u d name =
     (case pick_if sys name (bpf_iflist v) None of
        None \<Rightarrow> Inr (v, ENXIO)
      | Some candidate \<Rightarrow>
          let d = (if bd_sbuf d = None then bpf_allocbufs (sys_malloc sys) d else d);
              v = put_d u d v
          in case (if Some (bif_id candidate) \<noteq> bd_bif d
                   then (case (if bd_bif d \<noteq> None then bpf_detachd sys v u d else Inr v) of
                           Inl e \<Rightarrow> Inl e
                         | Inr v \<Rightarrow> Inr (bpf_attachd v u (the (bpfilter_lookup v u)) (bif_id candidate)))
                   else Inr v) of
               Inl e \<Rightarrow> Inl e
             | Inr v \<Rightarrow> Inr (put_d u (bpf_reset_d (the (bpfilter_lookup v u))) v, 0))"

definition bpf_setdlt :: "bpf_sys \<Rightarrow> bpf_dev \<Rightarrow> nat \<Rightarrow> bpf_d \<Rightarrow> nat \<Rightarrow> string + bpf_dev \<times> int" where
  "bpf_setdlt sys v u d dlt =
     (case Option.bind (bd_bif d) (find_if v) of
        None \<Rightarrow> Inl ''null pointer''
      | Some cur \<Rightarrow>
          if bif_dlt cur = dlt then Inr (v, 0)
          else case find (\<lambda>bp. bif_ifp bp = bif_ifp cur \<and> bif_dlt bp = dlt) (bpf_iflist v) of
                 None \<Rightarrow> Inr (v, BPF_EINVAL)
               | Some bp \<Rightarrow>
                   (case bpf_detachd sys v u d of
                      Inl e \<Rightarrow> Inl e
                    | Inr v \<Rightarrow>
                        let v = bpf_attachd v u (the (bpfilter_lookup v u)) (bif_id bp)
                        in Inr (put_d u (bpf_reset_d (the (bpfilter_lookup v u))) v, 0)))"

text \<open>The link types of the interface; \<open>room\<close> is the length of the user's list, if there is one.\<close>

definition bpf_getdltlist :: "bpf_dev \<Rightarrow> bpf_if \<Rightarrow> nat option \<Rightarrow> nat list \<times> int" where
  "bpf_getdltlist v cur room =
     (let ds = map bif_dlt (filter (\<lambda>bp. bif_ifp bp = bif_ifp cur) (bpf_iflist v))
      in case room of None \<Rightarrow> (ds, 0) | Some n \<Rightarrow> if length ds > n then (take n ds, BPF_ENOMEM) else (ds, 0))"

definition SIZEOF_BPF_HDR :: nat where "SIZEOF_BPF_HDR = 20"

definition bpfattach :: "bpf_dev \<Rightarrow> nat \<Rightarrow> nat \<Rightarrow> nat \<Rightarrow> bpf_dev" where
  "bpfattach v ifp dlt hdrlen =
     v\<lparr>bpf_iflist := \<lparr>bif_id = bif_count v, bif_dlist = [], bif_driver = False, bif_dlt = dlt,
          bif_hdrlen = BPF_WORDALIGN (hdrlen + SIZEOF_BPF_HDR) - hdrlen, bif_ifp = ifp\<rparr> # bpf_iflist v,
       bif_count := bif_count v + 1\<rparr>"

subsection \<open>Control operations\<close>

datatype bpf_cmd =
    FIONREAD | BIOCGBLEN | BIOCSBLEN nat | BIOCSETF bpf_program | BIOCSETWF bpf_program | BIOCFLUSH | BIOCPROMISC
  | BIOCGDLTLIST "nat option" | BIOCGDLT | BIOCSDLT nat | BIOCGETIF | BIOCSETIF string | BIOCSRTIMEOUT int int | BIOCGRTIMEOUT
  | BIOCGSTATS | BIOCIMMEDIATE u32 | BIOCVERSION | BIOCGHDRCMPLT | BIOCSHDRCMPLT u32 | BIOCLOCK | BIOCGFILDROP | BIOCSFILDROP u32
  | BIOCGDIRFILT | BIOCSDIRFILT u32 | BIOCGQUEUE | BIOCSQUEUE u32 | FIONBIO int | FIOASYNC int | TIOCSPGRP int | TIOCGPGRP
  | BIOCSRSIG nat | BIOCGRSIG | OtherCmd

datatype bpf_out = NoOut | Num int | Dlts "nat list" | Name string | Timeval u64 u64 | Stats u32 u32 | Version nat nat

definition allowed_locked :: "bpf_cmd \<Rightarrow> bool" where
  "allowed_locked cmd \<longleftrightarrow>
     (case cmd of
        BIOCGBLEN \<Rightarrow> True | BIOCFLUSH \<Rightarrow> True | BIOCGDLT \<Rightarrow> True | BIOCGDLTLIST n \<Rightarrow> True | BIOCGETIF \<Rightarrow> True
      | BIOCGRTIMEOUT \<Rightarrow> True | BIOCGSTATS \<Rightarrow> True | BIOCVERSION \<Rightarrow> True | BIOCGRSIG \<Rightarrow> True | BIOCGHDRCMPLT \<Rightarrow> True
      | FIONREAD \<Rightarrow> True | BIOCLOCK \<Rightarrow> True | BIOCSRTIMEOUT s us \<Rightarrow> True | BIOCIMMEDIATE x \<Rightarrow> True | TIOCGPGRP \<Rightarrow> True
      | BIOCGDIRFILT \<Rightarrow> True | cmd \<Rightarrow> False)"

text \<open>The number of clock ticks in a time; C rounds towards zero.\<close>

definition rtout_ticks :: "bpf_sys \<Rightarrow> int \<Rightarrow> int \<Rightarrow> u64" where
  "rtout_ticks sys sec usec =
     (let q = (if usec < 0 then - (- usec div int (sys_tick sys)) else usec div int (sys_tick sys));
          t = word_of_int (sec * int (sys_hz sys) + q)
      in if t = 0 \<and> usec \<noteq> 0 then 1 else t)"

text \<open>Operations that change or read the descriptor alone.\<close>

definition ioctl_d :: "bpf_sys \<Rightarrow> bpf_dev \<Rightarrow> bpf_d \<Rightarrow> bpf_cmd \<Rightarrow> nat \<Rightarrow> nat \<Rightarrow> bpf_d \<times> int \<times> bpf_out" where
  "ioctl_d sys v d cmd ruid euid =
     (case cmd of
        FIONREAD \<Rightarrow> (d, 0, Num (int (bd_slen d + (if bd_hbuf d \<noteq> None then bd_hlen d else 0))))
      | BIOCGBLEN \<Rightarrow> (d, 0, Num (int (bd_bufsize d)))
      | BIOCSBLEN sz \<Rightarrow>
          if bd_bif d \<noteq> None then (d, BPF_EINVAL, NoOut)
          else let sz = (if sz > bpf_maxbufsize v then bpf_maxbufsize v else if sz < BPF_MINBUFSIZE then BPF_MINBUFSIZE else sz)
               in (d\<lparr>bd_bufsize := sz\<rparr>, 0, Num (int sz))
      | BIOCSETF fp \<Rightarrow> let (d, e) = bpf_setf (word_of_nat (bpf_maxbufsize v)) d fp False in (d, e, NoOut)
      | BIOCSETWF fp \<Rightarrow> let (d, e) = bpf_setf (word_of_nat (bpf_maxbufsize v)) d fp True in (d, e, NoOut)
      | BIOCFLUSH \<Rightarrow> (bpf_reset_d d, 0, NoOut)
      | BIOCSRTIMEOUT sec usec \<Rightarrow> (d\<lparr>bd_rtout := rtout_ticks sys sec usec\<rparr>, 0, NoOut)
      | BIOCGRTIMEOUT \<Rightarrow>
          (d, 0, Timeval (bd_rtout d div word_of_nat (sys_hz sys)) (bd_rtout d mod word_of_nat (sys_hz sys) * word_of_nat (sys_tick sys)))
      | BIOCGSTATS \<Rightarrow> (d, 0, Stats (ucast (bd_rcount d)) (ucast (bd_dcount d)))
      | BIOCIMMEDIATE x \<Rightarrow> (d\<lparr>bd_immediate := ucast x\<rparr>, 0, NoOut)
      | BIOCVERSION \<Rightarrow> (d, 0, Version 1 1)
      | BIOCGHDRCMPLT \<Rightarrow> (d, 0, Num (if bd_hdrcmplt d then 1 else 0))
      | BIOCSHDRCMPLT x \<Rightarrow> (d\<lparr>bd_hdrcmplt := (x \<noteq> 0)\<rparr>, 0, NoOut)
      | BIOCLOCK \<Rightarrow> (d\<lparr>bd_locked := True\<rparr>, 0, NoOut)
      | BIOCGFILDROP \<Rightarrow> (d, 0, Num (if bd_fildrop d then 1 else 0))
      | BIOCSFILDROP x \<Rightarrow> (d\<lparr>bd_fildrop := (x \<noteq> 0)\<rparr>, 0, NoOut)
      | BIOCGDIRFILT \<Rightarrow> (d, 0, Num (uint (bd_dirfilt d)))
      | BIOCSDIRFILT x \<Rightarrow> (d\<lparr>bd_dirfilt := ucast (x AND 3)\<rparr>, 0, NoOut)
      | BIOCGQUEUE \<Rightarrow> (d, 0, Num (uint (bd_queue d)))
      | BIOCSQUEUE x \<Rightarrow> (d\<lparr>bd_queue := x\<rparr>, 0, NoOut)
      | FIONBIO x \<Rightarrow> (d\<lparr>bd_rtout := (if x \<noteq> 0 then - 1 else 0)\<rparr>, 0, NoOut)
      | FIOASYNC x \<Rightarrow> (d\<lparr>bd_async := x\<rparr>, 0, NoOut)
      | TIOCSPGRP x \<Rightarrow> (d\<lparr>bd_pgid := x, bd_siguid := ruid, bd_sigeuid := euid\<rparr>, 0, NoOut)
      | TIOCGPGRP \<Rightarrow> (d, 0, Num (bd_pgid d))
      | BIOCSRSIG n \<Rightarrow> if n \<ge> NSIG then (d, BPF_EINVAL, NoOut) else (d\<lparr>bd_sig := n\<rparr>, 0, NoOut)
      | BIOCGRSIG \<Rightarrow> (d, 0, Num (int (bd_sig d)))
      | _ \<Rightarrow> (d, BPF_EINVAL, NoOut))"

text \<open>Operations on the interface the descriptor listens on.\<close>

definition ioctl_if :: "bpf_sys \<Rightarrow> bpf_dev \<Rightarrow> nat \<Rightarrow> bpf_d \<Rightarrow> bpf_if \<Rightarrow> bpf_cmd \<Rightarrow> string + bpf_dev \<times> int \<times> bpf_out" where
  "ioctl_if sys v u d bp cmd =
     (case cmd of
        BIOCPROMISC \<Rightarrow>
          let error = (if bd_promisc d then 0 else ifpromisc sys (bif_ifp bp) True)
          in Inr (if \<not> bd_promisc d \<and> error = 0 then put_d u (d\<lparr>bd_promisc := True\<rparr>) v else v, error, NoOut)
      | BIOCGDLTLIST room \<Rightarrow> let (ds, e) = bpf_getdltlist v bp room in Inr (v, e, Dlts ds)
      | BIOCGDLT \<Rightarrow> Inr (v, 0, Num (int (bif_dlt bp)))
      | BIOCSDLT dlt \<Rightarrow> (case bpf_setdlt sys v u d dlt of Inl e \<Rightarrow> Inl e | Inr (v, e) \<Rightarrow> Inr (v, e, NoOut))
      | BIOCGETIF \<Rightarrow> Inr (v, 0, Name (if_xname sys (bif_ifp bp)))
      | _ \<Rightarrow> Inr (v, BPF_EINVAL, NoOut))"

definition needs_if :: "bpf_cmd \<Rightarrow> bool" where
  "needs_if cmd \<longleftrightarrow>
     (case cmd of BIOCPROMISC \<Rightarrow> True | BIOCGDLTLIST n \<Rightarrow> True | BIOCGDLT \<Rightarrow> True | BIOCSDLT dlt \<Rightarrow> True | BIOCGETIF \<Rightarrow> True | cmd \<Rightarrow> False)"

definition bpfioctl :: "bpf_sys \<Rightarrow> bpf_dev \<Rightarrow> nat \<Rightarrow> bpf_cmd \<Rightarrow> bool \<Rightarrow> nat \<Rightarrow> nat \<Rightarrow> string + bpf_dev \<times> int \<times> bpf_out" where
  "bpfioctl sys v u cmd root ruid euid =
     (case bpfilter_lookup v u of
        None \<Rightarrow> Inl ''null pointer''
      | Some d \<Rightarrow>
          if bd_locked d \<and> \<not> root \<and> \<not> allowed_locked cmd then Inr (v, EPERM, NoOut)
          else if needs_if cmd then
            (case bd_bif d of
               None \<Rightarrow> Inr (v, BPF_EINVAL, NoOut)
             | Some i \<Rightarrow> (case find_if v i of None \<Rightarrow> Inl ''null pointer'' | Some bp \<Rightarrow> ioctl_if sys v u d bp cmd))
          else
            (case cmd of
               BIOCSETIF name \<Rightarrow> (case bpf_setif sys v u d name of Inl e \<Rightarrow> Inl e | Inr (v, e) \<Rightarrow> Inr (v, e, NoOut))
             | _ \<Rightarrow> let (d, e, out) = ioctl_d sys v d cmd ruid euid in Inr (put_d u d v, e, out)))"

text \<open>The limits of the buffer sizes; \<open>error\<close> and \<open>newval\<close> are what \<^verbatim>\<open>sysctl_int\<close> returns and leaves.\<close>

datatype bpf_sysctl_name = NET_BPF_BUFSIZE | NET_BPF_MAXBUFSIZE | OtherName

definition bpf_sysctl_locked :: "bpf_dev \<Rightarrow> bpf_sysctl_name \<Rightarrow> int \<Rightarrow> int \<Rightarrow> bpf_dev \<times> int" where
  "bpf_sysctl_locked v name error newval =
     (case name of
        NET_BPF_BUFSIZE \<Rightarrow>
          if error \<noteq> 0 then (v, error)
          else if newval < int BPF_MINBUFSIZE \<or> newval > int (bpf_maxbufsize v) then (v, BPF_EINVAL) else (v\<lparr>bpf_bufsize := nat newval\<rparr>, 0)
      | NET_BPF_MAXBUFSIZE \<Rightarrow>
          if error \<noteq> 0 then (v, error)
          else if newval < int BPF_MINBUFSIZE then (v, BPF_EINVAL) else (v\<lparr>bpf_maxbufsize := nat newval\<rparr>, 0)
      | OtherName \<Rightarrow> (v, BPF_EOPNOTSUPP))"

subsection \<open>Waiting for packets\<close>

definition POLLIN :: u32 where "POLLIN = 0x41"
definition POLLOUT :: u32 where "POLLOUT = 0x04"
definition POLLERR :: u32 where "POLLERR = 0x08"

text \<open>\<^verbatim>\<open>POLLIN\<close> and \<^verbatim>\<open>POLLOUT\<close> with their variants for normal data.\<close>

definition bpfpoll :: "bpf_dev \<Rightarrow> nat \<Rightarrow> u32 \<Rightarrow> u64 \<Rightarrow> bpf_dev \<times> u32" where
  "bpfpoll v u events ticks =
     (case bpfilter_lookup v u of
        None \<Rightarrow> (v, POLLERR)
      | Some d \<Rightarrow>
          let revents = events AND POLLOUT
          in if events AND POLLIN = 0 then (v, revents)
             else if bd_hlen d \<noteq> 0 \<or> bd_immediate d \<noteq> 0 \<and> bd_slen d \<noteq> 0 then (v, revents OR (events AND POLLIN))
             else (put_d u (if bd_rtout d \<noteq> - 1 \<and> bd_rdStart d = 0 then d\<lparr>bd_rdStart := ticks\<rparr> else d) v, revents))"

text \<open>
  A read on the device: what \<open>bpfread\<close> does with the descriptor of the unit until it sleeps or
  returns.  The copy to the user succeeds and nothing comes between.
\<close>

definition read_finish :: "bpf_dev \<Rightarrow> nat \<Rightarrow> read_wait \<Rightarrow> bpf_dev \<times> (int \<times> u8 list) option" where
  "read_finish v u w =
     (case w of
        WSleep d \<Rightarrow> (put_d u d v, None)
      | WReturn d error \<Rightarrow> (bpf_freed v u d, Some (error, []))
      | WReady d \<Rightarrow> (bpf_freed v u (d\<lparr>bd_fbuf := bd_hbuf d, bd_hbuf := None, bd_hlen := 0\<rparr>), Some (0, bpf_held d)))"

definition dev_read :: "bpf_dev \<Rightarrow> nat \<Rightarrow> nat \<Rightarrow> u64 \<Rightarrow> string + bpf_dev \<times> (int \<times> u8 list) option" where
  "dev_read v u resid ticks =
     (case bpfilter_lookup v u of
        None \<Rightarrow> Inl ''null pointer''
      | Some d \<Rightarrow>
          if bd_bif d = None then Inr (v, Some (ENXIO, []))
          else if resid \<noteq> bd_bufsize d then Inr (v, Some (BPF_EINVAL, []))
          else Inr (read_finish v u (read_loop (read_start ticks d) ticks [])))"

text \<open>The reader of the unit is woken; \<open>error\<close> is the result of its sleep.\<close>

definition dev_woken :: "bpf_dev \<Rightarrow> nat \<Rightarrow> int \<Rightarrow> u64 \<Rightarrow> string + bpf_dev \<times> (int \<times> u8 list) option" where
  "dev_woken v u error ticks =
     (case bpfilter_lookup v u of
        None \<Rightarrow> Inl ''use after free''
      | Some d \<Rightarrow> Inr (read_finish v u (read_woken d error ticks)))"

definition filt_bpfread :: "bpf_d \<Rightarrow> nat \<times> bool" where
  "filt_bpfread d = (let n = bd_hlen d + (if bd_immediate d \<noteq> 0 then bd_slen d else 0) in (n, n > 0))"

definition bpfkqfilter :: "bpf_dev \<Rightarrow> nat \<Rightarrow> bool \<Rightarrow> u64 \<Rightarrow> string + bpf_dev \<times> int" where
  "bpfkqfilter v u evfilt_read ticks =
     (if \<not> evfilt_read then Inr (v, BPF_EINVAL)
      else case bpfilter_lookup v u of
             None \<Rightarrow> Inl ''null pointer''
           | Some d \<Rightarrow>
               let d = d\<lparr>bd_ref := bd_ref d + 1\<rparr>
               in Inr (put_d u (if bd_rtout d \<noteq> - 1 \<and> bd_rdStart d = 0 then d\<lparr>bd_rdStart := ticks\<rparr> else d) v, 0))"

definition filt_bpfrdetach :: "bpf_dev \<Rightarrow> nat \<Rightarrow> string + bpf_dev" where
  "filt_bpfrdetach v u = (case bpfilter_lookup v u of None \<Rightarrow> Inl ''null pointer'' | Some d \<Rightarrow> Inr (bpf_freed v u d))"

subsection \<open>Packets from the drivers\<close>

fun bpf_mcopy :: "mstore \<Rightarrow> mbuf list \<Rightarrow> nat \<Rightarrow> string + u8 list" where
  "bpf_mcopy st ms 0 = Inr []"
| "bpf_mcopy st [] (Suc len) = Inl ''bpf_mcopy''"
| "bpf_mcopy st (m # ms) (Suc len) =
     (let count = min (m_len m) (Suc len)
      in case bpf_mcopy st ms (Suc len - count) of
           Inl e \<Rightarrow> Inl e
         | Inr bs \<Rightarrow> Inr (mem_read (m_buf st m) (m_data m) count @ bs))"

text \<open>
  The clock, the time of day and the shifts that C leaves open are the environment of a tap.
\<close>

record tap_env =
  te_ticks :: u64
  te_tv :: "u64 \<times> u64"
  te_ubl :: "u32 \<Rightarrow> u32 \<Rightarrow> u32"
  te_ubr :: "u32 \<Rightarrow> u32 \<Rightarrow> u32"

definition tap_filter :: "tap_env \<Rightarrow> bpf_d \<Rightarrow> packet \<Rightarrow> nat \<Rightarrow> nat \<Rightarrow> string + nat" where
  "tap_filter te d p wirelen buflen =
     (case bpf_filter (bd_rfilter d) p (word_of_nat wirelen) (word_of_nat buflen) (te_ubl te) (te_ubr te) of
        Some (Ret r) \<Rightarrow> Inr (unat r)
      | _ \<Rightarrow> Inl ''bpf_filter'')"

text \<open>
  One listener: its filter decides how much of the packet it gets.  The second result tells
  whether the packet is to be dropped by the driver.
\<close>

definition tap_one :: "tap_env \<Rightarrow> nat \<Rightarrow> u32 \<Rightarrow> bpf_d \<Rightarrow> string + nat \<Rightarrow> nat \<Rightarrow> (nat \<Rightarrow> string + u8 list) \<Rightarrow> string + bpf_d \<times> bool" where
  "tap_one te hdrlen direction d verdict pktlen cpfn =
     (let d = d\<lparr>bd_rcount := bd_rcount d + 1\<rparr>
      in case (if direction AND ucast (bd_dirfilt d) \<noteq> 0 then Inr 0 else verdict) of
           Inl e \<Rightarrow> Inl e
         | Inr slen \<Rightarrow>
             if slen = 0 then Inr (d, False)
             else case bpf_catchpacket hdrlen (te_ticks te) d pktlen slen cpfn (te_tv te) of
                    Inl e \<Rightarrow> Inl e
                  | Inr d' \<Rightarrow> Inr (d', bd_fildrop d'))"

text \<open>All listeners in turn; \<open>one\<close> handles a descriptor, and the number of drops is counted.\<close>

fun tap_loop :: "(bpf_d \<Rightarrow> string + bpf_d \<times> bool) \<Rightarrow> bpf_dev \<Rightarrow> nat list \<Rightarrow> nat \<Rightarrow> string + bpf_dev \<times> nat" where
  "tap_loop one v [] n = Inr (v, n)"
| "tap_loop one v (u # us) n =
     (case bpfilter_lookup v u of
        None \<Rightarrow> Inl ''null pointer''
      | Some d \<Rightarrow>
          (case one d of
             Inl e \<Rightarrow> Inl e
           | Inr (d, b) \<Rightarrow> tap_loop one (put_d u d v) us (if b then n + 1 else n)))"

text \<open>The first bytes of a packet in one buffer; \<^verbatim>\<open>bcopy\<close> is asked for no more than there are.\<close>

definition bcopy_from :: "u8 list \<Rightarrow> nat \<Rightarrow> string + u8 list" where
  "bcopy_from pkt n = (if n \<le> length pkt then Inr (take n pkt) else Inl ''bcopy'')"

definition bpf_tap :: "tap_env \<Rightarrow> bpf_dev \<Rightarrow> bpf_if \<Rightarrow> u8 list \<Rightarrow> u32 \<Rightarrow> string + bpf_dev \<times> nat" where
  "bpf_tap te v bp pkt direction =
     tap_loop
       (\<lambda>d. tap_one te (bif_hdrlen bp) direction d (tap_filter te d (Contig pkt) (length pkt) (length pkt)) (length pkt) (bcopy_from pkt))
       v (bif_dlist bp) 0"

text \<open>
  The same for an mbuf chain.  \<open>qid\<close> is the queue in the packet header, if the first mbuf has
  room for one; the number of drops stands for the flag on the packet.  \<open>cpfn\<close> copies the first
  bytes of the packet, in place of \<open>bpf_mcopy\<close>.
\<close>

definition bpf_mtap0 :: "tap_env \<Rightarrow> bpf_dev \<Rightarrow> bpf_if \<Rightarrow> mstore \<Rightarrow> mbuf list \<Rightarrow> u32 option \<Rightarrow> u32 \<Rightarrow> (nat \<Rightarrow> string + u8 list) option
    \<Rightarrow> string + bpf_dev \<times> nat" where
  "bpf_mtap0 te v bp st ms qid direction cpfn =
     (if ms = [] then Inr (v, 0)
      else
        let cpfn = (case cpfn of None \<Rightarrow> bpf_mcopy st ms | Some f \<Rightarrow> f);
            pktlen = chain_len ms
        in tap_loop
             (\<lambda>d. tap_one te (bif_hdrlen bp) direction d
                    (if bd_queue d \<noteq> 0
                     then (case qid of None \<Rightarrow> Inl ''read beyond the header''
                           | Some q \<Rightarrow> if q \<noteq> bd_queue d then Inr 0 else tap_filter te d (Chain st ms) pktlen 0)
                     else tap_filter te d (Chain st ms) pktlen 0) pktlen cpfn)
             v (bif_dlist bp) 0)"

definition bpf_mtap :: "tap_env \<Rightarrow> bpf_dev \<Rightarrow> bpf_if \<Rightarrow> mstore \<Rightarrow> mbuf list \<Rightarrow> u32 \<Rightarrow> u32 \<Rightarrow> string + bpf_dev \<times> nat" where
  "bpf_mtap te v bp st ms qid direction = bpf_mtap0 te v bp st ms (Some qid) direction None"

text \<open>
  A header in front of the chain: an mbuf that is nothing but the structure at its start.  Its
  own buffer stands for the memory that holds the header, of at most \<open>MLEN\<close> bytes.
\<close>

definition dummy_mbuf :: "u8 list \<Rightarrow> mbuf" where
  "dummy_mbuf data = \<lparr>m_type = 0, m_flags = 0, m_data = 0, m_len = length data, m_dat = data @ replicate (MLEN - length data) 0,
     m_pkthdr = \<lparr>ph_len = 0, ph_tags = [], ph_tagsset = 0, ph_prio = 0\<rparr>, m_ext = 0\<rparr>"

definition bpf_mtap_hdr :: "tap_env \<Rightarrow> bpf_dev \<Rightarrow> bpf_if \<Rightarrow> u8 list \<Rightarrow> mstore \<Rightarrow> mbuf list \<Rightarrow> u32 \<Rightarrow> u32
    \<Rightarrow> (nat \<Rightarrow> string + u8 list) option \<Rightarrow> string + bpf_dev \<times> nat" where
  "bpf_mtap_hdr te v bp data st ms qid direction cpfn =
     (if data \<noteq> [] then
        (case bpf_mtap0 te v bp st (dummy_mbuf data # ms) None direction cpfn of
           Inl e \<Rightarrow> Inl e
         | Inr (v, n) \<Rightarrow> if ms = [] then Inl ''null pointer'' else Inr (v, n))
      else bpf_mtap0 te v bp st ms (Some qid) direction cpfn)"

definition be32 :: "u32 \<Rightarrow> u8 list" where "be32 w = rev (le32 w)"
definition be16 :: "u16 \<Rightarrow> u8 list" where "be16 w = rev (le16 w)"

definition bpf_mtap_af :: "tap_env \<Rightarrow> bpf_dev \<Rightarrow> bpf_if \<Rightarrow> u32 \<Rightarrow> mstore \<Rightarrow> mbuf list \<Rightarrow> u32 \<Rightarrow> u32 \<Rightarrow> string + bpf_dev \<times> nat" where
  "bpf_mtap_af te v bp af st ms qid direction = bpf_mtap_hdr te v bp (be32 af) st ms qid direction None"

definition ETHER_HDR_LEN :: nat where "ETHER_HDR_LEN = 14"

text \<open>
  \<open>vtag\<close> is the VLAN tag in the packet header, if the packet has one.  The Ethernet header is
  at the start of the first mbuf.
\<close>

definition bpf_mtap_ether :: "tap_env \<Rightarrow> bpf_dev \<Rightarrow> bpf_if \<Rightarrow> mstore \<Rightarrow> mbuf list \<Rightarrow> u16 option \<Rightarrow> u32 \<Rightarrow> u32 \<Rightarrow> string + bpf_dev \<times> nat" where
  "bpf_mtap_ether te v bp st ms vtag qid direction =
     (case vtag of
        None \<Rightarrow> bpf_mtap te v bp st ms qid direction
      | Some tag \<Rightarrow>
          (case ms of
             [] \<Rightarrow> Inl ''null pointer''
           | m # ns \<Rightarrow>
               let eh = mem_read (m_buf st m) (m_data m) ETHER_HDR_LEN;
                   evh = take 12 eh @ be16 0x8100 @ be16 tag @ drop 12 eh;
                   m = m\<lparr>m_len := (m_len m + 2 ^ 32 - ETHER_HDR_LEN) mod 2 ^ 32, m_data := m_data m + ETHER_HDR_LEN\<rparr>
               in bpf_mtap_hdr te v bp evh st (m # ns) qid direction None))"

end
