(* ===== verification/Bpf_Dev_Inv.thy ===== *)
theory Bpf_Dev_Inv
  imports Bpf_Dev
begin

text \<open>
  The invariant of the packet filter device, and that the operations keep it: attached
  descriptors have their buffers and are on the list of their interface, filters are checked
  programs, and sizes are in range.
\<close>

subsection \<open>The invariant\<close>

definition filter_ok :: "bpf_insn list option \<Rightarrow> bool" where
  "filter_ok f \<longleftrightarrow> (\<forall>p. f = Some p \<longrightarrow> (\<exists>maxbuf. bpf_validate maxbuf p))"

lemma filter_returns:
  assumes "filter_ok f" "readable p n"
  shows "\<exists>r. bpf_filter f p wirelen n ubl ubr = Some (Ret r)"
proof (cases f)
  case None
  then show ?thesis by (simp add: bpf_filter_def)
next
  case (Some prog)
  then obtain maxbuf where v: "bpf_validate maxbuf prog" using assms(1) by (auto simp: filter_ok_def)
  from run_returns [OF v env_ok_readable [OF assms(2)] bpf_ok_start [OF v]] show ?thesis using Some by (simp add: bpf_filter_run)
qed

definition has_bufs :: "bpf_d \<Rightarrow> bool" where
  "has_bufs d \<longleftrightarrow> (\<exists>ps. pending d ps)"

text \<open>The part that concerns the descriptor alone; \<open>op\<close> says whether it is open.\<close>

definition core_ok :: "bpf_d \<Rightarrow> bool \<Rightarrow> bool" where
  "core_ok d op \<longleftrightarrow> filter_ok (bd_rfilter d) \<and> filter_ok (bd_wfilter d) \<and> 32 \<le> bd_bufsize d \<and> bd_bufsize d < 2 ^ 31 \<and> (op \<or> bd_bif d = None) \<and>
     (if bd_bif d = None then op \<longrightarrow> bd_sbuf d = None \<and> bd_hbuf d = None else has_bufs d)"

definition link_ok :: "bpf_dev \<Rightarrow> nat \<Rightarrow> bpf_d \<Rightarrow> bool" where
  "link_ok v u d \<longleftrightarrow> (\<forall>i. bd_bif d = Some i \<longrightarrow> (\<exists>bp\<in>set (bpf_iflist v). bif_id bp = i \<and> u \<in> set (bif_dlist bp)))"

definition if_ok :: "bpf_dev \<Rightarrow> bpf_if \<Rightarrow> bool" where
  "if_ok v bp \<longleftrightarrow> 18 \<le> bif_hdrlen bp \<and> bif_hdrlen bp \<le> 32 \<and> distinct (bif_dlist bp) \<and>
     (\<forall>u\<in>set (bif_dlist bp). \<exists>d. bpf_d_list v u = Some d \<and> bd_bif d = Some (bif_id bp))"

definition dev_ok :: "bpf_dev \<Rightarrow> nat set \<Rightarrow> bool" where
  "dev_ok v os \<longleftrightarrow> 32 \<le> bpf_bufsize v \<and> bpf_bufsize v < 2 ^ 31 \<and> 32 \<le> bpf_maxbufsize v \<and> bpf_maxbufsize v < 2 ^ 31 \<and>
     distinct (map bif_id (bpf_iflist v)) \<and> (\<forall>bp\<in>set (bpf_iflist v). bif_id bp < bif_count v \<and> if_ok v bp) \<and>
     (\<forall>u d. bpf_d_list v u = Some d \<longrightarrow> core_ok d (u \<in> os) \<and> link_ok v u d) \<and> (\<forall>u\<in>os. bpf_d_list v u \<noteq> None)"

text \<open>What the device relies on: \<^verbatim>\<open>malloc\<close> gives what is asked for, and promiscuous mode can be left.\<close>

definition sys_ok :: "bpf_sys \<Rightarrow> bool" where
  "sys_ok sys \<longleftrightarrow> (\<forall>n. length (sys_malloc sys n) = n) \<and> (\<forall>i. ifpromisc sys i False \<in> {0, BPF_EINVAL, ENODEV})"

lemma dev_okD:
  assumes "dev_ok v os"
  shows "bpf_d_list v u = Some d \<Longrightarrow> core_ok d (u \<in> os)" "bpf_d_list v u = Some d \<Longrightarrow> link_ok v u d"
    "bp \<in> set (bpf_iflist v) \<Longrightarrow> if_ok v bp" "u \<in> os \<Longrightarrow> \<exists>d. bpf_d_list v u = Some d"
  using assms by (auto simp: dev_ok_def)

lemma find_if_Some: "find_if v i = Some bp \<Longrightarrow> bp \<in> set (bpf_iflist v) \<and> bif_id bp = i"
  by (auto simp: find_if_def find_Some_iff)

lemma find_if_unique: "dev_ok v os \<Longrightarrow> bp \<in> set (bpf_iflist v) \<Longrightarrow> find_if v (bif_id bp) = Some bp"
proof -
  assume d: "dev_ok v os" "bp \<in> set (bpf_iflist v)"
  then have "find_if v (bif_id bp) \<noteq> None" by (auto simp: find_if_def find_None_iff)
  then obtain bp' where b: "find_if v (bif_id bp) = Some bp'" by blast
  then have "bp' = bp" using find_if_Some [OF b] d by (auto simp: dev_ok_def distinct_map inj_on_def)
  then show ?thesis using b by simp
qed

lemma attached_if:
  assumes "dev_ok v os" "bpf_d_list v u = Some d" "bd_bif d = Some i"
  shows "\<exists>bp. find_if v i = Some bp \<and> u \<in> set (bif_dlist bp) \<and> bp \<in> set (bpf_iflist v) \<and> bif_id bp = i"
  using dev_okD(2) [OF assms(1,2)] assms(3) find_if_unique [OF assms(1)] by (auto simp: link_ok_def)

subsection \<open>Operations on one descriptor\<close>

lemma put_d_simps [simp]:
  "bpf_d_list (put_d u d v) = (bpf_d_list v)(u := Some d)" "bpf_iflist (put_d u d v) = bpf_iflist v"
  "bif_count (put_d u d v) = bif_count v" "bpf_bufsize (put_d u d v) = bpf_bufsize v" "bpf_maxbufsize (put_d u d v) = bpf_maxbufsize v"
  by (simp_all add: put_d_def)

lemma dev_ok_put:
  assumes "dev_ok v os" "bpf_d_list v u = Some d" "bd_bif d' = bd_bif d" "core_ok d' (u \<in> os)"
  shows "dev_ok (put_d u d' v) os"
proof -
  have "if_ok (put_d u d' v) bp" if "bp \<in> set (bpf_iflist v)" for bp
    using dev_okD(3) [OF assms(1) that] assms(2,3) by (fastforce simp: if_ok_def)
  moreover have "link_ok (put_d u d' v) w e" if "bpf_d_list (put_d u d' v) w = Some e" for w e
    using dev_okD(2) [OF assms(1), of w] that assms(2,3) by (auto simp: link_ok_def split: if_splits)
  ultimately show ?thesis using assms by (auto simp: dev_ok_def split: if_splits)
qed

lemma bufs_kept_reset: "has_bufs d \<Longrightarrow> has_bufs (bpf_reset_d d)"
  using bufs_reset unfolding has_bufs_def pending_def by blast

lemma reset_fields [simp]:
  "bd_bif (bpf_reset_d d) = bd_bif d" "bd_rfilter (bpf_reset_d d) = bd_rfilter d" "bd_wfilter (bpf_reset_d d) = bd_wfilter d"
  "bd_bufsize (bpf_reset_d d) = bd_bufsize d" "bd_sbuf (bpf_reset_d d) = bd_sbuf d" "bd_hbuf (bpf_reset_d d) = None"
  by (simp_all add: bpf_reset_d_def Let_def)

lemma core_reset: "core_ok d op \<Longrightarrow> core_ok (bpf_reset_d d) op"
  using bufs_kept_reset by (simp add: core_ok_def)

text \<open>Fields that the buffers do not depend on.\<close>

definition same_bufs_d :: "bpf_d \<Rightarrow> bpf_d \<Rightarrow> bool" where
  "same_bufs_d d d' \<longleftrightarrow> bd_sbuf d' = bd_sbuf d \<and> bd_hbuf d' = bd_hbuf d \<and> bd_fbuf d' = bd_fbuf d \<and> bd_slen d' = bd_slen d \<and>
     bd_hlen d' = bd_hlen d \<and> bd_bufsize d' = bd_bufsize d"

lemma pending_same: "same_bufs_d d d' \<Longrightarrow> pending d' ps = pending d ps"
  unfolding pending_def bpf_bufs_def same_bufs_d_def by (cases "bd_hbuf d") simp_all

lemma has_bufs_same: "same_bufs_d d d' \<Longrightarrow> has_bufs d' = has_bufs d"
  unfolding has_bufs_def using pending_same by blast

lemma core_same:
  "core_ok d op \<Longrightarrow> same_bufs_d d d' \<Longrightarrow> bd_bif d' = bd_bif d \<Longrightarrow> filter_ok (bd_rfilter d') \<Longrightarrow> filter_ok (bd_wfilter d') \<Longrightarrow> core_ok d' op"
  using has_bufs_same [of d d'] unfolding core_ok_def by (simp add: same_bufs_d_def)

lemma core_setf: "core_ok d op \<Longrightarrow> core_ok (fst (bpf_setf maxbuf d fp write)) op"
proof -
  assume c: "core_ok d op"
  have s: "core_ok (set_filter write f d) op" if "filter_ok f" for f
    by (rule core_same [OF c]) (use c that in \<open>auto simp: set_filter_def same_bufs_d_def core_ok_def\<close>)
  have "filter_ok None" "bpf_validate maxbuf p \<Longrightarrow> filter_ok (Some p)" for p by (auto simp: filter_ok_def)
  then show ?thesis using c s core_reset by (auto simp: bpf_setf_def Let_def split: option.splits)
qed

lemma setf_bif: "bd_bif (fst (bpf_setf maxbuf d fp write)) = bd_bif d"
  by (auto simp: bpf_setf_def Let_def set_filter_def split: option.splits)

lemma ioctl_d_ok:
  assumes c: "core_ok d op" and v: "32 \<le> bpf_maxbufsize v" "bpf_maxbufsize v < 2 ^ 31"
  shows "core_ok (fst (ioctl_d sys v d cmd ruid euid)) op \<and> bd_bif (fst (ioctl_d sys v d cmd ruid euid)) = bd_bif d"
proof -
  have f: "filter_ok (bd_rfilter d)" "filter_ok (bd_wfilter d)" using c by (simp_all add: core_ok_def)
  show ?thesis
  proof (cases cmd)
    case (BIOCSBLEN n)
    then show ?thesis using c v by (auto simp: ioctl_d_def core_ok_def BPF_MINBUFSIZE_def Let_def)
  next
    case (BIOCSETF fp)
    then show ?thesis using core_setf [OF c] setf_bif by (simp add: ioctl_d_def split_beta)
  next
    case (BIOCSETWF fp)
    then show ?thesis using core_setf [OF c] setf_bif by (simp add: ioctl_d_def split_beta)
  next
    case BIOCFLUSH
    then show ?thesis using core_reset [OF c] by (simp add: ioctl_d_def)
  qed (use c f in \<open>simp_all add: ioctl_d_def core_same [OF c] same_bufs_d_def\<close>)
qed

subsection \<open>Attaching and detaching\<close>

lemma dlist_remove_ok: "u \<in> set us \<Longrightarrow> distinct us \<Longrightarrow> \<exists>ys. dlist_remove u us = Inr ys \<and> set ys = set us - {u} \<and> distinct ys"
proof (induction us)
  case (Cons x xs)
  show ?case
  proof (cases "x = u")
    case True
    then show ?thesis using Cons.prems by auto
  next
    case False
    then have u: "u \<in> set xs" "xs \<noteq> []" using Cons.prems by auto
    then obtain ys where "dlist_remove u xs = Inr ys" "set ys = set xs - {u}" "distinct ys" using Cons by auto
    then show ?thesis using False u Cons.prems by auto
  qed
qed simp

lemma upd_if_simps [simp]:
  "bpf_d_list (upd_if i f v) = bpf_d_list v" "bif_count (upd_if i f v) = bif_count v" "bpf_bufsize (upd_if i f v) = bpf_bufsize v"
  "bpf_maxbufsize (upd_if i f v) = bpf_maxbufsize v"
  by (simp_all add: upd_if_def)

text \<open>
  A detached descriptor that keeps its buffers: everything holds but for this descriptor, which
  is on no list.
\<close>

definition loose_ok :: "bpf_dev \<Rightarrow> nat set \<Rightarrow> nat \<Rightarrow> bpf_d \<Rightarrow> bool" where
  "loose_ok v os u d \<longleftrightarrow> dev_ok v (os - {u}) \<and> bpf_d_list v u = Some d \<and> bd_bif d = None \<and> core_ok d False"

lemma core_closed: "core_ok d op \<Longrightarrow> bd_bif d = None \<Longrightarrow> core_ok d False"
  by (auto simp: core_ok_def)

text \<open>A change of the list of interface \<open>i\<close> and of the descriptor \<open>u\<close> that fit together.\<close>

lemma dev_ok_relink:
  assumes ok: "dev_ok v os" and f: "\<And>b. bif_id (f b) = bif_id b" "\<And>b. bif_hdrlen (f b) = bif_hdrlen b"
    and l: "\<And>b. b \<in> set (bpf_iflist v) \<Longrightarrow> bif_id b = i \<Longrightarrow> distinct (bif_dlist (f b)) \<and> set (bif_dlist (f b)) - {u} = set (bif_dlist b) - {u} \<and>
      (u \<in> set (bif_dlist (f b)) \<longleftrightarrow> bd_bif d = Some i)"
    and o: "\<And>b. b \<in> set (bpf_iflist v) \<Longrightarrow> bif_id b \<noteq> i \<Longrightarrow> u \<notin> set (bif_dlist b)"
    and d: "core_ok d (u \<in> os')" "bd_bif d = None \<or> bd_bif d = Some i \<and> i \<in> bif_id ` set (bpf_iflist v)" and os: "os' - {u} = os - {u}"
  shows "dev_ok (upd_if i f (put_d u d v)) os'"
proof -
  let ?v = "upd_if i f (put_d u d v)"
  have ifl: "bpf_iflist ?v = map (\<lambda>b. if bif_id b = i then f b else b) (bpf_iflist v)" by (simp add: upd_if_def)
  have ids: "map bif_id (bpf_iflist ?v) = map bif_id (bpf_iflist v)" unfolding ifl using f(1) by auto
  have ifs: "bif_id b < bif_count v \<and> if_ok ?v b" if bm: "b \<in> set (bpf_iflist ?v)" for b
  proof -
    obtain c where c: "c \<in> set (bpf_iflist v)" "b = (if bif_id c = i then f c else c)" using bm unfolding ifl by auto
    have k: "if_ok v c" "bif_id c < bif_count v" using ok c(1) by (auto simp: dev_ok_def)
    have ex: "\<exists>e. bpf_d_list ?v w = Some e \<and> bd_bif e = Some (bif_id c)" if w: "w \<in> set (bif_dlist b)" for w
    proof (cases "w = u")
      case True
      then have "bif_id c = i" using w c(2) o [OF c(1)] by (cases "bif_id c = i") simp_all
      then show ?thesis using True w c l [OF c(1)] by simp
    next
      case False
      then have "w \<in> set (bif_dlist c)" using w c l [OF c(1)] by (auto split: if_splits)
      then show ?thesis using k(1) False by (auto simp: if_ok_def)
    qed
    have b: "distinct (bif_dlist b)" "bif_id b = bif_id c" "bif_hdrlen b = bif_hdrlen c" using c k(1) l [OF c(1)] f by (simp_all add: if_ok_def)
    have "18 \<le> bif_hdrlen c \<and> bif_hdrlen c \<le> 32" using k(1) by (simp add: if_ok_def)
    then show ?thesis using k(2) b ex unfolding if_ok_def by auto
  qed
  have ds: "core_ok e (w \<in> os') \<and> link_ok ?v w e" if e: "bpf_d_list ?v w = Some e" for w e
  proof (cases "w = u")
    case True
    have "\<exists>b\<in>set (bpf_iflist ?v). bif_id b = i \<and> u \<in> set (bif_dlist b)" if "bd_bif d = Some i"
    proof -
      obtain b where "b \<in> set (bpf_iflist v)" "bif_id b = i" using d(2) \<open>bd_bif d = Some i\<close> by auto
      then show ?thesis using l [of b] f(1) \<open>bd_bif d = Some i\<close> unfolding ifl by (intro bexI [of _ "f b"]) auto
    qed
    then show ?thesis using True e d by (auto simp: link_ok_def)
  next
    case False
    then have e: "bpf_d_list v w = Some e" using e by simp
    have "\<exists>b\<in>set (bpf_iflist ?v). bif_id b = j \<and> w \<in> set (bif_dlist b)" if j: "bd_bif e = Some j" for j
    proof -
      obtain b where b: "b \<in> set (bpf_iflist v)" "bif_id b = j" "w \<in> set (bif_dlist b)" using dev_okD(2) [OF ok e] j by (auto simp: link_ok_def)
      let ?b = "if bif_id b = i then f b else b"
      have "?b \<in> set (bpf_iflist ?v)" unfolding ifl using b(1) by auto
      moreover have "bif_id ?b = j" "w \<in> set (bif_dlist ?b)" using b f(1) l [OF b(1)] False by auto
      ultimately show ?thesis by blast
    qed
    moreover have "(w \<in> os') = (w \<in> os)" using os False by auto
    ultimately show ?thesis using dev_okD(1) [OF ok e] by (simp add: link_ok_def)
  qed
  have "\<forall>w\<in>os'. bpf_d_list ?v w \<noteq> None" using os ok by (auto simp: dev_ok_def)
  then show ?thesis using ok ifs ds ids unfolding dev_ok_def by simp
qed

lemma detachd_ok:
  assumes sys: "sys_ok sys" and ok: "dev_ok v os" and d: "bpf_d_list v u = Some d" "bd_bif d \<noteq> None"
  defines "d' \<equiv> d\<lparr>bd_promisc := False, bd_bif := None\<rparr>"
  shows "\<exists>v'. bpf_detachd sys v u d = Inr v' \<and> loose_ok v' os u d' \<and> has_bufs d' \<and> map bif_id (bpf_iflist v') = map bif_id (bpf_iflist v)"
proof -
  obtain i where i: "bd_bif d = Some i" using d(2) by blast
  obtain bp where bp: "find_if v i = Some bp" "u \<in> set (bif_dlist bp)" "bp \<in> set (bpf_iflist v)" "bif_id bp = i" using attached_if [OF ok d(1) i] by blast
  obtain us where us: "dlist_remove u (bif_dlist bp) = Inr us" "set us = set (bif_dlist bp) - {u}" "distinct us"
    using dlist_remove_ok [OF bp(2)] dev_okD(3) [OF ok bp(3)] by (auto simp: if_ok_def)
  let ?f = "\<lambda>bp. bp\<lparr>bif_dlist := us, bif_driver := (if us = [] then False else bif_driver bp)\<rparr>"
  let ?v = "upd_if i ?f (put_d u d' v)"
  have r: "bpf_detachd sys v u d = Inr ?v"
    using i bp us(1) sys by (auto simp: bpf_detachd_def sys_ok_def Let_def d'_def)
  have uniq: "b = bp" if "b \<in> set (bpf_iflist v)" "bif_id b = i" for b using that find_if_unique [OF ok] bp(1) by fastforce
  have sb: "same_bufs_d d d'" by (simp add: same_bufs_d_def d'_def)
  have core: "core_ok d' False" "has_bufs d'"
    using dev_okD(1) [OF ok d(1)] i has_bufs_same [OF sb] by (auto simp: core_ok_def d'_def)
  have out: "u \<notin> set (bif_dlist b)" if "b \<in> set (bpf_iflist v)" "bif_id b \<noteq> i" for b
    using dev_okD(3) [OF ok that(1)] that(2) d(1) i by (auto simp: if_ok_def)
  have "dev_ok ?v (os - {u})"
    by (rule dev_ok_relink [OF ok]) (use us uniq out core in \<open>auto simp: d'_def\<close>)
  moreover have "map bif_id (bpf_iflist ?v) = map bif_id (bpf_iflist v)" by (auto simp: upd_if_def)
  ultimately show ?thesis using r core by (auto simp: loose_ok_def d'_def)
qed

lemma attachd_ok:
  assumes lo: "loose_ok v os u d" and bufs: "has_bufs d" and i: "i \<in> bif_id ` set (bpf_iflist v)" and u: "u \<in> os"
  shows "dev_ok (bpf_attachd v u d i) os" "bpf_d_list (bpf_attachd v u d i) u = Some (d\<lparr>bd_bif := Some i\<rparr>)"
proof -
  let ?d = "d\<lparr>bd_bif := Some i\<rparr>" let ?f = "\<lambda>bp. bp\<lparr>bif_dlist := u # bif_dlist bp, bif_driver := True\<rparr>"
  have ok: "dev_ok v (os - {u})" and d: "bpf_d_list v u = Some d" "bd_bif d = None" "core_ok d False" using lo by (simp_all add: loose_ok_def)
  have "same_bufs_d d ?d" by (simp add: same_bufs_d_def)
  then have core: "core_ok ?d (u \<in> os)" using d(3) bufs u has_bufs_same [of d ?d] by (simp add: core_ok_def)
  have out: "u \<notin> set (bif_dlist b) \<and> distinct (bif_dlist b)" if "b \<in> set (bpf_iflist v)" for b
    using dev_okD(3) [OF ok that(1)] d(1,2) by (auto simp: if_ok_def)
  show "dev_ok (bpf_attachd v u d i) os" unfolding bpf_attachd_def
    by (rule dev_ok_relink [OF ok]) (use out core i u in auto)
  show "bpf_d_list (bpf_attachd v u d i) u = Some ?d" by (simp add: bpf_attachd_def)
qed

subsection \<open>Every operation keeps the invariant\<close>

lemma pick_if_Some: "pick_if sys name bps c = Some bp \<Longrightarrow> bp \<in> set bps \<or> c = Some bp"
  by (induction sys name bps c rule: pick_if.induct) (auto split: if_splits option.splits)

lemma alloc_bufs:
  assumes "sys_ok sys" "core_ok d True" "bd_bif d = None"
  shows "has_bufs (bpf_allocbufs (sys_malloc sys) d) \<and> core_ok (bpf_allocbufs (sys_malloc sys) d) False"
proof -
  have "bpf_bufs (bpf_allocbufs (sys_malloc sys) d) [] []" using assms by (auto simp: bpf_bufs_def bpf_allocbufs_def core_ok_def sys_ok_def)
  then show ?thesis using assms(2,3) unfolding has_bufs_def pending_def by (auto simp: core_ok_def bpf_allocbufs_def)
qed

text \<open>Removing the claim that \<open>u\<close> is open.\<close>

lemma dev_ok_close: "dev_ok v os \<Longrightarrow> bpf_d_list v u = Some d \<Longrightarrow> bd_bif d = None \<Longrightarrow> dev_ok v (os - {u})"
proof -
  assume ok: "dev_ok v os" "bpf_d_list v u = Some d" "bd_bif d = None"
  have "core_ok e (w \<in> os - {u})" if "bpf_d_list v w = Some e" for w e
    using dev_okD(1) [OF ok(1) that] core_closed [of d] ok(2,3) that by (cases "w = u") auto
  then show ?thesis using ok(1) by (simp add: dev_ok_def)
qed

lemma reset_ok:
  assumes "dev_ok v os" "bpf_d_list v u = Some d"
  shows "dev_ok (put_d u (bpf_reset_d d) v) os"
  by (rule dev_ok_put [OF assms]) (use core_reset [OF dev_okD(1) [OF assms]] in simp_all)

lemma attach_reset:
  assumes "loose_ok v os u d" "has_bufs d" "i \<in> bif_id ` set (bpf_iflist v)" "u \<in> os"
  shows "dev_ok (put_d u (bpf_reset_d (the (bpf_d_list (bpf_attachd v u d i) u))) (bpf_attachd v u d i)) os"
  using attachd_ok [OF assms] reset_ok by simp

lemma setif_ok:
  assumes sys: "sys_ok sys" and ok: "dev_ok v os" and u: "u \<in> os" and d: "bpf_d_list v u = Some d"
  shows "\<exists>v' e. bpf_setif sys v u d name = Inr (v', e) \<and> dev_ok v' os"
proof (cases "pick_if sys name (bpf_iflist v) None")
  case None
  then show ?thesis using ok by (simp add: bpf_setif_def)
next
  case (Some c)
  have c: "c \<in> set (bpf_iflist v)" using pick_if_Some [OF Some] by simp
  have core: "core_ok d True" using dev_okD(1) [OF ok d] u by simp
  show ?thesis
  proof (cases "bd_bif d")
    case bif: None
    then have sb: "bd_sbuf d = None" using core by (simp add: core_ok_def)
    let ?d = "bpf_allocbufs (sys_malloc sys) d" let ?v = "put_d u ?d v"
    note a = alloc_bufs [OF sys core bif]
    have b: "bd_bif ?d = None" using bif by (simp add: bpf_allocbufs_def)
    have "dev_ok ?v (os - {u})" by (rule dev_ok_put [OF dev_ok_close [OF ok d bif] d]) (use a b bif in simp_all)
    then have lo: "loose_ok ?v os u ?d" using a b by (simp add: loose_ok_def)
    have "bpf_setif sys v u d name = Inr (put_d u (bpf_reset_d (the (bpf_d_list (bpf_attachd ?v u ?d (bif_id c)) u))) (bpf_attachd ?v u ?d (bif_id c)), 0)"
      using Some sb b by (simp add: bpf_setif_def bpfilter_lookup_def Let_def)
    then show ?thesis using attach_reset [OF lo _ _ u, of "bif_id c"] a c by simp
  next
    case (Some j)
    then have bufs: "bd_sbuf d \<noteq> None" "has_bufs d" using core by (auto simp: core_ok_def has_bufs_def pending_def bpf_bufs_def)
    have pd: "put_d u d v = v" using d by (simp add: put_d_def fun_upd_idem)
    show ?thesis
    proof (cases "j = bif_id c")
      case True
      then show ?thesis using Some bufs(1) \<open>pick_if sys name (bpf_iflist v) None = Some c\<close> pd d reset_ok [OF ok d]
        unfolding bpf_setif_def bpfilter_lookup_def Let_def by (simp del: not_None_eq)
    next
      case False
      let ?d = "d\<lparr>bd_promisc := False, bd_bif := None\<rparr>"
      obtain w where w: "bpf_detachd sys v u d = Inr w" "loose_ok w os u ?d" "has_bufs ?d" "map bif_id (bpf_iflist w) = map bif_id (bpf_iflist v)"
        using detachd_ok [OF sys ok d] Some by auto
      have "bif_id c \<in> bif_id ` set (bpf_iflist w)" using c w(4) by (metis imageI list.set_map)
      note ar = attach_reset [OF w(2,3) this u]
      have l: "bpf_d_list w u = Some ?d" using w(2) by (simp add: loose_ok_def)
      have "bpf_setif sys v u d name = Inr (put_d u (bpf_reset_d (the (bpf_d_list (bpf_attachd w u ?d (bif_id c)) u))) (bpf_attachd w u ?d (bif_id c)), 0)"
        using Some bufs(1) False \<open>pick_if sys name (bpf_iflist v) None = Some c\<close> pd w(1) l
        unfolding bpf_setif_def bpfilter_lookup_def Let_def by (simp del: not_None_eq)
      then show ?thesis using ar by simp
    qed
  qed
qed

lemma setdlt_ok:
  assumes sys: "sys_ok sys" and ok: "dev_ok v os" and u: "u \<in> os" and d: "bpf_d_list v u = Some d" "bd_bif d = Some i" "find_if v i = Some cur"
  shows "\<exists>v' e. bpf_setdlt sys v u d dlt = Inr (v', e) \<and> dev_ok v' os"
proof (cases "bif_dlt cur = dlt \<or> find (\<lambda>bp. bif_ifp bp = bif_ifp cur \<and> bif_dlt bp = dlt) (bpf_iflist v) = None")
  case True
  then show ?thesis using ok d by (auto simp: bpf_setdlt_def split: option.splits)
next
  case False
  then obtain bp where bp: "find (\<lambda>bp. bif_ifp bp = bif_ifp cur \<and> bif_dlt bp = dlt) (bpf_iflist v) = Some bp" "bif_dlt cur \<noteq> dlt" by blast
  let ?d = "d\<lparr>bd_promisc := False, bd_bif := None\<rparr>"
  obtain w where w: "bpf_detachd sys v u d = Inr w" "loose_ok w os u ?d" "has_bufs ?d" "map bif_id (bpf_iflist w) = map bif_id (bpf_iflist v)"
    using detachd_ok [OF sys ok d(1)] d(2) by auto
  have "bp \<in> set (bpf_iflist v)" using bp(1) by (auto simp: find_Some_iff)
  then have "bif_id bp \<in> bif_id ` set (bpf_iflist w)" using w(4) by (metis imageI list.set_map)
  note ar = attach_reset [OF w(2,3) this u]
  have l: "bpf_d_list w u = Some ?d" using w(2) by (simp add: loose_ok_def)
  show ?thesis using ar d bp w(1) l by (simp add: bpf_setdlt_def bpfilter_lookup_def Let_def)
qed

lemma ioctl_ok:
  assumes sys: "sys_ok sys" and ok: "dev_ok v os" and u: "u \<in> os"
  shows "\<exists>v' e out. bpfioctl sys v u cmd root ruid euid = Inr (v', e, out) \<and> dev_ok v' os"
proof -
  obtain d where d: "bpf_d_list v u = Some d" using dev_okD(4) [OF ok u] by blast
  have core: "core_ok d (u \<in> os)" using dev_okD(1) [OF ok d] .
  consider "bd_locked d \<and> \<not> root \<and> \<not> allowed_locked cmd" | "\<not> (bd_locked d \<and> \<not> root \<and> \<not> allowed_locked cmd)" "needs_if cmd"
    | name where "\<not> (bd_locked d \<and> \<not> root \<and> \<not> allowed_locked cmd)" "cmd = BIOCSETIF name"
    | "\<not> (bd_locked d \<and> \<not> root \<and> \<not> allowed_locked cmd)" "\<not> needs_if cmd" "\<forall>name. cmd \<noteq> BIOCSETIF name" by blast
  then show ?thesis
  proof cases
    case 1
    then show ?thesis using d ok by (simp add: bpfioctl_def bpfilter_lookup_def)
  next
    case 2
    show ?thesis
    proof (cases "bd_bif d")
      case None
      then show ?thesis using 2 d ok unfolding bpfioctl_def bpfilter_lookup_def by auto
    next
      case (Some i)
      obtain bp where bp: "find_if v i = Some bp" using attached_if [OF ok d Some] by blast
      have pr: "dev_ok (put_d u (d\<lparr>bd_promisc := True\<rparr>) v) os"
        by (rule dev_ok_put [OF ok d]) (use core_same [OF core] core in \<open>simp_all add: same_bufs_d_def core_ok_def\<close>)
      have sd: "\<exists>v' e out. ioctl_if sys v u d bp (BIOCSDLT dlt) = Inr (v', e, out) \<and> dev_ok v' os" for dlt
        using setdlt_ok [OF sys ok u d Some bp, of dlt] by (auto simp: ioctl_if_def)
      have "\<exists>v' e out. ioctl_if sys v u d bp cmd = Inr (v', e, out) \<and> dev_ok v' os"
        using ok pr sd by (cases cmd) (auto simp: ioctl_if_def split_beta Let_def)
      then show ?thesis using 2 d Some bp unfolding bpfioctl_def bpfilter_lookup_def by auto
    qed
  next
    case (3 name)
    have "\<not> needs_if cmd" using 3 by (simp add: needs_if_def)
    then show ?thesis using 3 d setif_ok [OF sys ok u d, of name] by (auto simp: bpfioctl_def bpfilter_lookup_def)
  next
    case 4
    have m: "32 \<le> bpf_maxbufsize v" "bpf_maxbufsize v < 2 ^ 31" using ok by (simp_all add: dev_ok_def)
    note i = ioctl_d_ok [OF core m, of sys cmd ruid euid]
    have "bpfioctl sys v u cmd root ruid euid =
        (let (d, e, out) = ioctl_d sys v d cmd ruid euid in Inr (put_d u d v, e, out))"
      using 4 d unfolding bpfioctl_def bpfilter_lookup_def by (cases cmd) auto
    then show ?thesis using dev_ok_put [OF ok d] i by (simp add: split_beta)
  qed
qed

end
