(* ===== verification/Bpf_Dev_Tap.thy ===== *)
theory Bpf_Dev_Tap
  imports Bpf_Dev_Inv
begin

text \<open>
  The taps of the packet filter device: each listener gets the part of the packet its filter
  asks for, and an mbuf chain is treated like its bytes.
\<close>

subsection \<open>The verdict of a filter\<close>

lemma tap_filter_ok:
  assumes "filter_ok (bd_rfilter d)" "readable p (word_of_nat buflen)"
  shows "\<exists>r. tap_filter te d p wirelen buflen = Inr r"
  using filter_returns [OF assms, of "word_of_nat wirelen" "te_ubl te" "te_ubr te"] by (auto simp: tap_filter_def)

subsection \<open>One listener\<close>

text \<open>What a packet leaves as it is.\<close>

definition same_id_d :: "bpf_d \<Rightarrow> bpf_d \<Rightarrow> bool" where
  "same_id_d d d' \<longleftrightarrow> bd_bif d' = bd_bif d \<and> bd_rfilter d' = bd_rfilter d \<and> bd_wfilter d' = bd_wfilter d \<and> bd_bufsize d' = bd_bufsize d \<and>
     bd_ref d' = bd_ref d \<and> bd_queue d' = bd_queue d"

text \<open>The same with the count of packets.\<close>

definition same_rcount_d :: "bpf_d \<Rightarrow> bpf_d \<Rightarrow> bool" where
  "same_rcount_d d d' \<longleftrightarrow> same_id_d d d' \<and> bd_rcount d' = bd_rcount d"

lemma same_rcount_trans: "same_rcount_d a b \<Longrightarrow> same_rcount_d b c \<Longrightarrow> same_rcount_d a c"
  by (simp add: same_rcount_d_def same_id_d_def)

lemma same_rcount_parts:
  "same_rcount_d d d" "same_rcount_d d (bpf_wakeup d)" "same_rcount_d d (bpf_wakeup (ROTATE_BUFFERS d))" "same_rcount_d d (catch_timeout ticks d)"
  "same_rcount_d d (d\<lparr>bd_dcount := n\<rparr>)"
  by (simp_all add: same_rcount_d_def same_id_d_def bpf_wakeup_def ROTATE_BUFFERS_def catch_timeout_def)

lemma same_rcount_store: "catch_store hdrlen d pktlen totlen curlen cpfn tv = Inr d' \<Longrightarrow> same_rcount_d d d'"
  by (auto simp: catch_store_def same_rcount_d_def same_id_d_def Let_def split: if_splits option.splits sum.splits)

lemma same_rcount_finish:
  assumes "same_rcount_d d e"
    "(case catch_store hdrlen e pktlen t k cpfn tv of Inl x \<Rightarrow> Inl x
      | Inr d \<Rightarrow> let d = (if bd_immediate d \<noteq> 0 then bpf_wakeup d else d) in Inr (catch_timeout ticks d)) = Inr d'"
  shows "same_rcount_d d d'"
proof (cases "catch_store hdrlen e pktlen t k cpfn tv")
  case (Inr d2)
  then have "same_rcount_d d d2" using same_rcount_store assms(1) same_rcount_trans by blast
  then have "same_rcount_d d (if bd_immediate d2 \<noteq> 0 then bpf_wakeup d2 else d2)" using same_rcount_trans same_rcount_parts(2) by presburger
  then have "same_rcount_d d (catch_timeout ticks (if bd_immediate d2 \<noteq> 0 then bpf_wakeup d2 else d2))" using same_rcount_trans same_rcount_parts(4) by blast
  then show ?thesis using assms(2) Inr by (simp add: Let_def)
qed (use assms(2) in simp)

lemma same_catch:
  assumes c: "bpf_catchpacket hdrlen ticks d pktlen snaplen cpfn tv = Inr d'"
  shows "same_rcount_d d d'"
proof -
  define t where "t = catch_len hdrlen (bd_bufsize d) pktlen snaplen"
  let ?k = "BPF_WORDALIGN (bd_slen d)" and ?fin = "\<lambda>e k. case catch_store hdrlen e pktlen t k cpfn tv of Inl x \<Rightarrow> Inl x
      | Inr d \<Rightarrow> let d = (if bd_immediate d \<noteq> 0 then bpf_wakeup d else d) in Inr (catch_timeout ticks d)"
  consider "?k + t > bd_bufsize d" "bd_fbuf d = None" | "?k + t > bd_bufsize d" "bd_fbuf d \<noteq> None" | "\<not> ?k + t > bd_bufsize d" by blast
  then show ?thesis
  proof cases
    case 1
    then have "d' = d\<lparr>bd_dcount := bd_dcount d + 1\<rparr>" using c unfolding bpf_catchpacket_def t_def by (simp add: Let_def)
    then show ?thesis by (simp add: same_rcount_parts)
  next
    case 2
    then have "bpf_catchpacket hdrlen ticks d pktlen snaplen cpfn tv = ?fin (bpf_wakeup (ROTATE_BUFFERS d)) 0"
      unfolding bpf_catchpacket_def t_def by (simp add: Let_def del: not_None_eq)
    then show ?thesis using same_rcount_finish [OF same_rcount_parts(3)] c by (simp only:)
  next
    case 3
    then have "bpf_catchpacket hdrlen ticks d pktlen snaplen cpfn tv = ?fin d ?k" unfolding bpf_catchpacket_def t_def by (simp add: Let_def)
    then show ?thesis using same_rcount_finish [OF same_rcount_parts(1)] c by (simp only:)
  qed
qed

text \<open>
  What a listener has after a packet of which \<open>slen\<close> bytes were asked for: nothing new, the
  packet behind the others, or one more drop when no buffer is free.
\<close>

definition delivered :: "nat \<Rightarrow> u64 \<times> u64 \<Rightarrow> nat \<Rightarrow> u8 list \<Rightarrow> bpf_d \<Rightarrow> bpf_d \<Rightarrow> bool" where
  "delivered hdrlen tv slen pkt d d' \<longleftrightarrow> bd_rcount d' = bd_rcount d + 1 \<and>
     (if slen = 0 then d' = d\<lparr>bd_rcount := bd_rcount d + 1\<rparr>
      else bd_fbuf d = None \<and> d' = d\<lparr>bd_rcount := bd_rcount d + 1, bd_dcount := bd_dcount d + 1\<rparr> \<or>
           bd_dcount d' = bd_dcount d \<and> (\<forall>ps. pending d ps \<longrightarrow> pending d' (ps @ [captured hdrlen (bd_bufsize d) tv slen pkt])))"

lemma pending_unique: "pending d ps \<Longrightarrow> pending d qs \<Longrightarrow> qs = ps"
  unfolding pending_def using bufs_parse by blast

lemma catch_delivers:
  assumes h: "18 \<le> hdrlen" "hdrlen \<le> 32" and p: "length pkt < 2 ^ 31" and cp: "\<And>n. n \<le> length pkt \<Longrightarrow> cpfn n = Inr (take n pkt)"
    and bufs: "has_bufs d"
  shows "\<exists>d'. bpf_catchpacket hdrlen ticks d (length pkt) slen cpfn tv = Inr d' \<and> has_bufs d' \<and>
    (bd_fbuf d = None \<and> d' = d\<lparr>bd_dcount := bd_dcount d + 1\<rparr> \<or>
     bd_dcount d' = bd_dcount d \<and> (\<forall>ps. pending d ps \<longrightarrow> pending d' (ps @ [captured hdrlen (bd_bufsize d) tv slen pkt])))"
proof -
  let ?r = "captured hdrlen (bd_bufsize d) tv slen pkt"
  obtain ps where ps: "pending d ps" using bufs by (auto simp: has_bufs_def)
  then obtain hs ss where b: "bpf_bufs d hs ss" "hs @ ss = ps" by (auto simp: pending_def)
  obtain d' where d': "bpf_catchpacket hdrlen ticks d (length pkt) slen cpfn tv = Inr d'" "caught d hs ss ?r d'"
    using catchpacket_ok [OF b(1) h p cp] by blast
  from d'(2) consider "bd_fbuf d = None" "d' = d\<lparr>bd_dcount := bd_dcount d + 1\<rparr>" | "pending d' (ps @ [?r])" "bd_dcount d' = bd_dcount d"
    using b(2) unfolding caught_def pending_def by (metis append.assoc)
  then show ?thesis
  proof cases
    case 1
    then have "has_bufs d'" using pending_keeps(3) [OF ps] unfolding has_bufs_def by blast
    then show ?thesis using d'(1) 1 by blast
  next
    case 2
    have "pending d' (qs @ [?r])" if "pending d qs" for qs using pending_unique [OF ps that] 2(1) by simp
    then show ?thesis using d'(1) 2 unfolding has_bufs_def by blast
  qed
qed

text \<open>How much of a packet a listener asks for.\<close>

definition tap_slen :: "u32 \<Rightarrow> bpf_d \<Rightarrow> nat \<Rightarrow> nat" where
  "tap_slen direction d r = (if direction AND ucast (bd_dirfilt d) \<noteq> 0 then 0 else r)"

lemma tap_one_ok:
  assumes h: "18 \<le> hdrlen" "hdrlen \<le> 32" and p: "length pkt < 2 ^ 31" and cp: "\<And>n. n \<le> length pkt \<Longrightarrow> cpfn n = Inr (take n pkt)"
    and bufs: "has_bufs d"
  shows "\<exists>d'. tap_one te hdrlen direction d (Inr r) (length pkt) cpfn = Inr (d', tap_slen direction d r \<noteq> 0 \<and> bd_fildrop d') \<and> has_bufs d' \<and>
    same_id_d d d' \<and> delivered hdrlen (te_tv te) (tap_slen direction d r) pkt d d'"
proof -
  let ?d = "d\<lparr>bd_rcount := bd_rcount d + 1\<rparr>"
  have sb: "same_bufs_d d ?d" by (simp add: same_bufs_d_def)
  have hb: "has_bufs ?d" using bufs has_bufs_same [OF sb] by simp
  show ?thesis
  proof (cases "tap_slen direction d r = 0")
    case True
    then show ?thesis using hb by (auto simp: tap_one_def tap_slen_def delivered_def same_id_d_def split: if_splits)
  next
    case False
    then have r: "tap_slen direction d r = r" "r \<noteq> 0" "direction AND ucast (bd_dirfilt d) = 0" by (simp_all add: tap_slen_def split: if_splits)
    obtain d' where d': "bpf_catchpacket hdrlen (te_ticks te) ?d (length pkt) r cpfn (te_tv te) = Inr d'" "has_bufs d'"
        "bd_fbuf ?d = None \<and> d' = ?d\<lparr>bd_dcount := bd_dcount ?d + 1\<rparr> \<or>
         bd_dcount d' = bd_dcount ?d \<and> (\<forall>ps. pending ?d ps \<longrightarrow> pending d' (ps @ [captured hdrlen (bd_bufsize ?d) (te_tv te) r pkt]))"
      using catch_delivers [OF h p cp hb] by blast
    have "delivered hdrlen (te_tv te) r pkt d d'"
      using d'(3) r(2) same_catch [OF d'(1)] unfolding delivered_def pending_same [OF sb] by (simp add: same_rcount_d_def)
    moreover have "same_id_d d d'" using same_catch [OF d'(1)] by (simp add: same_rcount_d_def same_id_d_def)
    ultimately show ?thesis using d'(1,2) r by (auto simp: tap_one_def)
  qed
qed

text \<open>
  The contract of a routine that copies the start of a packet: \<^verbatim>\<open>bcopy\<close> for a packet in one
  buffer and \<^verbatim>\<open>bpf_mcopy\<close> for an mbuf chain keep it.
\<close>

locale packet_copy =
  fixes copy :: "'p \<Rightarrow> nat \<Rightarrow> string + u8 list"
    and bytes :: "'p \<Rightarrow> u8 list"
    and whole :: "'p \<Rightarrow> bool"
  assumes copy_law: "whole p \<Longrightarrow> n \<le> length (bytes p) \<Longrightarrow> copy p n = Inr (take n (bytes p))"
begin

lemma listener_gets:
  assumes "18 \<le> hdrlen" "hdrlen \<le> 32" "whole p" "length (bytes p) < 2 ^ 31" "has_bufs d"
  shows "\<exists>d'. tap_one te hdrlen direction d (Inr r) (length (bytes p)) (copy p) = Inr (d', tap_slen direction d r \<noteq> 0 \<and> bd_fildrop d') \<and> has_bufs d' \<and>
    same_id_d d d' \<and> delivered hdrlen (te_tv te) (tap_slen direction d r) (bytes p) d d'"
  by (rule tap_one_ok [OF assms(1,2,4) copy_law [OF assms(3)] assms(5)])

end

lemma mcopy_take: "wf_chain st ms \<Longrightarrow> n \<le> length (chain_bytes st ms) \<Longrightarrow> bpf_mcopy st ms n = Inr (take n (chain_bytes st ms))"
proof (induction st ms n rule: bpf_mcopy.induct)
  case (3 st m ms len)
  let ?c = "min (m_len m) (Suc len)"
  have l: "length (m_bytes st m) = m_len m" using 3(2) by simp
  have "mem_read (m_buf st m) (m_data m) ?c = take (Suc len) (m_bytes st m)" by (simp add: m_bytes_def mem_read_def min.commute)
  moreover have "bpf_mcopy st ms (Suc len - ?c) = Inr (take (Suc len - ?c) (chain_bytes st ms))"
    by (rule 3(1)) (use 3(2,3) l in auto)
  moreover have "Suc len - ?c = Suc len - m_len m" by simp
  ultimately show ?case using l by (simp add: Let_def)
qed simp_all

interpretation one_buffer: packet_copy bcopy_from "\<lambda>pkt. pkt" "\<lambda>pkt. True"
  by unfold_locales (simp add: bcopy_from_def)

interpretation chained: packet_copy "\<lambda>(st, ms). bpf_mcopy st ms" "\<lambda>(st, ms). chain_bytes st ms" "\<lambda>(st, ms). wf_chain st ms"
  by unfold_locales (auto simp: mcopy_take)

subsection \<open>All listeners\<close>

text \<open>The reference count and the buffers of every descriptor stay.\<close>

definition keeps_d :: "bpf_d \<Rightarrow> bpf_d \<Rightarrow> bool" where
  "keeps_d d d' \<longleftrightarrow> bd_ref d' = bd_ref d \<and> (has_bufs d \<longrightarrow> has_bufs d')"

definition keeps_v :: "bpf_dev \<Rightarrow> bpf_dev \<Rightarrow> bool" where
  "keeps_v v v' \<longleftrightarrow> (\<forall>u. rel_option keeps_d (bpf_d_list v u) (bpf_d_list v' u))"

lemma keeps_d_refl [simp]: "keeps_d d d"
  by (simp add: keeps_d_def)

lemma keeps_v_refl [simp]: "keeps_v v v"
  by (simp add: keeps_v_def option.rel_refl)

lemma keeps_v_trans: "keeps_v a b \<Longrightarrow> keeps_v b c \<Longrightarrow> keeps_v a c"
proof -
  assume k: "keeps_v a b" "keeps_v b c"
  have "rel_option keeps_d (bpf_d_list a u) (bpf_d_list c u)" for u
    using k(1) [unfolded keeps_v_def, rule_format, of u] k(2) [unfolded keeps_v_def, rule_format, of u]
    by (cases "bpf_d_list a u"; cases "bpf_d_list b u"; cases "bpf_d_list c u") (auto simp: keeps_d_def)
  then show ?thesis by (simp add: keeps_v_def)
qed

lemma keeps_put: "bpf_d_list v u = Some d \<Longrightarrow> keeps_d d d' \<Longrightarrow> keeps_v v (put_d u d' v)"
  by (simp add: keeps_v_def option.rel_refl)

lemma core_tap: "core_ok d op \<Longrightarrow> bd_bif d \<noteq> None \<Longrightarrow> has_bufs d' \<Longrightarrow> same_id_d d d' \<Longrightarrow> core_ok d' op"
  by (auto simp: core_ok_def same_id_d_def)

definition listening :: "bpf_dev \<Rightarrow> nat list \<Rightarrow> bool" where
  "listening v us \<longleftrightarrow> (\<forall>u\<in>set us. \<exists>d. bpf_d_list v u = Some d \<and> bd_bif d \<noteq> None)"

lemma listening_if: "dev_ok v os \<Longrightarrow> bp \<in> set (bpf_iflist v) \<Longrightarrow> listening v (bif_dlist bp) \<and> distinct (bif_dlist bp)"
  using dev_okD(3) [of v os bp] by (auto simp: if_ok_def listening_def)

text \<open>The loop applies a relation \<open>R\<close> to each listener once and leaves the others alone.\<close>

lemma tap_loop_ok:
  assumes one: "\<And>d. has_bufs d \<Longrightarrow> filter_ok (bd_rfilter d) \<Longrightarrow> \<exists>d' b. one d = Inr (d', b) \<and> has_bufs d' \<and> same_id_d d d' \<and> R d d'"
    and "dev_ok v os" "listening v us" "distinct us"
  shows "\<exists>v' n'. tap_loop one v us n = Inr (v', n') \<and> dev_ok v' os \<and> keeps_v v v' \<and> bpf_iflist v' = bpf_iflist v \<and>
    (\<forall>u. u \<notin> set us \<longrightarrow> bpf_d_list v' u = bpf_d_list v u) \<and>
    (\<forall>u\<in>set us. \<exists>d d'. bpf_d_list v u = Some d \<and> bpf_d_list v' u = Some d' \<and> R d d')"
  using assms(2-)
proof (induction us arbitrary: v n)
  case Nil
  then show ?case by simp
next
  case (Cons u us)
  obtain d where d: "bpf_d_list v u = Some d" "bd_bif d \<noteq> None" using Cons.prems(2) by (auto simp: listening_def)
  have c: "core_ok d (u \<in> os)" using dev_okD(1) [OF Cons.prems(1) d(1)] .
  then have hb: "has_bufs d" "filter_ok (bd_rfilter d)" using d(2) by (simp_all add: core_ok_def)
  obtain d' b where o: "one d = Inr (d', b)" "has_bufs d'" "same_id_d d d'" "R d d'" using one [OF hb] by blast
  let ?v = "put_d u d' v" and ?n = "if b then n + 1 else n"
  have bif: "bd_bif d' = bd_bif d" using o(3) by (simp add: same_id_d_def)
  have ok: "dev_ok ?v os" by (rule dev_ok_put [OF Cons.prems(1) d(1) bif]) (rule core_tap [OF c d(2) o(2,3)])
  have li: "listening ?v us" "distinct us" "u \<notin> set us" using Cons.prems(2,3) by (auto simp: listening_def)
  obtain v' n' where v': "tap_loop one ?v us ?n = Inr (v', n')" "dev_ok v' os" "keeps_v ?v v'" "bpf_iflist v' = bpf_iflist ?v"
      "\<forall>w. w \<notin> set us \<longrightarrow> bpf_d_list v' w = bpf_d_list ?v w"
      "\<forall>w\<in>set us. \<exists>e e'. bpf_d_list ?v w = Some e \<and> bpf_d_list v' w = Some e' \<and> R e e'"
    using Cons.IH [OF ok li(1,2)] by blast
  have k: "keeps_v v v'" by (rule keeps_v_trans [OF keeps_put [OF d(1)] v'(3)]) (use o(2,3) in \<open>simp add: keeps_d_def same_id_d_def\<close>)
  have out: "\<forall>w. w \<notin> set (u # us) \<longrightarrow> bpf_d_list v' w = bpf_d_list v w" using v'(5) by simp
  have here: "\<exists>e e'. bpf_d_list v w = Some e \<and> bpf_d_list v' w = Some e' \<and> R e e'" if "w \<in> set (u # us)" for w
  proof (cases "w = u")
    case True
    then show ?thesis using d(1) v'(5) li(3) o(4) by simp
  next
    case False
    then show ?thesis using that v'(6) by (auto split: if_splits)
  qed
  have "tap_loop one v (u # us) n = Inr (v', n')" using d(1) o(1) v'(1) by (simp add: bpfilter_lookup_def)
  then show ?case using v'(2,4) k out here by auto
qed

text \<open>A packet in one buffer.\<close>

lemma tap_ok:
  assumes ok: "dev_ok v os" "bp \<in> set (bpf_iflist v)" and p: "pkt \<noteq> []" "length pkt < 2 ^ 31"
  shows "\<exists>v' n. bpf_tap te v bp pkt direction = Inr (v', n) \<and> dev_ok v' os \<and> keeps_v v v' \<and> bpf_iflist v' = bpf_iflist v \<and>
    (\<forall>u. u \<notin> set (bif_dlist bp) \<longrightarrow> bpf_d_list v' u = bpf_d_list v u) \<and>
    (\<forall>u\<in>set (bif_dlist bp). \<exists>d d'. bpf_d_list v u = Some d \<and> bpf_d_list v' u = Some d' \<and>
       (\<exists>r. tap_filter te d (Contig pkt) (length pkt) (length pkt) = Inr r \<and>
         delivered (bif_hdrlen bp) (te_tv te) (tap_slen direction d r) pkt d d'))"
  unfolding bpf_tap_def
proof (rule tap_loop_ok [OF _ ok(1)])
  have h: "18 \<le> bif_hdrlen bp" "bif_hdrlen bp \<le> 32" using dev_okD(3) [OF ok] by (simp_all add: if_ok_def)
  have rd: "readable (Contig pkt) (word_of_nat (length pkt))" using p by (auto simp: contig_ok_def)
  fix d assume d: "has_bufs d" "filter_ok (bd_rfilter d)"
  obtain r where r: "tap_filter te d (Contig pkt) (length pkt) (length pkt) = Inr r" using tap_filter_ok [OF d(2) rd] by blast
  show "\<exists>d' b. tap_one te (bif_hdrlen bp) direction d (tap_filter te d (Contig pkt) (length pkt) (length pkt)) (length pkt) (bcopy_from pkt) = Inr (d', b) \<and>
      has_bufs d' \<and> same_id_d d d' \<and> (\<exists>r. tap_filter te d (Contig pkt) (length pkt) (length pkt) = Inr r \<and>
        delivered (bif_hdrlen bp) (te_tv te) (tap_slen direction d r) pkt d d')"
    using r one_buffer.listener_gets [OF h TrueI p(2) d(1), of te direction r] by auto
qed (use listening_if [OF ok] in simp_all)

subsection \<open>Chains of mbufs\<close>

lemma tap_filter_same_bytes:
  assumes "dense (st, ms)" "chain_bytes st ms \<noteq> []"
  shows "tap_filter te d (Chain st ms) n 0 = tap_filter te d (Contig (chain_bytes st ms)) n (length (chain_bytes st ms))"
  using filter_same_bytes [OF assms] by (simp add: tap_filter_def)

text \<open>
  The routine that copies is asked for no more than the packet has, so two routines that agree
  on that much give the same result.
\<close>

lemma wrap_sub_le:
  assumes "h \<le> t" "t \<le> h + p" "p < 2 ^ 31"
  shows "(t + 2 ^ 32 - h) mod 2 ^ 32 \<le> (p :: nat)"
proof -
  have "t + 2 ^ 32 - h = (t - h) + 2 ^ 32" "t - h < 2 ^ 32" "t - h \<le> p" using assms by simp_all
  then show ?thesis by (simp only: mod_add_self2 mod_less)
qed

lemma store_same_cpfn:
  assumes "cpfn ((totlen + 2 ^ 32 - hdrlen) mod 2 ^ 32) = cpfn' ((totlen + 2 ^ 32 - hdrlen) mod 2 ^ 32)"
  shows "catch_store hdrlen d pktlen totlen curlen cpfn tv = catch_store hdrlen d pktlen totlen curlen cpfn' tv"
  unfolding catch_store_def Let_def assms by (rule refl)

lemma catch_same_cpfn:
  assumes d: "has_bufs d" and h: "hdrlen \<le> 32" and p: "pktlen < 2 ^ 31" and cp: "\<And>n. n \<le> pktlen \<Longrightarrow> cpfn n = cpfn' n"
  shows "bpf_catchpacket hdrlen ticks d pktlen snaplen cpfn tv = bpf_catchpacket hdrlen ticks d pktlen snaplen cpfn' tv"
proof -
  let ?u = "catch_len hdrlen (bd_bufsize d) pktlen snaplen"
  have "32 \<le> bd_bufsize d" using d by (auto simp: has_bufs_def pending_def bpf_bufs_def)
  moreover have "(hdrlen + min snaplen pktlen mod 2 ^ 32) mod 2 ^ 32 = hdrlen + min snaplen pktlen" using p h by simp
  ultimately have "hdrlen \<le> ?u" "?u \<le> hdrlen + pktlen" using h unfolding catch_len_def Let_def by (auto simp: min_def)
  note st = store_same_cpfn [where cpfn = cpfn and cpfn' = cpfn' and hdrlen = hdrlen and totlen = ?u, OF cp [OF wrap_sub_le [OF this p]]]
  show ?thesis unfolding bpf_catchpacket_def Let_def [of ?u] st ..
qed

lemma tap_one_same:
  assumes "has_bufs d" "hdrlen \<le> 32" "pktlen < 2 ^ 31" "\<And>n. n \<le> pktlen \<Longrightarrow> cpfn n = cpfn' n" "verdict = verdict'"
  shows "tap_one te hdrlen direction d verdict pktlen cpfn = tap_one te hdrlen direction d verdict' pktlen cpfn'"
proof -
  have "same_bufs_d d (d\<lparr>bd_rcount := bd_rcount d + 1\<rparr>)" by (simp add: same_bufs_d_def)
  then have "has_bufs (d\<lparr>bd_rcount := bd_rcount d + 1\<rparr>)" using assms(1) has_bufs_same by blast
  then have "bpf_catchpacket hdrlen ticks (d\<lparr>bd_rcount := bd_rcount d + 1\<rparr>) pktlen snaplen cpfn tv =
      bpf_catchpacket hdrlen ticks (d\<lparr>bd_rcount := bd_rcount d + 1\<rparr>) pktlen snaplen cpfn' tv" for ticks snaplen tv
    by (rule catch_same_cpfn) (fact assms)+
  then show ?thesis using assms(5) unfolding tap_one_def Let_def by (cases verdict') simp_all
qed

lemma tap_loop_same:
  "distinct us \<Longrightarrow> (\<And>u d. u \<in> set us \<Longrightarrow> bpf_d_list v u = Some d \<Longrightarrow> one d = one' d) \<Longrightarrow> tap_loop one v us n = tap_loop one' v us n"
proof (induction us arbitrary: v n)
  case (Cons u us)
  show ?case
  proof (cases "bpf_d_list v u")
    case (Some d)
    have "tap_loop one (put_d u d' v) us k = tap_loop one' (put_d u d' v) us k" for d' k
    proof (rule Cons.IH)
      show "distinct us" using Cons.prems(1) by simp
      fix w e assume "w \<in> set us" "bpf_d_list (put_d u d' v) w = Some e"
      then show "one e = one' e" using Cons.prems(1) Cons.prems(2) [of w e] by (auto split: if_splits)
    qed
    then show ?thesis using Cons.prems(2) [of u d] Some by (simp add: bpfilter_lookup_def split: sum.split)
  qed (simp add: bpfilter_lookup_def)
qed simp

text \<open>Listeners that watch all queues, or the one of the packet.\<close>

definition same_queue :: "u32 \<Rightarrow> bpf_d \<Rightarrow> bool" where
  "same_queue qid d \<longleftrightarrow> bd_queue d = 0 \<or> bd_queue d = qid"

lemma mtap_same_tap:
  assumes ok: "dev_ok v os" "bp \<in> set (bpf_iflist v)" and c: "dense (st, ms)" "chain_bytes st ms \<noteq> []"
    and q: "\<And>u d. u \<in> set (bif_dlist bp) \<Longrightarrow> bpf_d_list v u = Some d \<Longrightarrow> bd_queue d = 0 \<or> qid = Some (bd_queue d)"
  shows "bpf_mtap0 te v bp st ms qid direction None = bpf_tap te v bp (chain_bytes st ms) direction"
proof -
  have w: "wf_chain st ms" "ms \<noteq> []" "chain_len ms < 2 ^ 31" using c(1) by (simp_all add: dense_def)
  have len: "chain_len ms = length (chain_bytes st ms)" using length_chain_bytes [OF w(1)] by simp
  have h: "bif_hdrlen bp \<le> 32" using dev_okD(3) [OF ok] by (simp add: if_ok_def)
  have "tap_one te (bif_hdrlen bp) direction d (if bd_queue d \<noteq> 0
          then (case qid of None \<Rightarrow> Inl ''read beyond the header''
                | Some q \<Rightarrow> if q \<noteq> bd_queue d then Inr 0 else tap_filter te d (Chain st ms) (chain_len ms) 0)
          else tap_filter te d (Chain st ms) (chain_len ms) 0) (chain_len ms) (bpf_mcopy st ms) =
        tap_one te (bif_hdrlen bp) direction d (tap_filter te d (Contig (chain_bytes st ms)) (length (chain_bytes st ms)) (length (chain_bytes st ms)))
          (length (chain_bytes st ms)) (bcopy_from (chain_bytes st ms))"
    if "u \<in> set (bif_dlist bp)" "bpf_d_list v u = Some d" for u d
  proof -
    have "bd_bif d \<noteq> None" using listening_if [OF ok] that by (auto simp: listening_def)
    then have hb: "has_bufs d" using dev_okD(1) [OF ok(1) that(2)] by (simp add: core_ok_def)
    have f: "tap_filter te d (Chain st ms) n 0 = tap_filter te d (Contig (chain_bytes st ms)) n (length (chain_bytes st ms))" for n
      by (rule tap_filter_same_bytes [OF c])
    show ?thesis unfolding len f
    proof (rule tap_one_same [OF hb h])
      show "length (chain_bytes st ms) < 2 ^ 31" using w(3) len by simp
      fix n assume n: "n \<le> length (chain_bytes st ms)"
      show "bpf_mcopy st ms n = bcopy_from (chain_bytes st ms) n"
        using chained.copy_law [of "(st, ms)"] one_buffer.copy_law w(1) n by simp
    qed (use q [OF that] in \<open>cases "bd_queue d = 0"; simp\<close>)
  qed
  note one = this
  have "distinct (bif_dlist bp)" using listening_if [OF ok] by simp
  then show ?thesis unfolding bpf_mtap0_def bpf_tap_def Let_def if_not_P [OF w(2)] option.case by (rule tap_loop_same) (rule one)
qed

lemma mtap_ok:
  assumes ok: "dev_ok v os" "bp \<in> set (bpf_iflist v)" and c: "dense (st, ms)"
  shows "\<exists>v' n. bpf_mtap te v bp st ms qid direction = Inr (v', n) \<and> dev_ok v' os \<and> keeps_v v v' \<and> bpf_iflist v' = bpf_iflist v"
proof -
  let ?b = "chain_bytes st ms"
  have w: "wf_chain st ms" "ms \<noteq> []" "chain_len ms < 2 ^ 31" using c by (simp_all add: dense_def)
  have len: "chain_len ms = length ?b" using length_chain_bytes [OF w(1)] by simp
  have h: "18 \<le> bif_hdrlen bp" "bif_hdrlen bp \<le> 32" using dev_okD(3) [OF ok] by (simp_all add: if_ok_def)
  have rd: "readable (Chain st ms) (word_of_nat 0)" using c by simp
  let ?one = "\<lambda>d. tap_one te (bif_hdrlen bp) direction d (if bd_queue d \<noteq> 0
      then (if qid \<noteq> bd_queue d then Inr 0 else tap_filter te d (Chain st ms) (length ?b) 0)
      else tap_filter te d (Chain st ms) (length ?b) 0) (length ?b) (bpf_mcopy st ms)"
  have one: "\<exists>d' b. ?one d = Inr (d', b) \<and> has_bufs d' \<and> same_id_d d d' \<and> True" if d: "has_bufs d" "filter_ok (bd_rfilter d)" for d
  proof -
    obtain r where "tap_filter te d (Chain st ms) (length ?b) 0 = Inr r" using tap_filter_ok [OF d(2) rd] by auto
    then obtain r where r: "(if bd_queue d \<noteq> 0 then (if qid \<noteq> bd_queue d then Inr 0 else tap_filter te d (Chain st ms) (length ?b) 0)
      else tap_filter te d (Chain st ms) (length ?b) 0) = Inr r" by (metis (full_types))
    show ?thesis unfolding r
      using chained.listener_gets [OF h _ _ d(1), of "(st, ms)" te direction r] w(1,3) len by auto
  qed
  have li: "listening v (bif_dlist bp)" "distinct (bif_dlist bp)" using listening_if [OF ok] by simp_all
  obtain v' n where "tap_loop ?one v (bif_dlist bp) 0 = Inr (v', n)" "dev_ok v' os" "keeps_v v v'" "bpf_iflist v' = bpf_iflist v"
    using tap_loop_ok [of ?one "\<lambda>d d'. True", OF one ok(1) li, of 0] by blast
  moreover have "bpf_mtap te v bp st ms qid direction = tap_loop ?one v (bif_dlist bp) 0"
    using w(2) unfolding bpf_mtap_def bpf_mtap0_def Let_def len option.case by simp
  ultimately show ?thesis by simp
qed

end
