(* ===== verification/Bpf_Dev_Run.thy ===== *)
theory Bpf_Dev_Run
  imports Bpf_Dev_Tap
begin

text \<open>
  The packet filter device in operation: any sequence of opens, closes, control operations,
  reads, polls and packets.  The reference counts are exact, so that no descriptor is freed
  while someone holds it.
\<close>

subsection \<open>Control operations keep references and buffers\<close>

lemma keeps_list: "bpf_d_list w = bpf_d_list w' \<Longrightarrow> keeps_v v w = keeps_v v w'"
  by (simp add: keeps_v_def)

lemma keeps_upd_if [simp]: "keeps_v v (upd_if i f w) = keeps_v v w"
  by (rule keeps_list) simp

lemma keeps_d_same: "same_bufs_d d d' \<Longrightarrow> bd_ref d' = bd_ref d \<Longrightarrow> keeps_d d d'"
  by (simp add: keeps_d_def has_bufs_same)

lemma keeps_d_trans: "keeps_d a b \<Longrightarrow> keeps_d b c \<Longrightarrow> keeps_d a c"
  by (simp add: keeps_d_def)

lemma reset_ref [simp]: "bd_ref (bpf_reset_d d) = bd_ref d"
  by (simp add: bpf_reset_d_def Let_def)

lemma keeps_d_reset: "keeps_d d (bpf_reset_d d)"
  by (simp add: keeps_d_def bufs_kept_reset)

lemma keeps_d_alloc: "bd_sbuf d = None \<Longrightarrow> keeps_d d (bpf_allocbufs malloc d)"
  by (auto simp: keeps_d_def has_bufs_def pending_def bpf_bufs_def bpf_allocbufs_def)

lemma keeps_reset: "bpf_d_list v u = Some d \<Longrightarrow> keeps_v v (put_d u (bpf_reset_d d) v)"
  by (erule keeps_put) (rule keeps_d_reset)

lemma keeps_attach_reset:
  assumes "bpf_d_list v u = Some d"
  shows "keeps_v v (put_d u (bpf_reset_d (the (bpf_d_list (bpf_attachd v u d i) u))) (bpf_attachd v u d i))"
proof -
  have "keeps_d d (bpf_reset_d (d\<lparr>bd_bif := Some i\<rparr>))"
    by (rule keeps_d_trans [OF keeps_d_same keeps_d_reset]) (simp_all add: same_bufs_d_def)
  from keeps_put [OF assms this] show ?thesis by (simp add: bpf_attachd_def keeps_v_def)
qed

lemma keeps_detachd:
  assumes "bpf_detachd sys v u d = Inr v'" "bpf_d_list v u = Some d"
  shows "keeps_v v v' \<and> (\<exists>d'. bpf_d_list v' u = Some d')"
proof -
  have "keeps_d d (d\<lparr>bd_promisc := False, bd_bif := None\<rparr>)" by (rule keeps_d_same) (simp_all add: same_bufs_d_def)
  from keeps_put [OF assms(2) this] show ?thesis using assms(1)
    by (auto simp: bpf_detachd_def Let_def split: option.splits if_splits sum.splits)
qed

lemma keeps_setif:
  assumes s: "bpf_setif sys v u d name = Inr (v', e)" and d: "bpf_d_list v u = Some d"
  shows "keeps_v v v'"
proof (cases "pick_if sys name (bpf_iflist v) None")
  case (Some c)
  define d1 where "d1 = (if bd_sbuf d = None then bpf_allocbufs (sys_malloc sys) d else d)"
  let ?v = "put_d u d1 v"
  have k: "keeps_v v ?v" by (rule keeps_put [OF d]) (simp add: d1_def keeps_d_alloc)
  have l: "bpf_d_list ?v u = Some d1" by simp
  consider "Some (bif_id c) = bd_bif d1" | "Some (bif_id c) \<noteq> bd_bif d1" "bd_bif d1 = None" | w where "Some (bif_id c) \<noteq> bd_bif d1" "bd_bif d1 \<noteq> None" "bpf_detachd sys ?v u d1 = Inr w"
    using s Some by (cases "bpf_detachd sys ?v u d1") (auto simp: bpf_setif_def Let_def d1_def split: if_splits)
  then show ?thesis
  proof cases
    case 1
    then have "v' = put_d u (bpf_reset_d d1) ?v" using s Some by (simp add: bpf_setif_def Let_def bpfilter_lookup_def flip: d1_def)
    then show ?thesis using keeps_v_trans [OF k keeps_reset [OF l]] by simp
  next
    case 2
    then have "v' = put_d u (bpf_reset_d (the (bpf_d_list (bpf_attachd ?v u d1 (bif_id c)) u))) (bpf_attachd ?v u d1 (bif_id c))"
      using s Some by (simp add: bpf_setif_def Let_def bpfilter_lookup_def flip: d1_def)
    then show ?thesis using keeps_v_trans [OF k keeps_attach_reset [OF l]] by simp
  next
    case (3 w)
    obtain d2 where d2: "keeps_v ?v w" "bpf_d_list w u = Some d2" using keeps_detachd [OF 3(3) l] by blast
    have "v' = put_d u (bpf_reset_d (the (bpf_d_list (bpf_attachd w u d2 (bif_id c)) u))) (bpf_attachd w u d2 (bif_id c))"
      using s Some 3 d2(2) by (simp add: bpf_setif_def Let_def bpfilter_lookup_def del: not_None_eq flip: d1_def)
    then show ?thesis using keeps_v_trans [OF k keeps_v_trans [OF d2(1) keeps_attach_reset [OF d2(2)]]] by simp
  qed
qed (use s in \<open>simp add: bpf_setif_def\<close>)

lemma keeps_setdlt:
  assumes s: "bpf_setdlt sys v u d dlt = Inr (v', e)" and d: "bpf_d_list v u = Some d"
  shows "keeps_v v v'"
proof (cases "v' = v")
  case False
  then obtain bp :: bpf_if and w where w: "bpf_detachd sys v u d = Inr w"
      "v' = put_d u (bpf_reset_d (the (bpfilter_lookup (bpf_attachd w u (the (bpfilter_lookup w u)) (bif_id bp)) u)))
         (bpf_attachd w u (the (bpfilter_lookup w u)) (bif_id bp))"
    using s by (simp add: bpf_setdlt_def Let_def split: option.splits if_splits sum.splits) blast
  obtain d2 where d2: "keeps_v v w" "bpf_d_list w u = Some d2" using keeps_detachd [OF w(1) d] by blast
  then show ?thesis using w(2) keeps_v_trans [OF d2(1) keeps_attach_reset [OF d2(2)]] by (simp add: bpfilter_lookup_def Let_def)
qed simp

lemma setf_keeps: "keeps_d d (fst (bpf_setf maxbuf d fp write))"
proof -
  have "keeps_d d (bpf_reset_d (set_filter write f d))" for f
    by (rule keeps_d_trans [OF keeps_d_same keeps_d_reset]) (simp_all add: set_filter_def same_bufs_d_def)
  then show ?thesis by (auto simp: bpf_setf_def Let_def split: option.splits)
qed

lemma keeps_ioctl_d:
  assumes "core_ok d True"
  shows "keeps_d d (fst (ioctl_d sys v d cmd ruid euid))"
proof (cases cmd)
  case (BIOCSBLEN n)
  have "\<not> has_bufs d" if "bd_bif d = None" using assms that by (auto simp: core_ok_def has_bufs_def pending_def bpf_bufs_def)
  then show ?thesis using BIOCSBLEN by (auto simp: ioctl_d_def keeps_d_def Let_def)
next
  case (BIOCSETF fp)
  then show ?thesis using setf_keeps by (simp add: ioctl_d_def split_beta)
next
  case (BIOCSETWF fp)
  then show ?thesis using setf_keeps by (simp add: ioctl_d_def split_beta)
next
  case BIOCFLUSH
  then show ?thesis by (simp add: ioctl_d_def keeps_d_reset)
qed (simp_all add: ioctl_d_def keeps_d_same same_bufs_d_def)

text \<open>How a control operation ends.\<close>

lemma ioctl_cases:
  assumes "bpfioctl sys v u cmd root ruid euid = Inr (v', e, out)" "bpf_d_list v u = Some d"
  obtains "v' = v" | bp where "ioctl_if sys v u d bp cmd = Inr (v', e, out)" | name where "bpf_setif sys v u d name = Inr (v', e)"
    | "v' = put_d u (fst (ioctl_d sys v d cmd ruid euid)) v" "e = fst (snd (ioctl_d sys v d cmd ruid euid))"
  using assms unfolding bpfioctl_def bpfilter_lookup_def
  by (cases cmd) (auto simp: split_beta split: if_splits option.splits sum.splits)

lemma keeps_ioctl:
  assumes ok: "dev_ok v os" "u \<in> os" and r: "bpfioctl sys v u cmd root ruid euid = Inr (v', e, out)"
  shows "keeps_v v v'"
proof -
  obtain d where d: "bpf_d_list v u = Some d" using dev_okD(4) [OF ok] by blast
  have core: "core_ok d True" using dev_okD(1) [OF ok(1) d] ok(2) by simp
  have p: "keeps_v v (put_d u (d\<lparr>bd_promisc := True\<rparr>) v)" by (rule keeps_put [OF d keeps_d_same]) (simp_all add: same_bufs_d_def)
  from r d show ?thesis
  proof (cases rule: ioctl_cases)
    case (2 bp)
    then show ?thesis using p keeps_setdlt [OF _ d]
      by (cases cmd) (auto simp: ioctl_if_def split_beta Let_def split: if_splits sum.splits)
  next
    case (3 name)
    then show ?thesis using keeps_setif d by blast
  next
    case 4
    then show ?thesis using keeps_put [OF d keeps_ioctl_d [OF core]] by simp
  qed simp
qed

subsection \<open>Freeing, opening and closing\<close>

text \<open>
  Who holds a descriptor: \<open>op\<close> when the unit is open, \<open>w\<close> readers that wait and \<open>n\<close> notes of
  \<^verbatim>\<open>kqueue\<close>.  A reader that waits has its buffers.
\<close>

definition held_ok :: "bpf_d option \<Rightarrow> bool \<Rightarrow> nat \<Rightarrow> nat \<Rightarrow> bool" where
  "held_ok x op w n \<longleftrightarrow>
     (case x of
        None \<Rightarrow> \<not> op \<and> w = 0 \<and> n = 0
      | Some d \<Rightarrow> 0 < bd_ref d \<and> bd_ref d = (if op then 1 else 0) + w + n \<and> (0 < w \<longrightarrow> has_bufs d))"

lemma held_keeps: "held_ok x op w n \<Longrightarrow> rel_option keeps_d x y \<Longrightarrow> held_ok y op w n"
  by (cases x; cases y) (auto simp: held_ok_def keeps_d_def)

lemma destroy_simps [simp]:
  "bpf_d_list (bpfilter_destroy v u) = (bpf_d_list v)(u := None)" "bpf_iflist (bpfilter_destroy v u) = bpf_iflist v"
  "bif_count (bpfilter_destroy v u) = bif_count v" "bpf_bufsize (bpfilter_destroy v u) = bpf_bufsize v"
  "bpf_maxbufsize (bpfilter_destroy v u) = bpf_maxbufsize v"
  by (simp_all add: bpfilter_destroy_def)

lemma destroy_ok:
  assumes ok: "dev_ok v os" and d: "bpf_d_list v u = Some d" "bd_bif d = None" "u \<notin> os"
  shows "dev_ok (bpfilter_destroy v u) os"
proof -
  have "if_ok (bpfilter_destroy v u) bp" if "bp \<in> set (bpf_iflist v)" for bp
    using dev_okD(3) [OF ok that] d(1,2) by (auto simp: if_ok_def)
  moreover have "link_ok (bpfilter_destroy v u) w e" if "bpf_d_list v w = Some e" for w e
    using dev_okD(2) [OF ok that] by (auto simp: link_ok_def)
  ultimately show ?thesis using ok d(3) by (auto simp: dev_ok_def)
qed

lemma freed_ok:
  assumes ok: "dev_ok v os" and d: "bpf_d_list v u = Some d" "bd_bif e = bd_bif d" "core_ok e (u \<in> os)" "bd_ref e \<le> 1 \<Longrightarrow> u \<notin> os"
  shows "dev_ok (bpf_freed v u e) os"
proof (cases "bd_ref e - 1 > 0")
  case True
  have "core_ok (e\<lparr>bd_ref := bd_ref e - 1\<rparr>) (u \<in> os)"
    by (rule core_same [OF d(3)]) (use d(3) in \<open>auto simp: same_bufs_d_def core_ok_def\<close>)
  then show ?thesis using True dev_ok_put [OF ok d(1)] d(2) by (simp add: bpf_freed_def)
next
  case False
  then have "u \<notin> os" using d(4) by simp
  then show ?thesis using False destroy_ok [OF ok d(1)] d(2,3) by (simp add: bpf_freed_def core_ok_def)
qed

lemma freed_list:
  "bpf_d_list (bpf_freed v u e) = (bpf_d_list v)(u := (if bd_ref e - 1 > 0 then Some (e\<lparr>bd_ref := bd_ref e - 1\<rparr>) else None))"
  by (simp add: bpf_freed_def Let_def)

lemma held_freed:
  assumes "bd_ref e = (if op then 1 else 0) + w + n + 1" "0 < w \<Longrightarrow> has_bufs e"
  shows "held_ok (if bd_ref e - 1 > 0 then Some (e\<lparr>bd_ref := bd_ref e - 1\<rparr>) else None) op w n"
proof -
  have "same_bufs_d e (e\<lparr>bd_ref := bd_ref e - 1\<rparr>)" by (simp add: same_bufs_d_def)
  from has_bufs_same [OF this] show ?thesis using assms by (cases op) (auto simp: held_ok_def)
qed

lemma open_ok:
  assumes ok: "dev_ok v os" and o: "bpfopen v u nomem = (v', e)"
  shows "e = 0 \<and> bpf_d_list v u = None \<and> dev_ok v' (insert u os) \<and> (\<exists>d. bpf_d_list v' = (bpf_d_list v)(u := Some d) \<and> bd_ref d = 1) \<or>
    e \<noteq> 0 \<and> v' = v"
proof (cases "bpf_d_list v u = None \<and> \<not> nomem")
  case True
  let ?d = "zero_d\<lparr>bd_bufsize := bpf_bufsize v, bd_sig := SIGIO, bd_ref := bd_ref zero_d + 1\<rparr>" let ?v = "put_d u ?d v"
  have v': "v' = ?v" "e = 0" using o True
    by (auto simp: bpfopen_def bpfilter_create_def bpfilter_lookup_def put_d_def zero_d_def)
  have c: "core_ok ?d True" using ok by (simp add: core_ok_def zero_d_def filter_ok_def dev_ok_def)
  have "if_ok ?v bp" if "bp \<in> set (bpf_iflist v)" for bp
    using dev_okD(3) [OF ok that] True by (fastforce simp: if_ok_def)
  moreover have "core_ok f (w \<in> insert u os) \<and> link_ok ?v w f" if "bpf_d_list ?v w = Some f" for w f
    using dev_okD(1,2) [OF ok, of w f] that c by (cases "w = u") (auto simp: link_ok_def zero_d_def)
  ultimately have "dev_ok ?v (insert u os)" using ok by (auto simp: dev_ok_def)
  then show ?thesis using v' True by (auto simp: zero_d_def)
next
  case False
  then show ?thesis using o by (auto simp: bpfopen_def bpfilter_create_def bpfilter_lookup_def split: if_splits)
qed

lemma wakeup_fields [simp]: "bd_bif (bpf_wakeup d) = bd_bif d" "bd_ref (bpf_wakeup d) = bd_ref d"
  by (simp_all add: bpf_wakeup_def)

lemma wakeup_same: "same_bufs_d d (bpf_wakeup d)"
  by (simp add: same_bufs_d_def bpf_wakeup_def)

text \<open>A close leaves a descriptor of which nothing but the notes and the readers are left.\<close>

lemma close_ok:
  assumes sys: "sys_ok sys" and ok: "dev_ok v os" and u: "u \<in> os" and h: "held_ok (bpf_d_list v u) True w n"
  shows "\<exists>v'. bpfclose sys v u = Inr (v', 0) \<and> dev_ok v' (os - {u}) \<and> held_ok (bpf_d_list v' u) False w n \<and>
    (\<forall>x. x \<noteq> u \<longrightarrow> bpf_d_list v' x = bpf_d_list v x)"
proof -
  obtain d where d: "bpf_d_list v u = Some d" using dev_okD(4) [OF ok u] by blast
  have core: "core_ok d True" using dev_okD(1) [OF ok d] u by simp
  have hd: "bd_ref d = 1 + w + n" "0 < w \<Longrightarrow> has_bufs d" using h d by (simp_all add: held_ok_def)
  obtain v1 d1 where v1: "(if bd_bif d \<noteq> None then bpf_detachd sys v u d else Inr v) = Inr v1" "dev_ok v1 (os - {u})"
      "bpf_d_list v1 = (bpf_d_list v)(u := Some d1)" "bd_bif d1 = None" "same_bufs_d d d1" "bd_ref d1 = bd_ref d" "core_ok d1 False"
  proof (cases "bd_bif d")
    case None
    then show ?thesis using that [of v d] dev_ok_close [OF ok d None] d core_closed [OF core] by (auto simp: same_bufs_d_def fun_upd_idem)
  next
    case (Some i)
    let ?d = "d\<lparr>bd_promisc := False, bd_bif := None\<rparr>"
    obtain w' where w': "bpf_detachd sys v u d = Inr w'" "loose_ok w' os u ?d" using detachd_ok [OF sys ok d] Some by auto
    have "bpf_d_list w' = (bpf_d_list v)(u := Some ?d)" using w'(1)
      by (auto simp: bpf_detachd_def Let_def split: option.splits if_splits sum.splits)
    then show ?thesis using that [of w' ?d] w' Some by (auto simp: loose_ok_def same_bufs_d_def)
  qed
  let ?e = "bpf_wakeup d1" let ?v = "bpf_freed v1 u ?e"
  have r: "bpfclose sys v u = Inr (?v, 0)" using d v1(1,3) by (simp add: bpfclose_def bpfilter_lookup_def)
  have ce: "core_ok ?e (u \<in> os - {u})" using core_same [OF v1(7) wakeup_same] v1(7) by (simp add: core_ok_def bpf_wakeup_def)
  have ok': "dev_ok ?v (os - {u})" by (rule freed_ok [OF v1(2), of u d1]) (use v1 ce in simp_all)
  have hb: "0 < w \<Longrightarrow> has_bufs ?e" using hd(2) has_bufs_same [OF v1(5)] has_bufs_same [OF wakeup_same] by simp
  have "held_ok (bpf_d_list ?v u) False w n" unfolding freed_list using held_freed [of ?e False w n] hd(1) v1(6) hb by simp
  moreover have "\<forall>x. x \<noteq> u \<longrightarrow> bpf_d_list ?v x = bpf_d_list v x" unfolding freed_list using v1(3) by simp
  ultimately show ?thesis using r ok' by blast
qed

subsection \<open>Reading and polling\<close>

definition wait_d :: "read_wait \<Rightarrow> bpf_d" where
  "wait_d w = (case w of WSleep d \<Rightarrow> d | WReturn d e \<Rightarrow> d | WReady d \<Rightarrow> d)"

lemma rotate_same_id: "same_id_d d (ROTATE_BUFFERS d)" "same_id_d d d"
  by (simp_all add: same_id_d_def ROTATE_BUFFERS_def)

lemma wait_same_id: "same_id_d d (wait_d (read_timeout d))" "same_id_d d (wait_d (read_loop d ticks []))" "same_id_d d (wait_d (read_woken d error ticks))"
proof -
  show t: "same_id_d d (wait_d (read_timeout d))" by (simp add: read_timeout_def wait_d_def rotate_same_id)
  show l: "same_id_d d (wait_d (read_loop d ticks []))" using t by (simp add: read_loop.simps [of d ticks] wait_d_def rotate_same_id)
  show "same_id_d d (wait_d (read_woken d error ticks))" using t l by (simp add: read_woken_def) (simp add: wait_d_def rotate_same_id)
qed

text \<open>Whether the reader sleeps.\<close>

definition sleeps :: "read_wait \<Rightarrow> bool" where
  "sleeps w \<longleftrightarrow> (\<exists>d. w = WSleep d)"

lemma core_bufs: "core_ok d op \<Longrightarrow> has_bufs d \<Longrightarrow> has_bufs e \<Longrightarrow> same_id_d d e \<or> same_id_d (d\<lparr>bd_ref := bd_ref e\<rparr>) e \<Longrightarrow> core_ok e op"
  by (auto simp: core_ok_def same_id_d_def has_bufs_def pending_def bpf_bufs_def)

lemma finish_ok:
  assumes ok: "dev_ok v os" and d: "bpf_d_list v u = Some d" "has_bufs d"
    and w: "wait_ok ps r" "same_id_d (d\<lparr>bd_ref := bd_ref (wait_d r)\<rparr>) (wait_d r)"
    and h: "bd_ref (wait_d r) = (if u \<in> os then 1 else 0) + k + n + 1"
  shows "dev_ok (fst (read_finish v u r)) os \<and> held_ok (bpf_d_list (fst (read_finish v u r)) u) (u \<in> os) (if sleeps r then k + 1 else k) n \<and>
    (snd (read_finish v u r) = None \<longleftrightarrow> sleeps r) \<and> (\<forall>x. x \<noteq> u \<longrightarrow> bpf_d_list (fst (read_finish v u r)) x = bpf_d_list v x)"
proof -
  let ?e = "wait_d r"
  have bufs: "has_bufs ?e" using w(1) by (cases r) (auto simp: wait_ok_def wait_d_def has_bufs_def)
  have core: "core_ok ?e (u \<in> os)" using core_bufs [OF dev_okD(1) [OF ok d(1)] d(2) bufs] w(2) by simp
  have bif: "bd_bif ?e = bd_bif d" using w(2) by (simp add: same_id_d_def)
  have out: "u \<notin> os" if "bd_ref ?e \<le> 1" using that h by (auto split: if_splits)
  show ?thesis
  proof (cases r)
    case (WSleep f)
    then show ?thesis using dev_ok_put [OF ok d(1) bif core] h bufs by (auto simp: read_finish_def wait_d_def sleeps_def held_ok_def)
  next
    case (WReturn f error)
    then have f: "?e = f" by (simp add: wait_d_def)
    have "dev_ok (bpf_freed v u f) os" using freed_ok [OF ok d(1) bif core out] f by simp
    then show ?thesis using WReturn held_freed [OF h [unfolded f]] bufs [unfolded f] by (simp add: read_finish_def sleeps_def freed_list)
  next
    case (WReady f)
    let ?f = "f\<lparr>bd_fbuf := bd_hbuf f, bd_hbuf := None, bd_hlen := 0\<rparr>"
    have f: "?e = f" using WReady by (simp add: wait_d_def)
    obtain qs where "pending (read_done f) qs" using w(1) WReady pending_done [of f ps] by (auto simp: wait_ok_def)
    moreover have "same_bufs_d ?f (read_done f)" by (simp add: same_bufs_d_def read_done_def)
    ultimately have hb: "has_bufs ?f" using pending_same unfolding has_bufs_def by blast
    have cf: "core_ok ?f (u \<in> os)" by (rule core_bufs [OF core bufs hb]) (simp add: f same_id_d_def)
    have hf: "bd_ref ?f = (if u \<in> os then 1 else 0) + k + n + 1" using h f by simp
    have "dev_ok (bpf_freed v u ?f) os" by (rule freed_ok [OF ok d(1) _ cf]) (use bif f out in simp_all)
    then show ?thesis using WReady held_freed [OF hf] hb by (simp add: read_finish_def sleeps_def freed_list)
  qed
qed

text \<open>A change of the descriptor that concerns neither its buffers nor its interface.\<close>

lemma touch_ok:
  assumes ok: "dev_ok v os" and d: "bpf_d_list v u = Some d" "same_bufs_d d d'" "bd_bif d' = bd_bif d" "bd_rfilter d' = bd_rfilter d" "bd_wfilter d' = bd_wfilter d"
  shows "dev_ok (put_d u d' v) os"
  by (rule dev_ok_put [OF ok d(1,3)], rule core_same [OF dev_okD(1) [OF ok d(1)] d(2,3)])
    (use dev_okD(1) [OF ok d(1)] d(4,5) in \<open>simp_all add: core_ok_def\<close>)

lemma poll_ok: "dev_ok v os \<Longrightarrow> dev_ok (fst (bpfpoll v u events ticks)) os \<and> keeps_v v (fst (bpfpoll v u events ticks))"
proof -
  assume ok: "dev_ok v os"
  show ?thesis
  proof (cases "fst (bpfpoll v u events ticks) = v")
    case False
    then obtain d where d: "bpf_d_list v u = Some d" by (auto simp: bpfpoll_def bpfilter_lookup_def split: option.splits)
    define e where "e = (if bd_rtout d \<noteq> - 1 \<and> bd_rdStart d = 0 then d\<lparr>bd_rdStart := ticks\<rparr> else d)"
    have s: "same_bufs_d d e" "bd_bif e = bd_bif d" "bd_rfilter e = bd_rfilter d" "bd_wfilter e = bd_wfilter d" "bd_ref e = bd_ref d"
      by (simp_all add: same_bufs_d_def e_def)
    have "fst (bpfpoll v u events ticks) = put_d u e v" using False d by (auto simp: bpfpoll_def bpfilter_lookup_def e_def Let_def)
    then show ?thesis using touch_ok [OF ok d s(1-4)] keeps_put [OF d keeps_d_same [OF s(1,5)]] by simp
  qed (use ok in simp)
qed

lemma kqfilter_ok:
  assumes ok: "dev_ok v os" and u: "u \<in> os" and h: "held_ok (bpf_d_list v u) True k n"
  shows "\<exists>v' e. bpfkqfilter v u r ticks = Inr (v', e) \<and> dev_ok v' os \<and> held_ok (bpf_d_list v' u) True k (if e = 0 then n + 1 else n) \<and>
    (\<forall>x. x \<noteq> u \<longrightarrow> bpf_d_list v' x = bpf_d_list v x)"
proof (cases r)
  case True
  obtain d where d: "bpf_d_list v u = Some d" using dev_okD(4) [OF ok u] by blast
  define e where "e = (let d = d\<lparr>bd_ref := bd_ref d + 1\<rparr> in if bd_rtout d \<noteq> - 1 \<and> bd_rdStart d = 0 then d\<lparr>bd_rdStart := ticks\<rparr> else d)"
  have s: "same_bufs_d d e" "bd_ref e = bd_ref d + 1" "bd_bif e = bd_bif d" "bd_rfilter e = bd_rfilter d" "bd_wfilter e = bd_wfilter d"
    by (simp_all add: same_bufs_d_def e_def Let_def)
  have "held_ok (Some e) True k (n + 1)" using h d s(2) has_bufs_same [OF s(1)] by (simp add: held_ok_def)
  moreover have "bpfkqfilter v u r ticks = Inr (put_d u e v, 0)" using True d by (simp add: bpfkqfilter_def bpfilter_lookup_def e_def Let_def)
  ultimately show ?thesis using touch_ok [OF ok d s(1,3-5)] by simp
qed (use assms in \<open>simp add: bpfkqfilter_def\<close>)

lemma attach_ok: "dev_ok v os \<Longrightarrow> dev_ok (bpfattach v ifp dlt hdrlen) os"
proof -
  assume ok: "dev_ok v os"
  have h: "18 \<le> BPF_WORDALIGN (hdrlen + SIZEOF_BPF_HDR) - hdrlen \<and> BPF_WORDALIGN (hdrlen + SIZEOF_BPF_HDR) - hdrlen \<le> 32"
    unfolding BPF_WORDALIGN_def SIZEOF_BPF_HDR_def by presburger
  have "if_ok (bpfattach v ifp dlt hdrlen) bp" if "bp \<in> set (bpf_iflist v)" for bp
    using dev_okD(3) [OF ok that] by (auto simp: if_ok_def bpfattach_def)
  moreover have "link_ok (bpfattach v ifp dlt hdrlen) w e" if "bpf_d_list v w = Some e" for w e
    using dev_okD(2) [OF ok that] by (auto simp: link_ok_def bpfattach_def)
  moreover have "bif_count v \<notin> bif_id ` set (bpf_iflist v)" "\<forall>bp\<in>set (bpf_iflist v). bif_id bp < Suc (bif_count v)"
    using ok by (auto simp: dev_ok_def)
  ultimately show ?thesis using ok h by (auto simp: dev_ok_def bpfattach_def if_ok_def)
qed

lemma sysctl_ok: "dev_ok v os \<Longrightarrow> newval < 2 ^ 31 \<Longrightarrow> dev_ok (fst (bpf_sysctl_locked v name error newval)) os"
  by (cases name) (auto simp: bpf_sysctl_locked_def dev_ok_def if_ok_def link_ok_def BPF_MINBUFSIZE_def)

lemma sysctl_list: "bpf_d_list (fst (bpf_sysctl_locked v name error newval)) = bpf_d_list v"
  by (cases name) (simp_all add: bpf_sysctl_locked_def)

subsection \<open>The device in operation\<close>

text \<open>
  The device with what surrounds it: the units that are open, and for each unit the readers that
  wait and the notes that are set.
\<close>

record dstate =
  ds_dev :: bpf_dev
  ds_open :: "nat set"
  ds_wait :: "nat \<Rightarrow> nat"
  ds_notes :: "nat \<Rightarrow> nat"

text \<open>The device after the kernel started.\<close>

definition bpf_init :: bpf_dev where
  "bpf_init = \<lparr>bpf_d_list = (\<lambda>u. None), bpf_iflist = [], bif_count = 0, bpf_bufsize = 32768, bpf_maxbufsize = 2 * 1024 * 1024\<rparr>"

definition dev_init :: dstate where
  "dev_init = \<lparr>ds_dev = bpf_init, ds_open = {}, ds_wait = (\<lambda>u. 0), ds_notes = (\<lambda>u. 0)\<rparr>"

datatype dev_op =
    DOpen nat bool | DClose nat | DIoctl nat bpf_cmd bool nat nat | DPoll nat u32 u64 | DNote nat bool u64 | DUnnote nat
  | DRead nat nat u64 | DWake nat int u64 | DAttach nat nat nat | DSysctl bpf_sysctl_name int int
  | DTap nat tap_env "u8 list" u32 | DMtap nat tap_env mstore "mbuf list" u32 u32

text \<open>
  What the rest of the kernel does: operations go to units that are open, only readers that wait
  are woken and only notes that are set are taken away, and drivers pass packets with data.
\<close>

fun legal :: "dstate \<Rightarrow> dev_op \<Rightarrow> bool" where
  "legal s (DOpen u nomem) = True"
| "legal s (DClose u) = (u \<in> ds_open s)"
| "legal s (DIoctl u cmd root ruid euid) = (u \<in> ds_open s)"
| "legal s (DPoll u events ticks) = True"
| "legal s (DNote u r ticks) = (u \<in> ds_open s)"
| "legal s (DUnnote u) = (0 < ds_notes s u)"
| "legal s (DRead u resid ticks) = (u \<in> ds_open s)"
| "legal s (DWake u error ticks) = (0 < ds_wait s u)"
| "legal s (DAttach ifp dlt hdrlen) = True"
| "legal s (DSysctl name error newval) = (newval < 2 ^ 31)"
| "legal s (DTap i te pkt direction) = (find_if (ds_dev s) i \<noteq> None \<and> pkt \<noteq> [] \<and> length pkt < 2 ^ 31)"
| "legal s (DMtap i te st ms qid direction) = (find_if (ds_dev s) i \<noteq> None \<and> dense (st, ms))"

definition on_dev :: "(string + 'a) \<Rightarrow> ('a \<Rightarrow> dstate) \<Rightarrow> string + dstate" where
  "on_dev r f = (case r of Inl e \<Rightarrow> Inl e | Inr x \<Rightarrow> Inr (f x))"

fun dev_exec :: "bpf_sys \<Rightarrow> dstate \<Rightarrow> dev_op \<Rightarrow> string + dstate" where
  "dev_exec sys s (DOpen u nomem) =
     (let (v, e) = bpfopen (ds_dev s) u nomem
      in Inr (s\<lparr>ds_dev := v, ds_open := (if e = 0 then insert u (ds_open s) else ds_open s)\<rparr>))"
| "dev_exec sys s (DClose u) = on_dev (bpfclose sys (ds_dev s) u) (\<lambda>(v, e). s\<lparr>ds_dev := v, ds_open := ds_open s - {u}\<rparr>)"
| "dev_exec sys s (DIoctl u cmd root ruid euid) = on_dev (bpfioctl sys (ds_dev s) u cmd root ruid euid) (\<lambda>(v, e, out). s\<lparr>ds_dev := v\<rparr>)"
| "dev_exec sys s (DPoll u events ticks) = Inr (s\<lparr>ds_dev := fst (bpfpoll (ds_dev s) u events ticks)\<rparr>)"
| "dev_exec sys s (DNote u r ticks) =
     on_dev (bpfkqfilter (ds_dev s) u r ticks)
       (\<lambda>(v, e). s\<lparr>ds_dev := v, ds_notes := (ds_notes s)(u := (if e = 0 then ds_notes s u + 1 else ds_notes s u))\<rparr>)"
| "dev_exec sys s (DUnnote u) =
     on_dev (filt_bpfrdetach (ds_dev s) u) (\<lambda>v. s\<lparr>ds_dev := v, ds_notes := (ds_notes s)(u := ds_notes s u - 1)\<rparr>)"
| "dev_exec sys s (DRead u resid ticks) =
     on_dev (dev_read (ds_dev s) u resid ticks)
       (\<lambda>(v, r). s\<lparr>ds_dev := v, ds_wait := (ds_wait s)(u := (if r = None then ds_wait s u + 1 else ds_wait s u))\<rparr>)"
| "dev_exec sys s (DWake u error ticks) =
     on_dev (dev_woken (ds_dev s) u error ticks)
       (\<lambda>(v, r). s\<lparr>ds_dev := v, ds_wait := (ds_wait s)(u := (if r = None then ds_wait s u else ds_wait s u - 1))\<rparr>)"
| "dev_exec sys s (DAttach ifp dlt hdrlen) = Inr (s\<lparr>ds_dev := bpfattach (ds_dev s) ifp dlt hdrlen\<rparr>)"
| "dev_exec sys s (DSysctl name error newval) = Inr (s\<lparr>ds_dev := fst (bpf_sysctl_locked (ds_dev s) name error newval)\<rparr>)"
| "dev_exec sys s (DTap i te pkt direction) =
     (case find_if (ds_dev s) i of
        None \<Rightarrow> Inl ''null pointer''
      | Some bp \<Rightarrow> on_dev (bpf_tap te (ds_dev s) bp pkt direction) (\<lambda>(v, n). s\<lparr>ds_dev := v\<rparr>))"
| "dev_exec sys s (DMtap i te st ms qid direction) =
     (case find_if (ds_dev s) i of
        None \<Rightarrow> Inl ''null pointer''
      | Some bp \<Rightarrow> on_dev (bpf_mtap te (ds_dev s) bp st ms qid direction) (\<lambda>(v, n). s\<lparr>ds_dev := v\<rparr>))"

inductive dev_reach :: "bpf_sys \<Rightarrow> dstate \<Rightarrow> bool" for sys where
  init: "dev_reach sys dev_init"
| step: "dev_reach sys s \<Longrightarrow> legal s op \<Longrightarrow> dev_exec sys s op = Inr s' \<Longrightarrow> dev_reach sys s'"

definition run_ok :: "dstate \<Rightarrow> bool" where
  "run_ok s \<longleftrightarrow> dev_ok (ds_dev s) (ds_open s) \<and> (\<forall>u. held_ok (bpf_d_list (ds_dev s) u) (u \<in> ds_open s) (ds_wait s u) (ds_notes s u))"

lemma run_ok_init: "run_ok dev_init"
  by (simp add: run_ok_def dev_init_def bpf_init_def dev_ok_def held_ok_def)

lemma run_ok_keeps: "run_ok s \<Longrightarrow> dev_ok v (ds_open s) \<Longrightarrow> keeps_v (ds_dev s) v \<Longrightarrow> run_ok (s\<lparr>ds_dev := v\<rparr>)"
  using held_keeps unfolding run_ok_def keeps_v_def by (simp, blast)

text \<open>A step that concerns one unit.\<close>

lemma run_ok_unit:
  assumes "run_ok s" "dev_ok v os" "\<And>x. x \<noteq> u \<Longrightarrow> bpf_d_list v x = bpf_d_list (ds_dev s) x" "\<And>x. x \<noteq> u \<Longrightarrow> (x \<in> os) = (x \<in> ds_open s)"
    "held_ok (bpf_d_list v u) (u \<in> os) w n"
  shows "run_ok (s\<lparr>ds_dev := v, ds_open := os, ds_wait := (ds_wait s)(u := w), ds_notes := (ds_notes s)(u := n)\<rparr>)"
proof -
  have "held_ok (bpf_d_list v x) (x \<in> os) (((ds_wait s)(u := w)) x) (((ds_notes s)(u := n)) x)" for x
    using assms(1,3-5) by (cases "x = u") (auto simp: run_ok_def)
  then show ?thesis using assms(2) by (simp add: run_ok_def)
qed

lemma run_ok_open:
  assumes "run_ok s" "dev_ok v os" "\<forall>x. x \<noteq> u \<longrightarrow> bpf_d_list v x = bpf_d_list (ds_dev s) x" "os - {u} = ds_open s - {u}"
    "held_ok (bpf_d_list v u) (u \<in> os) (ds_wait s u) (ds_notes s u)"
  shows "run_ok (s\<lparr>ds_dev := v, ds_open := os\<rparr>)"
  using run_ok_unit [OF assms(1,2) _ _ assms(5)] assms(3,4) by auto

lemma run_ok_wait:
  assumes "run_ok s" "dev_ok v (ds_open s)" "\<forall>x. x \<noteq> u \<longrightarrow> bpf_d_list v x = bpf_d_list (ds_dev s) x"
    "held_ok (bpf_d_list v u) (u \<in> ds_open s) w (ds_notes s u)"
  shows "run_ok (s\<lparr>ds_dev := v, ds_wait := (ds_wait s)(u := w)\<rparr>)"
  using run_ok_unit [OF assms(1,2) _ _ assms(4)] assms(3) by auto

lemma run_ok_notes:
  assumes "run_ok s" "dev_ok v (ds_open s)" "\<forall>x. x \<noteq> u \<longrightarrow> bpf_d_list v x = bpf_d_list (ds_dev s) x"
    "held_ok (bpf_d_list v u) (u \<in> ds_open s) (ds_wait s u) n"
  shows "run_ok (s\<lparr>ds_dev := v, ds_notes := (ds_notes s)(u := n)\<rparr>)"
  using run_ok_unit [OF assms(1,2) _ _ assms(4)] assms(3) by auto

lemma run_okD: "run_ok s \<Longrightarrow> dev_ok (ds_dev s) (ds_open s)" "run_ok s \<Longrightarrow> held_ok (bpf_d_list (ds_dev s) u) (u \<in> ds_open s) (ds_wait s u) (ds_notes s u)"
  by (simp_all add: run_ok_def)

lemma exec_open: "run_ok s \<Longrightarrow> \<exists>s'. dev_exec sys s (DOpen u nomem) = Inr s' \<and> run_ok s'"
proof -
  assume ok: "run_ok s"
  obtain v e where o: "bpfopen (ds_dev s) u nomem = (v, e)" by force
  from open_ok [OF run_okD(1) [OF ok] o] show ?thesis
  proof (elim disjE conjE exE)
    fix d assume d: "e = 0" "bpf_d_list (ds_dev s) u = None" "dev_ok v (insert u (ds_open s))" "bpf_d_list v = (bpf_d_list (ds_dev s))(u := Some d)" "bd_ref d = 1"
    have "held_ok (bpf_d_list v u) True (ds_wait s u) (ds_notes s u)" using run_okD(2) [OF ok, of u] d by (simp add: held_ok_def)
    then show ?thesis using run_ok_open [OF ok d(3), of u] d o by auto
  next
    assume "e \<noteq> 0" "v = ds_dev s"
    then show ?thesis using ok o by simp
  qed
qed

lemma exec_close: "sys_ok sys \<Longrightarrow> run_ok s \<Longrightarrow> u \<in> ds_open s \<Longrightarrow> \<exists>s'. dev_exec sys s (DClose u) = Inr s' \<and> run_ok s'"
proof -
  assume a: "sys_ok sys" "run_ok s" "u \<in> ds_open s"
  have "held_ok (bpf_d_list (ds_dev s) u) True (ds_wait s u) (ds_notes s u)" using run_okD(2) [OF a(2), of u] a(3) by simp
  from close_ok [OF a(1) run_okD(1) [OF a(2)] a(3) this] obtain v where v: "bpfclose sys (ds_dev s) u = Inr (v, 0)" "dev_ok v (ds_open s - {u})"
      "held_ok (bpf_d_list v u) False (ds_wait s u) (ds_notes s u)" "\<forall>x. x \<noteq> u \<longrightarrow> bpf_d_list v x = bpf_d_list (ds_dev s) x" by blast
  then show ?thesis using run_ok_open [OF a(2) v(2) v(4)] by (simp add: on_dev_def)
qed

lemma exec_note: "run_ok s \<Longrightarrow> u \<in> ds_open s \<Longrightarrow> \<exists>s'. dev_exec sys s (DNote u r ticks) = Inr s' \<and> run_ok s'"
proof -
  assume a: "run_ok s" "u \<in> ds_open s"
  have "held_ok (bpf_d_list (ds_dev s) u) True (ds_wait s u) (ds_notes s u)" using run_okD(2) [OF a(1), of u] a(2) by simp
  from kqfilter_ok [OF run_okD(1) [OF a(1)] a(2) this, of r ticks] obtain v e where v: "bpfkqfilter (ds_dev s) u r ticks = Inr (v, e)"
      "dev_ok v (ds_open s)" "held_ok (bpf_d_list v u) True (ds_wait s u) (if e = 0 then ds_notes s u + 1 else ds_notes s u)"
      "\<forall>x. x \<noteq> u \<longrightarrow> bpf_d_list v x = bpf_d_list (ds_dev s) x" by blast
  then show ?thesis using run_ok_notes [OF a(1) v(2,4), of "if e = 0 then ds_notes s u + 1 else ds_notes s u"] a(2) by (simp only: dev_exec.simps on_dev_def) simp
qed

lemma exec_unnote: "run_ok s \<Longrightarrow> 0 < ds_notes s u \<Longrightarrow> \<exists>s'. dev_exec sys s (DUnnote u) = Inr s' \<and> run_ok s'"
proof -
  assume a: "run_ok s" "0 < ds_notes s u"
  obtain d where d: "bpf_d_list (ds_dev s) u = Some d" "bd_ref d = (if u \<in> ds_open s then 1 else 0) + ds_wait s u + ds_notes s u" "0 < ds_wait s u \<Longrightarrow> has_bufs d"
    using run_okD(2) [OF a(1), of u] a(2) by (auto simp: held_ok_def split: option.splits)
  let ?v = "bpf_freed (ds_dev s) u d"
  have ok: "dev_ok ?v (ds_open s)"
    by (rule freed_ok [OF run_okD(1) [OF a(1)] d(1) refl dev_okD(1) [OF run_okD(1) [OF a(1)] d(1)]]) (use d(2) a(2) in \<open>auto split: if_splits\<close>)
  have "held_ok (bpf_d_list ?v u) (u \<in> ds_open s) (ds_wait s u) (ds_notes s u - 1)"
    unfolding freed_list using held_freed [of d "u \<in> ds_open s" "ds_wait s u" "ds_notes s u - 1"] d(2,3) a(2) by simp
  then show ?thesis using run_ok_notes [OF a(1) ok, of u] d(1) by (simp add: on_dev_def filt_bpfrdetach_def bpfilter_lookup_def freed_list)
qed

lemma exec_read: "run_ok s \<Longrightarrow> u \<in> ds_open s \<Longrightarrow> \<exists>s'. dev_exec sys s (DRead u resid ticks) = Inr s' \<and> run_ok s'"
proof -
  assume a: "run_ok s" "u \<in> ds_open s"
  let ?v = "ds_dev s"
  obtain d where d: "bpf_d_list ?v u = Some d" "bd_ref d = 1 + ds_wait s u + ds_notes s u"
    using run_okD(2) [OF a(1), of u] a(2) by (auto simp: held_ok_def split: option.splits)
  show ?thesis
  proof (cases "bd_bif d = None \<or> resid \<noteq> bd_bufsize d")
    case True
    then show ?thesis using a d(1) by (auto simp: on_dev_def dev_read_def bpfilter_lookup_def)
  next
    case False
    let ?r = "read_loop (read_start ticks d) ticks []"
    have bufs: "has_bufs d" using dev_okD(1) [OF run_okD(1) [OF a(1)] d(1)] False by (simp add: core_ok_def)
    then obtain ps where ps: "wait_ok ps ?r" using wait_loop [OF pending_keeps(1)] unfolding has_bufs_def by blast
    have id: "same_id_d (read_start ticks d) (wait_d ?r)" by (rule wait_same_id)
    have f: "dev_ok (fst (read_finish ?v u ?r)) (ds_open s)"
        "held_ok (bpf_d_list (fst (read_finish ?v u ?r)) u) True (if sleeps ?r then ds_wait s u + 1 else ds_wait s u) (ds_notes s u)"
        "snd (read_finish ?v u ?r) = None \<longleftrightarrow> sleeps ?r" "\<forall>x. x \<noteq> u \<longrightarrow> bpf_d_list (fst (read_finish ?v u ?r)) x = bpf_d_list ?v x"
      using finish_ok [OF run_okD(1) [OF a(1)] d(1) bufs ps, of "ds_wait s u" "ds_notes s u"] id d(2) a(2) by (simp_all add: same_id_d_def read_start_def)
    have "dev_read ?v u resid ticks = Inr (read_finish ?v u ?r)" using False d(1) by (auto simp: dev_read_def bpfilter_lookup_def)
    then show ?thesis using run_ok_wait [OF a(1) f(1,4), of "if sleeps ?r then ds_wait s u + 1 else ds_wait s u"] f(2,3) a(2)
      by (simp only: dev_exec.simps on_dev_def sum.case split_beta) simp
  qed
qed

lemma exec_wake: "run_ok s \<Longrightarrow> 0 < ds_wait s u \<Longrightarrow> \<exists>s'. dev_exec sys s (DWake u error ticks) = Inr s' \<and> run_ok s'"
proof -
  assume a: "run_ok s" "0 < ds_wait s u"
  let ?v = "ds_dev s" and ?k = "ds_wait s u - 1"
  obtain d where d: "bpf_d_list ?v u = Some d" "bd_ref d = (if u \<in> ds_open s then 1 else 0) + ds_wait s u + ds_notes s u" "has_bufs d"
    using run_okD(2) [OF a(1), of u] a(2) by (auto simp: held_ok_def split: option.splits)
  let ?r = "read_woken d error ticks"
  obtain ps where ps: "wait_ok ps ?r" using wait_woken d(3) unfolding has_bufs_def by blast
  have id: "same_id_d d (wait_d ?r)" by (rule wait_same_id)
  have r: "bd_ref (wait_d ?r) = (if u \<in> ds_open s then 1 else 0) + ?k + ds_notes s u + 1" using id d(2) a(2) by (simp add: same_id_d_def)
  have f: "dev_ok (fst (read_finish ?v u ?r)) (ds_open s)"
      "held_ok (bpf_d_list (fst (read_finish ?v u ?r)) u) (u \<in> ds_open s) (if sleeps ?r then ?k + 1 else ?k) (ds_notes s u)"
      "snd (read_finish ?v u ?r) = None \<longleftrightarrow> sleeps ?r" "\<forall>x. x \<noteq> u \<longrightarrow> bpf_d_list (fst (read_finish ?v u ?r)) x = bpf_d_list ?v x"
    using finish_ok [OF run_okD(1) [OF a(1)] d(1,3) ps _ r] id by (simp_all add: same_id_d_def)
  have "dev_woken ?v u error ticks = Inr (read_finish ?v u ?r)" using d(1) by (simp add: dev_woken_def bpfilter_lookup_def)
  moreover have k: "?k + 1 = ds_wait s u" using a(2) by simp
  ultimately show ?thesis using run_ok_wait [OF a(1) f(1,4) f(2) [unfolded k]] f(3)
    by (simp only: dev_exec.simps on_dev_def sum.case split_beta) simp
qed

lemma exec_tap:
  assumes ok: "run_ok s" and i: "find_if (ds_dev s) i \<noteq> None"
  shows "pkt \<noteq> [] \<Longrightarrow> length pkt < 2 ^ 31 \<Longrightarrow> \<exists>s'. dev_exec sys s (DTap i te pkt direction) = Inr s' \<and> run_ok s'"
    "dense (st, ms) \<Longrightarrow> \<exists>s'. dev_exec sys s (DMtap i te st ms qid direction) = Inr s' \<and> run_ok s'"
proof -
  obtain bp where bp: "find_if (ds_dev s) i = Some bp" "bp \<in> set (bpf_iflist (ds_dev s))" using i find_if_Some by blast
  {
    assume p: "pkt \<noteq> []" "length pkt < 2 ^ 31"
    obtain v n where v: "bpf_tap te (ds_dev s) bp pkt direction = Inr (v, n)" "dev_ok v (ds_open s)" "keeps_v (ds_dev s) v"
      using tap_ok [OF run_okD(1) [OF ok] bp(2) p, of te direction] by blast
    then show "\<exists>s'. dev_exec sys s (DTap i te pkt direction) = Inr s' \<and> run_ok s'"
      using run_ok_keeps [OF ok v(2,3)] bp(1) by (simp add: on_dev_def)
  next
    assume p: "dense (st, ms)"
    obtain v n where v: "bpf_mtap te (ds_dev s) bp st ms qid direction = Inr (v, n)" "dev_ok v (ds_open s)" "keeps_v (ds_dev s) v"
      using mtap_ok [OF run_okD(1) [OF ok] bp(2) p, of te qid direction] by blast
    then show "\<exists>s'. dev_exec sys s (DMtap i te st ms qid direction) = Inr s' \<and> run_ok s'"
      using run_ok_keeps [OF ok v(2,3)] bp(1) by (simp add: on_dev_def)
  }
qed

lemma exec_ok:
  assumes sys: "sys_ok sys" and ok: "run_ok s" and l: "legal s op"
  shows "\<exists>s'. dev_exec sys s op = Inr s' \<and> run_ok s'"
proof (cases op)
  case (DIoctl u cmd root ruid euid)
  then have u: "u \<in> ds_open s" using l by simp
  obtain v e out where v: "bpfioctl sys (ds_dev s) u cmd root ruid euid = Inr (v, e, out)" "dev_ok v (ds_open s)"
    using ioctl_ok [OF sys run_okD(1) [OF ok] u] by blast
  then show ?thesis using DIoctl run_ok_keeps [OF ok v(2) keeps_ioctl [OF run_okD(1) [OF ok] u v(1)]] by (simp add: on_dev_def)
next
  case (DPoll u events ticks)
  then show ?thesis using run_ok_keeps [OF ok] poll_ok [OF run_okD(1) [OF ok]] by simp
next
  case (DAttach ifp dlt hdrlen)
  then show ?thesis using run_ok_keeps [OF ok attach_ok [OF run_okD(1) [OF ok]]] by (simp add: keeps_v_def bpfattach_def option.rel_refl)
next
  case (DSysctl name error newval)
  then show ?thesis using run_ok_keeps [OF ok sysctl_ok [OF run_okD(1) [OF ok]]] l by (simp add: keeps_v_def sysctl_list option.rel_refl)
qed (use l ok sys exec_open [OF ok] exec_close [OF sys ok] exec_note [OF ok] exec_unnote [OF ok] exec_read [OF ok] exec_wake [OF ok] exec_tap [OF ok]
  in \<open>simp_all del: dev_exec.simps\<close>)

lemma reach_ok: "dev_reach sys s \<Longrightarrow> sys_ok sys \<Longrightarrow> run_ok s"
  by (induction rule: dev_reach.induct) (use run_ok_init exec_ok in fastforce)+

end
