(* ===== verification/Bpf_Write.thy ===== *)
theory Bpf_Write
  imports Bpf_Dev_Inv
begin

text \<open>
  Writing to the packet filter device: \<^verbatim>\<open>bpf_movein\<close> makes a packet of the user's bytes, with the
  link header in the address, and \<^verbatim>\<open>bpfwrite\<close> hands it to the interface.
\<close>

subsection \<open>Link types\<close>

definition DLT_NULL :: nat where "DLT_NULL = 0"
definition DLT_EN10MB :: nat where "DLT_EN10MB = 1"
definition DLT_SLIP :: nat where "DLT_SLIP = 8"
definition DLT_PPP :: nat where "DLT_PPP = 9"
definition DLT_LOOP :: nat where "DLT_LOOP = 12"
definition DLT_RAW :: nat where "DLT_RAW = 14"
definition DLT_IEEE802_11 :: nat where "DLT_IEEE802_11 = 105"
definition DLT_IEEE802_11_RADIO :: nat where "DLT_IEEE802_11_RADIO = 127"

definition AF_UNSPEC :: u8 where "AF_UNSPEC = 0"
definition AF_INET :: u8 where "AF_INET = 2"
definition pseudo_AF_HDRCMPLT :: u8 where "pseudo_AF_HDRCMPLT = 31"

definition PACKET_TAG_DLT :: u16 where "PACKET_TAG_DLT = 0x0100"

text \<open>The address family and the length of the link header.\<close>

definition link_hdr :: "nat \<Rightarrow> (u8 \<times> nat) option" where
  "link_hdr linktype =
     (if linktype = DLT_SLIP then Some (AF_INET, 0)
      else if linktype = DLT_PPP then Some (AF_UNSPEC, 0)
      else if linktype = DLT_EN10MB then Some (AF_UNSPEC, ETHER_HDR_LEN)
      else if linktype = DLT_IEEE802_11 \<or> linktype = DLT_IEEE802_11_RADIO then Some (AF_UNSPEC, 0)
      else if linktype = DLT_RAW \<or> linktype = DLT_NULL then Some (AF_UNSPEC, 0)
      else if linktype = DLT_LOOP then Some (AF_UNSPEC, 4)
      else None)"

subsection \<open>A packet from the user\<close>

record sockaddr =
  sa_family :: u8
  sa_data :: "u8 list"

text \<open>The mbuf for \<open>len\<close> bytes, with the length of the packet behind its link header.\<close>

definition movein_new :: "mstore \<Rightarrow> nat \<Rightarrow> nat \<Rightarrow> string + (mstore \<times> mbuf)" where
  "movein_new st len hlen =
     (case m_gethdr st True MT_DATA of
        (None, st) \<Rightarrow> Inl ''null pointer''
      | (Some m, st) \<Rightarrow>
          let m = m\<lparr>m_pkthdr := (m_pkthdr m)\<lparr>ph_len := int len - int hlen\<rparr>\<rparr>
          in if len > MHLEN then mclgeti st m True len else Inr (st, m))"

text \<open>The link header moves to the address; for the loopback it is the address family.\<close>

definition movein_hdr :: "mstore \<Rightarrow> mbuf \<Rightarrow> nat \<Rightarrow> nat \<Rightarrow> u8 \<Rightarrow> mbuf \<times> sockaddr" where
  "movein_hdr st m linktype hlen family =
     (let h = mem_read (m_buf st m) (m_data m) hlen
      in if hlen = 0 then (m, \<lparr>sa_family = family, sa_data = []\<rparr>)
         else (m\<lparr>m_len := m_len m - hlen, m_data := m_data m + hlen\<rparr>,
               if linktype = DLT_LOOP then \<lparr>sa_family = ucast (of_le32 (h ! 3) (h ! 2) (h ! 1) (h ! 0)), sa_data = []\<rparr>
               else \<lparr>sa_family = family, sa_data = h\<rparr>))"

text \<open>
  \<open>bytes\<close> are what the user writes and \<open>uerr\<close> is the result of \<^verbatim>\<open>uiomovei\<close>.  The result is an
  error or a packet with its address.
\<close>

definition bpf_movein :: "tap_env \<Rightarrow> mstore \<Rightarrow> u8 list \<Rightarrow> int \<Rightarrow> nat \<Rightarrow> bpf_insn list option \<Rightarrow> string + mstore \<times> (int + mbuf \<times> sockaddr)" where
  "bpf_movein te st bytes uerr linktype fcode =
     (case link_hdr linktype of
        None \<Rightarrow> Inr (st, Inl EIO)
      | Some (family, hlen) \<Rightarrow>
          let len = length bytes
          in if len > MAXMCLBYTES then Inr (st, Inl EIO)
             else case movein_new st len hlen of
                    Inl e \<Rightarrow> Inl e
                  | Inr (st, m) \<Rightarrow>
                      if len > MHLEN \<and> \<not> is_ext m then Inr (m_freem st [m], Inl (int ENOBUFS))
                      else
                        let m = m\<lparr>m_len := len\<rparr>
                        in if uerr \<noteq> 0 then Inr (m_freem st [m], Inl uerr)
                           else
                             let (st, m) = mb_write st m 0 bytes
                             in case bpf_filter fcode (Contig (m_bytes st m)) (word_of_nat len) (word_of_nat len) (te_ubl te) (te_ubr te) of
                                  Some (Ret slen) \<Rightarrow>
                                    if unat slen < len then Inr (m_freem st [m], Inl EPERM)
                                    else if m_len m < hlen then Inr (m_freem st [m], Inl EPERM)
                                    else
                                      let (m, sa) = movein_hdr st m linktype hlen family
                                      in (case m_tag_get st PACKET_TAG_DLT 4 True of
                                            Inl e \<Rightarrow> Inl e
                                          | Inr (None, st) \<Rightarrow> Inl ''null pointer''
                                          | Inr (Some t, st) \<Rightarrow>
                                              Inr (st, Inr (m_tag_prepend m (t\<lparr>m_tag_data := le32 (word_of_nat linktype)\<rparr>), sa)))
                                | _ \<Rightarrow> Inl ''bpf_filter'')"

abbreviation ENETDOWN :: int where "ENETDOWN \<equiv> 50"
abbreviation EMSGSIZE :: int where "EMSGSIZE \<equiv> 40"

text \<open>What the device uses of an interface when it sends.\<close>

record if_send =
  if_up :: bool
  if_mtu :: int
  if_output :: "mstore \<Rightarrow> mbuf \<Rightarrow> sockaddr \<Rightarrow> mstore \<times> int"

definition bpfwrite :: "tap_env \<Rightarrow> (nat \<Rightarrow> if_send) \<Rightarrow> bpf_dev \<Rightarrow> nat \<Rightarrow> mstore \<Rightarrow> u8 list \<Rightarrow> int \<Rightarrow> string + mstore \<times> int" where
  "bpfwrite te ifs v u st bytes uerr =
     (case bpfilter_lookup v u of
        None \<Rightarrow> Inl ''null pointer''
      | Some d \<Rightarrow>
          (case bd_bif d of
             None \<Rightarrow> Inr (st, ENXIO)
           | Some i \<Rightarrow>
               (case find_if v i of
                  None \<Rightarrow> Inl ''null pointer''
                | Some bp \<Rightarrow>
                    let ifp = ifs (bif_ifp bp)
                    in if \<not> if_up ifp then Inr (st, ENETDOWN)
                       else if bytes = [] then Inr (st, 0)
                       else case bpf_movein te st bytes uerr (bif_dlt bp) (bd_wfilter d) of
                              Inl e \<Rightarrow> Inl e
                            | Inr (st, Inl error) \<Rightarrow> Inr (st, error)
                            | Inr (st, Inr (m, dst)) \<Rightarrow>
                                if ph_len (m_pkthdr m) > if_mtu ifp then Inr (m_freem st [m], EMSGSIZE)
                                else Inr (if_output ifp st m
                                       (if bd_hdrcmplt d \<and> sa_family dst = AF_UNSPEC then dst\<lparr>sa_family := pseudo_AF_HDRCMPLT\<rparr> else dst)))))"

subsection \<open>The packet that is sent\<close>

lemma link_hdr_le: "link_hdr l = Some (family, hlen) \<Longrightarrow> hlen \<le> 14 \<and> (l = DLT_LOOP \<longrightarrow> hlen = 4)"
  by (auto simp: link_hdr_def ETHER_HDR_LEN_def DLT_LOOP_def DLT_SLIP_def DLT_PPP_def DLT_EN10MB_def DLT_IEEE802_11_def
      DLT_IEEE802_11_RADIO_def DLT_RAW_def DLT_NULL_def split: if_splits)

text \<open>The header field is the only difference from the mbuf of \<^verbatim>\<open>m_defrag\<close>.\<close>

lemma movein_new_eq:
  assumes "store_ok st" "len \<le> MAXMCLBYTES"
  shows "\<exists>st' m. defrag_new st MT_DATA len True = Inr (st', Some m) \<and>
    movein_new st len hlen = Inr (st', m\<lparr>m_pkthdr := (m_pkthdr m)\<lparr>ph_len := int len - int hlen\<rparr>\<rparr>) \<and> ph_tags (m_pkthdr m) = []"
proof -
  obtain m0 st0 where g: "m_gethdr st True MT_DATA = (Some m0, st0)" "ph_tags (m_pkthdr m0) = []" by (simp add: m_gethdr_def m_inithdr_def Let_def)
  obtain pi where pi: "m_clpool len = Some pi" using assms(2) m_clpool_None [of len] by (cases "m_clpool len") auto
  let ?h = "\<lambda>m. m\<lparr>m_pkthdr := (m_pkthdr m)\<lparr>ph_len := int len - int hlen\<rparr>\<rparr>" and ?s = "st0\<lparr>cl_avail := (cl_avail st0)(pi := cl_avail st0 pi - 1)\<rparr>"
  obtain st1 m1 where e: "mextadd ?s m0 pi = (st1, m1)" by force
  have m1: "mextadd ?s (?h m0) pi = (st1, ?h m1)" "is_ext m1" "m_pkthdr m1 = m_pkthdr m0"
    using e by (auto simp: mextadd_def flag_simps Let_def)
  show ?thesis
  proof (cases "len > MHLEN")
    case True
    then show ?thesis using g pi e m1 by (simp add: defrag_new_def movein_new_def mclgeti_eq)
  next
    case False
    then show ?thesis using g by (simp add: defrag_new_def movein_new_def)
  qed
qed

text \<open>What \<^verbatim>\<open>bpf_movein\<close> gives back, and that no other chain \<open>os\<close> changes.\<close>

definition moved_in :: "mstore \<Rightarrow> mbuf list \<Rightarrow> u8 list \<Rightarrow> nat \<Rightarrow> mstore \<Rightarrow> mbuf \<Rightarrow> sockaddr \<Rightarrow> bool" where
  "moved_in st os bytes linktype st' m sa \<longleftrightarrow>
     (\<exists>family hlen. link_hdr linktype = Some (family, hlen) \<and> hlen \<le> length bytes \<and> m_bytes st' m = drop hlen bytes \<and>
        ph_len (m_pkthdr m) = int (length bytes - hlen) \<and> ph_tags (m_pkthdr m) = [\<lparr>m_tag_id = PACKET_TAG_DLT, m_tag_data = le32 (word_of_nat linktype)\<rparr>] \<and>
        (linktype \<noteq> DLT_LOOP \<longrightarrow> sa = \<lparr>sa_family = family, sa_data = take hlen bytes\<rparr>)) \<and>
     chain_ok st' (m # os) \<and> chain_bytes st' os = chain_bytes st os"

text \<open>The verdict of the write filter, and why a packet is refused.\<close>

definition write_slen :: "tap_env \<Rightarrow> bpf_insn list option \<Rightarrow> u8 list \<Rightarrow> nat \<Rightarrow> bool" where
  "write_slen te fcode bytes n \<longleftrightarrow>
     (\<exists>slen. bpf_filter fcode (Contig bytes) (word_of_nat (length bytes)) (word_of_nat (length bytes)) (te_ubl te) (te_ubr te) = Some (Ret slen) \<and> n = unat slen)"

definition refused :: "tap_env \<Rightarrow> u8 list \<Rightarrow> int \<Rightarrow> nat \<Rightarrow> bpf_insn list option \<Rightarrow> int \<Rightarrow> bool" where
  "refused te bytes uerr linktype fcode e \<longleftrightarrow>
     e = EIO \<and> (link_hdr linktype = None \<or> MAXMCLBYTES < length bytes) \<or> e = uerr \<and> uerr \<noteq> 0 \<or>
     e = EPERM \<and> ((\<exists>n. write_slen te fcode bytes n \<and> n < length bytes) \<or> (\<exists>family hlen. link_hdr linktype = Some (family, hlen) \<and> length bytes < hlen))"

lemma mb_write_hdr:
  "mb_write st (m\<lparr>m_pkthdr := h, m_len := n\<rparr>) off ys = (let (st', m') = mb_write st m off ys in (st', m'\<lparr>m_pkthdr := h, m_len := n\<rparr>))"
  by (simp add: mb_write_def is_ext_def)

lemma movein_hdr_eq: "movein_hdr st m linktype hlen family =
    (if hlen = 0 then m else m\<lparr>m_len := m_len m - hlen, m_data := m_data m + hlen\<rparr>, snd (movein_hdr st m linktype hlen family))"
  by (simp add: movein_hdr_def Let_def)

lemma movein_hdr_ok:
  assumes ok: "chain_ok st (m # os)" and b: "m_bytes st m = bytes" "m_len m = length bytes" "hlen \<le> length bytes" and h: "movein_hdr st m linktype hlen family = (m', sa)"
  shows "chain_ok st (m' # os)" "m_bytes st m' = drop hlen bytes" "m_pkthdr m' = m_pkthdr m"
    "linktype \<noteq> DLT_LOOP \<Longrightarrow> sa = \<lparr>sa_family = family, sa_data = take hlen bytes\<rparr>"
proof -
  have wf: "wf_mbuf st m" using ok by (simp add: chain_ok_def)
  have m': "m' = (if hlen = 0 then m else m\<lparr>m_len := m_len m - hlen, m_data := m_data m + hlen\<rparr>)" using h by (subst (asm) movein_hdr_eq) simp
  have "wf_mbuf st m'" using wf b(2,3) unfolding m' by (auto simp: wf_mbuf_def m_buf_def is_ext_def is_pkthdr_def)
  then show "chain_ok st (m' # os)" by (rule chain_ok_replace [OF ok]) (simp_all add: m' is_ext_def)
  have "drop hlen (m_bytes st m) = mem_read (m_buf st m) (m_data m + hlen) (m_len m - hlen)"
    by (simp add: m_bytes_def mem_read_def drop_take add.commute)
  then show "m_bytes st m' = drop hlen bytes" using b(1) unfolding m' by (cases "hlen = 0") simp_all
  show "m_pkthdr m' = m_pkthdr m" unfolding m' by simp
  have "mem_read (m_buf st m) (m_data m) hlen = take hlen bytes"
    using b(2,3) unfolding b(1) [symmetric] m_bytes_def by (simp add: mem_read_def min_def)
  then show "linktype \<noteq> DLT_LOOP \<Longrightarrow> sa = \<lparr>sa_family = family, sa_data = take hlen bytes\<rparr>" using h by (auto simp: movein_hdr_def Let_def split: if_splits)
qed

lemma tagged:
  assumes "chain_ok st (m # os)"
  shows "chain_ok (st\<lparr>tag_avail := k\<rparr>) (m_tag_prepend m t # os)" "m_bytes (st\<lparr>tag_avail := k\<rparr>) (m_tag_prepend m t) = m_bytes st m"
    "chain_bytes (st\<lparr>tag_avail := k\<rparr>) os = chain_bytes st os"
proof -
  let ?s = "st\<lparr>tag_avail := k\<rparr>"
  have wf: "wf_mbuf ?s n = wf_mbuf st n" for n by (simp add: wf_mbuf_def m_buf_def)
  have "chain_ok ?s (m # os)" using assms by (simp add: chain_ok_def wf list_all_iff)
  then show "chain_ok ?s (m_tag_prepend m t # os)"
    by (rule chain_ok_replace) (use assms in \<open>simp_all add: m_tag_prepend_def wf is_ext_def chain_ok_def Let_def\<close>)
  show "m_bytes ?s (m_tag_prepend m t) = m_bytes st m" by (simp add: m_tag_prepend_def m_bytes_def m_buf_def is_ext_def Let_def)
  show "chain_bytes ?s os = chain_bytes st os" by (rule chain_bytes_cong) simp
qed

lemma movein_freed:
  assumes "chain_ok st1 (m # os)" "chain_bytes st1 os = chain_bytes st os" "\<not> zeroize m"
  shows "chain_ok (m_freem st1 [m]) os \<and> chain_bytes (m_freem st1 [m]) os = chain_bytes st os"
  using chain_ok_freem [of st1 "[m]" os] assms by simp

lemma movein_ok:
  assumes ok: "chain_ok st os" "store_ok st" and f: "filter_ok fcode" and b: "bytes \<noteq> []"
  shows "\<exists>st' r. bpf_movein te st bytes uerr linktype fcode = Inr (st', r) \<and>
    (case r of Inl e \<Rightarrow> refused te bytes uerr linktype fcode e \<and> chain_ok st' os \<and> chain_bytes st' os = chain_bytes st os
     | Inr (m, sa) \<Rightarrow> moved_in st os bytes linktype st' m sa \<and> uerr = 0 \<and> \<not> zeroize m \<and> (\<exists>n. write_slen te fcode bytes n \<and> length bytes \<le> n))"
proof -
  let ?len = "length bytes"
  consider "link_hdr linktype = None \<or> ?len > MAXMCLBYTES" | family hlen where "link_hdr linktype = Some (family, hlen)" "?len \<le> MAXMCLBYTES"
    by (metis linorder_not_less not_Some_eq surj_pair)
  then show ?thesis
  proof cases
    case 1
    then show ?thesis using ok(1) by (auto simp: bpf_movein_def refused_def Let_def split: option.splits)
  next
    case (2 family hlen)
    let ?hd = "\<lambda>m. m\<lparr>m_pkthdr := (m_pkthdr m)\<lparr>ph_len := int ?len - int hlen\<rparr>\<rparr>"
    obtain st1 m0 where n: "defrag_new st MT_DATA ?len True = Inr (st1, Some m0)" "movein_new st ?len hlen = Inr (st1, ?hd m0)" "ph_tags (m_pkthdr m0) = []"
      using movein_new_eq [OF ok(2) 2(2)] by blast
    obtain st2 m1 where w: "mb_write st1 m0 0 bytes = (st2, m1)" by force
    note new = defrag_new_ok [OF ok n(1)] and cp = defrag_copy [OF ok n(1) w]
    let ?m = "m1\<lparr>m_pkthdr := (m_pkthdr m0)\<lparr>ph_len := int ?len - int hlen\<rparr>, m_len := ?len\<rparr>"
    have fl: "m_flags m1 = m_flags m0" using w by (auto simp: mb_write_def split: if_splits)
    have z: "\<not> zeroize (?hd m0\<lparr>m_len := ?len\<rparr>)" "\<not> zeroize ?m" using new(7) fl by (simp_all add: zeroize_def)
    have ext: "(?len > MHLEN \<and> \<not> is_ext (?hd m0)) = False" using new(8) by (simp add: is_ext_def)
    have room: "wf_mbuf st1 (?hd m0\<lparr>m_len := ?len\<rparr>)" using new(1,4) by (auto simp: chain_ok_def wf_mbuf_def m_buf_def is_ext_def is_pkthdr_def)
    have c1: "chain_ok st1 (?hd m0\<lparr>m_len := ?len\<rparr> # os)" by (rule chain_ok_replace [OF new(1) room]) (simp_all add: is_ext_def)
    have w2: "mb_write st1 (?hd m0\<lparr>m_len := ?len\<rparr>) 0 bytes = (st2, ?m)" using mb_write_hdr [where st = st1 and m = m0 and off = 0 and ys = bytes] w by simp
    let ?m2 = "m1\<lparr>m_pkthdr := (m_pkthdr m1)\<lparr>ph_len := int ?len\<rparr>, m_len := ?len\<rparr>"
    have m2: "?m = ?m2\<lparr>m_pkthdr := (m_pkthdr m0)\<lparr>ph_len := int ?len - int hlen\<rparr>\<rparr>" by simp
    have wf2: "wf_mbuf st2 ?m" using cp(1) unfolding m2 wf_mbuf_update(1) by (simp add: chain_ok_def)
    have c2: "chain_ok st2 (?m # os)" by (rule chain_ok_replace [OF cp(1) wf2]) (simp_all add: is_ext_def)
    have by2: "m_bytes st2 ?m = bytes" "m_len ?m = ?len" using cp(3) unfolding m2 m_bytes_update(2) by simp_all
    have rd: "readable (Contig bytes) (word_of_nat ?len)" using b 2(2) by (auto simp: contig_ok_def MAXMCLBYTES_def)
    obtain slen where sl: "bpf_filter fcode (Contig bytes) (word_of_nat ?len) (word_of_nat ?len) (te_ubl te) (te_ubr te) = Some (Ret slen)"
      using filter_returns [OF f rd] by blast
    obtain m3 sa where h: "movein_hdr st2 ?m linktype hlen family = (m3, sa)" by force
    let ?t = "\<lparr>m_tag_id = PACKET_TAG_DLT, m_tag_data = le32 (word_of_nat linktype)\<rparr>"
    have r: "bpf_movein te st bytes uerr linktype fcode =
        (if uerr \<noteq> 0 then Inr (m_freem st1 [?hd m0\<lparr>m_len := ?len\<rparr>], Inl uerr)
         else if unat slen < ?len \<or> ?len < hlen then Inr (m_freem st2 [?m], Inl EPERM)
         else Inr (st2\<lparr>tag_avail := tag_avail st2 - 1\<rparr>, Inr (m_tag_prepend m3 ?t, sa)))"
      using 2 n(2) w2 sl h by2 unfolding bpf_movein_def Let_def
      by (simp add: ext m_tag_get_def PACKET_TAG_MAXSIZE_def del: m_bytes_update)
    consider "uerr \<noteq> 0" | "uerr = 0" "unat slen < ?len \<or> ?len < hlen" | "uerr = 0" "?len \<le> unat slen" "hlen \<le> ?len" by linarith
    then show ?thesis
    proof cases
      case 1
      then show ?thesis using r movein_freed [OF c1 _ z(1)] new(2) by (simp add: refused_def)
    next
      case lt: 2
      then have "refused te bytes uerr linktype fcode EPERM" using sl 2(1) by (auto simp: refused_def write_slen_def)
      then show ?thesis using lt r movein_freed [OF c2 _ z(2)] cp(2) by simp
    next
      case 3
      note hd = movein_hdr_ok [OF c2 by2 3(3) h]
      note tg = tagged(1,2) [OF hd(1), where t = ?t and k = "tag_avail st2 - 1"]
      have ph: "ph_len (m_pkthdr (m_tag_prepend m3 ?t)) = int ?len - int hlen" "ph_tags (m_pkthdr (m_tag_prepend m3 ?t)) = [?t]"
        using hd(3) n(3) by (simp_all add: m_tag_prepend_def Let_def)
      have "moved_in st os bytes linktype (st2\<lparr>tag_avail := tag_avail st2 - 1\<rparr>) (m_tag_prepend m3 ?t) sa"
        using tg(1,2) tagged(3) [OF hd(1)] hd(2,4) ph 2(1) 3(3) cp(2) unfolding moved_in_def by (simp add: of_nat_diff)
      moreover have "\<not> zeroize (m_tag_prepend m3 ?t)" using z(2) h by (auto simp: m_tag_prepend_def zeroize_def movein_hdr_def Let_def split: if_splits)
      moreover have "write_slen te fcode bytes (unat slen)" using sl by (auto simp: write_slen_def)
      ultimately show ?thesis using r 3 by auto
    qed
  qed
qed

text \<open>What \<^verbatim>\<open>bpfwrite\<close> does when it sends nothing.\<close>

definition not_sent :: "tap_env \<Rightarrow> if_send \<Rightarrow> bpf_if \<Rightarrow> bpf_insn list option \<Rightarrow> u8 list \<Rightarrow> int \<Rightarrow> int \<Rightarrow> bool" where
  "not_sent te ifp bp fcode bytes uerr e \<longleftrightarrow>
     e = ENETDOWN \<and> \<not> if_up ifp \<or> e = 0 \<and> bytes = [] \<or> refused te bytes uerr (bif_dlt bp) fcode e \<or>
     e = EMSGSIZE \<and> (\<exists>family hlen. link_hdr (bif_dlt bp) = Some (family, hlen) \<and> if_mtu ifp < int (length bytes - hlen))"

definition sent_to :: "bpf_d \<Rightarrow> sockaddr \<Rightarrow> sockaddr" where
  "sent_to d dst = (if bd_hdrcmplt d \<and> sa_family dst = AF_UNSPEC then dst\<lparr>sa_family := pseudo_AF_HDRCMPLT\<rparr> else dst)"

lemma write_ok:
  assumes ok: "dev_ok v os'" and d: "bpf_d_list v u = Some d" "bd_bif d = Some i" "find_if v i = Some bp" and st: "chain_ok st os" "store_ok st"
  shows "(\<exists>st' e. bpfwrite te ifs v u st bytes uerr = Inr (st', e) \<and> not_sent te (ifs (bif_ifp bp)) bp (bd_wfilter d) bytes uerr e \<and>
      chain_ok st' os \<and> chain_bytes st' os = chain_bytes st os) \<or>
    (\<exists>st' m dst n. bpfwrite te ifs v u st bytes uerr = Inr (if_output (ifs (bif_ifp bp)) st' m (sent_to d dst)) \<and>
      moved_in st os bytes (bif_dlt bp) st' m dst \<and> ph_len (m_pkthdr m) \<le> if_mtu (ifs (bif_ifp bp)) \<and>
      write_slen te (bd_wfilter d) bytes n \<and> length bytes \<le> n)"
proof -
  let ?i = "ifs (bif_ifp bp)"
  have f: "filter_ok (bd_wfilter d)" using dev_okD(1) [OF ok d(1)] by (simp add: core_ok_def)
  show ?thesis
  proof (cases "\<not> if_up ?i \<or> bytes = []")
    case True
    let ?e = "if \<not> if_up ?i then ENETDOWN else 0"
    have "bpfwrite te ifs v u st bytes uerr = Inr (st, ?e)" "not_sent te ?i bp (bd_wfilter d) bytes uerr ?e"
      using True d by (simp_all add: bpfwrite_def bpfilter_lookup_def not_sent_def Let_def)
    then show ?thesis using st(1) by blast
  next
    case False
    obtain st' r where r: "bpf_movein te st bytes uerr (bif_dlt bp) (bd_wfilter d) = Inr (st', r)"
        "case r of Inl e \<Rightarrow> refused te bytes uerr (bif_dlt bp) (bd_wfilter d) e \<and> chain_ok st' os \<and> chain_bytes st' os = chain_bytes st os
         | Inr (m, sa) \<Rightarrow> moved_in st os bytes (bif_dlt bp) st' m sa \<and> uerr = 0 \<and> \<not> zeroize m \<and> (\<exists>n. write_slen te (bd_wfilter d) bytes n \<and> length bytes \<le> n)"
      using movein_ok [OF st f, of bytes te uerr "bif_dlt bp"] False by blast
    show ?thesis
    proof (cases r)
      case (Inl e)
      have "bpfwrite te ifs v u st bytes uerr = Inr (st', e)" "not_sent te ?i bp (bd_wfilter d) bytes uerr e"
        using Inl False d r by (simp_all add: bpfwrite_def bpfilter_lookup_def not_sent_def Let_def)
      then show ?thesis using r(2) Inl by auto
    next
      case (Inr msa)
      obtain m dst where m: "msa = (m, dst)" by force
      have w: "bpfwrite te ifs v u st bytes uerr =
          (if ph_len (m_pkthdr m) > if_mtu ?i then Inr (m_freem st' [m], EMSGSIZE) else Inr (if_output ?i st' m (sent_to d dst)))"
        using False d r(1) Inr m by (simp add: bpfwrite_def bpfilter_lookup_def sent_to_def)
      have mv: "moved_in st os bytes (bif_dlt bp) st' m dst" "\<not> zeroize m" "\<exists>n. write_slen te (bd_wfilter d) bytes n \<and> length bytes \<le> n" using r(2) Inr m by simp_all
      have c: "chain_ok st' (m # os)" "chain_bytes st' os = chain_bytes st os" using mv(1) by (simp_all add: moved_in_def)
      show ?thesis
      proof (cases "ph_len (m_pkthdr m) > if_mtu ?i")
        case True
        then have "not_sent te ?i bp (bd_wfilter d) bytes uerr EMSGSIZE" using mv(1) by (auto simp: not_sent_def moved_in_def)
        then show ?thesis using w True movein_freed [OF c mv(2)] by auto
      next
        case False
        then have "bpfwrite te ifs v u st bytes uerr = Inr (if_output ?i st' m (sent_to d dst))" "ph_len (m_pkthdr m) \<le> if_mtu ?i" using w by simp_all
        then show ?thesis using mv(1,3) by blast
      qed
    qed
  qed
qed

end
