(* ===== verification/Bpf_Dev_Laws.thy ===== *)
theory Bpf_Dev_Laws
  imports Bpf_Dev_Run Bpf_Write
begin

text \<open>
  The properties of the packet filter device: packets are filtered, stored, read and sent as its
  users expect, in any order of operations, and no operation leaves its memory.
\<close>

subsection \<open>Runs and samples\<close>

fun dev_run :: "bpf_sys \<Rightarrow> dstate \<Rightarrow> dev_op list \<Rightarrow> string + dstate" where
  "dev_run sys s [] = Inr s"
| "dev_run sys s (op # ops) =
     (if legal s op then (case dev_exec sys s op of Inl e \<Rightarrow> Inl e | Inr s \<Rightarrow> dev_run sys s ops) else Inl ''not legal'')"

lemma run_reach: "dev_run sys s ops = Inr s' \<Longrightarrow> dev_reach sys s \<Longrightarrow> dev_reach sys s'"
  by (induction sys s ops rule: dev_run.induct) (auto split: if_splits sum.splits intro: dev_reach.step)

definition sample_sys :: bpf_sys where
  "sample_sys = \<lparr>if_xname = (\<lambda>i. ''em0''), ifpromisc = (\<lambda>i on. 0), sys_hz = 100, sys_tick = 10000, sys_malloc = (\<lambda>n. replicate n 0)\<rparr>"

definition sample_te :: tap_env where
  "sample_te = \<lparr>te_ticks = 100, te_tv = (7, 8), te_ubl = (\<lambda>a n. a), te_ubr = (\<lambda>a n. a)\<rparr>"

text \<open>An Ethernet interface, and unit 0 that listens on it with small buffers and a filter.\<close>

definition sample_ops :: "dev_op list" where
  "sample_ops =
     [DAttach 0 1 14, DOpen 0 False, DIoctl 0 (BIOCSBLEN 64) True 0 0, DIoctl 0 (BIOCSETIF ''em0'') True 0 0,
      DIoctl 0 (BIOCSETF \<lparr>bf_len = length ip_filter, bf_insns = Some ip_filter\<rparr>) True 0 0, DIoctl 0 (BIOCIMMEDIATE 1) True 0 0]"

definition sample_d :: bpf_d where
  "sample_d = zero_d\<lparr>bd_sbuf := Some (replicate 64 0), bd_fbuf := Some (replicate 64 0), bd_bufsize := 64, bd_bif := Some 0, bd_rfilter := Some ip_filter,
     bd_immediate := 1, bd_sig := SIGIO, bd_ref := 1\<rparr>"

definition sample_if :: bpf_if where
  "sample_if = \<lparr>bif_id = 0, bif_dlist = [0], bif_driver = True, bif_dlt = 1, bif_hdrlen = 22, bif_ifp = 0\<rparr>"

definition sample_dev :: dstate where
  "sample_dev = dev_init\<lparr>ds_dev := bpf_init\<lparr>bpf_d_list := [0 \<mapsto> sample_d], bpf_iflist := [sample_if], bif_count := 1\<rparr>, ds_open := {0}\<rparr>"

lemma sys_ok_sample: "sys_ok sample_sys"
  by (simp add: sys_ok_def sample_sys_def)

lemma sample_filter: "bpf_validate 2097152 ip_filter" "length ip_filter \<le> 512"
  by code_simp+

lemma sample_reach: "dev_reach sample_sys sample_dev"
proof -
  have "dev_run sample_sys dev_init sample_ops = Inr sample_dev"
    using sample_filter
    by (simp add: sample_ops_def sample_dev_def dev_init_def bpf_init_def bpfattach_def bpfopen_def bpfilter_create_def bpfilter_lookup_def put_d_def
      on_dev_def bpfioctl_def ioctl_d_def needs_if_def bpf_setif_def bpf_allocbufs_def bpf_attachd_def upd_if_def bpf_reset_d_def bpf_setf_def
      set_filter_def Let_def BPF_MAXINSNS_def sample_sys_def sample_d_def sample_if_def zero_d_def BPF_WORDALIGN_def SIZEOF_BPF_HDR_def BPF_MINBUFSIZE_def)
  then show ?thesis using run_reach dev_reach.init by blast
qed

lemma sample_legal: "legal sample_dev (DTap 0 sample_te (replicate 12 1 @ [8, 0, 1]) 1)"
  by (simp add: sample_dev_def find_if_def sample_if_def)

lemma sample_find: "find_if (ds_dev sample_dev) 0 = Some sample_if" "bif_dlist sample_if = [0]" "bpf_d_list (ds_dev sample_dev) 0 = Some sample_d"
  by (simp_all add: sample_dev_def find_if_def sample_if_def)

subsection \<open>Safety\<close>





subsection \<open>Packets\<close>

text \<open>
  C17 (tap_delivers): \<^verbatim>\<open>bpf_tap\<close> hands a packet to every listener of the interface and to no one
  else.  A listener whose filter or direction refuses it only counts it; any other gets the first
  bytes its filter asks for behind the packets it has, or, when no buffer is free, counts a drop.
\<close>

theorem tap_delivers:
  assumes "sys_ok sys" "dev_reach sys s" "find_if (ds_dev s) i = Some bp" "pkt \<noteq> []" "length pkt < 2 ^ 31"
  shows "\<exists>v n. bpf_tap te (ds_dev s) bp pkt direction = Inr (v, n) \<and>
    (\<forall>u. u \<notin> set (bif_dlist bp) \<longrightarrow> bpf_d_list v u = bpf_d_list (ds_dev s) u) \<and>
    (\<forall>u\<in>set (bif_dlist bp). \<exists>d d' r. bpf_d_list (ds_dev s) u = Some d \<and> bpf_d_list v u = Some d' \<and>
       tap_filter te d (Contig pkt) (length pkt) (length pkt) = Inr r \<and> delivered (bif_hdrlen bp) (te_tv te) (tap_slen direction d r) pkt d d')"
proof -
  have "bp \<in> set (bpf_iflist (ds_dev s))" using find_if_Some [OF assms(3)] by simp
  from tap_ok [OF run_okD(1) [OF reach_ok [OF assms(2,1)]] this assms(4,5), of te direction] show ?thesis by blast
qed

lemma sample_verdict: "tap_filter sample_te sample_d (Contig (replicate 12 1 @ [8, 0, 1])) 15 15 = Inr 96"
proof -
  have "bpf_filter (Some ip_filter) (Contig (replicate 12 1 @ [8, 0, 1])) 15 15 (\<lambda>a n. a) (\<lambda>a n. a) = Some (Ret 96)" by code_simp
  then show ?thesis by (simp add: tap_filter_def sample_te_def sample_d_def)
qed

theorem tap_delivers_witness:
  "\<exists>v n d'. bpf_tap sample_te (ds_dev sample_dev) sample_if (replicate 12 1 @ [8, 0, 1]) 1 = Inr (v, n) \<and> bpf_d_list v 0 = Some d' \<and>
     delivered 22 (7, 8) 96 (replicate 12 1 @ [8, 0, 1]) sample_d d'"
proof -
  from tap_delivers [OF sys_ok_sample sample_reach sample_find(1), of "replicate 12 1 @ [8, 0, 1]" sample_te 1] sample_find(2,3) obtain v n d' r where
    "bpf_tap sample_te (ds_dev sample_dev) sample_if (replicate 12 1 @ [8, 0, 1]) 1 = Inr (v, n)" "bpf_d_list v 0 = Some d'"
    "tap_filter sample_te sample_d (Contig (replicate 12 1 @ [8, 0, 1])) 15 15 = Inr r"
    "delivered (bif_hdrlen sample_if) (te_tv sample_te) (tap_slen 1 sample_d r) (replicate 12 1 @ [8, 0, 1]) sample_d d'" by auto
  then show ?thesis using sample_verdict by (auto simp: sample_if_def sample_te_def tap_slen_def sample_d_def zero_d_def)
qed



text \<open>A header in front of the chain is seen as the first bytes of the packet.\<close>

lemma dummy_bytes: "length data \<le> MLEN \<Longrightarrow> m_bytes st (dummy_mbuf data) = data \<and> wf_mbuf st (dummy_mbuf data)"
  by (simp add: dummy_mbuf_def m_bytes_def m_buf_def wf_mbuf_def mem_read_def is_ext_def is_pkthdr_def has_flag_def)

lemma mtap_hdr_as_tap:
  assumes ok: "dev_ok v os" "bp \<in> set (bpf_iflist v)" and c: "data \<noteq> []" "length data \<le> MLEN" "ms \<noteq> []" "dense (st, dummy_mbuf data # ms)"
    and q: "\<And>u d. u \<in> set (bif_dlist bp) \<Longrightarrow> bpf_d_list v u = Some d \<Longrightarrow> bd_queue d = 0"
  shows "bpf_mtap_hdr te v bp data st ms qid direction None = bpf_tap te v bp (data @ chain_bytes st ms) direction"
proof -
  have b: "chain_bytes st (dummy_mbuf data # ms) = data @ chain_bytes st ms" using dummy_bytes [OF c(2)] by simp
  have "bpf_mtap0 te v bp st (dummy_mbuf data # ms) None direction None = bpf_tap te v bp (chain_bytes st (dummy_mbuf data # ms)) direction"
    by (rule mtap_same_tap [OF ok c(4)]) (use b c(1) q in auto)
  then show ?thesis using c(1,3) unfolding bpf_mtap_hdr_def b by (simp split: sum.split)
qed

text \<open>A packet with a VLAN tag is seen with the tag in its Ethernet header.\<close>

lemma mtap_ether_as_tap:
  assumes ok: "dev_ok v os" "bp \<in> set (bpf_iflist v)" and w: "wf_chain st (m # ms)" "14 < m_len m" "m_len m + chain_len ms + 4 < 2 ^ 31" "dense_tail (m\<lparr>m_len := m_len m - 14, m_data := m_data m + 14\<rparr> # ms)"
    and q: "\<And>u d. u \<in> set (bif_dlist bp) \<Longrightarrow> bpf_d_list v u = Some d \<Longrightarrow> bd_queue d = 0"
  shows "bpf_mtap_ether te v bp st (m # ms) (Some tag) qid direction =
    bpf_tap te v bp (take 12 (chain_bytes st (m # ms)) @ be16 0x8100 @ be16 tag @ drop 12 (chain_bytes st (m # ms))) direction"
proof -
  let ?m = "m\<lparr>m_len := m_len m - 14, m_data := m_data m + 14\<rparr>" and ?b = "m_bytes st m"
  define evh where "evh = take 12 (take 14 ?b) @ be16 0x8100 @ be16 tag @ drop 12 (take 14 ?b)"
  have wm: "wf_mbuf st m" "wf_mbuf st ?m" using w(1,2) by simp_all
  have lb: "length ?b = m_len m" using wm(1) by simp
  have le: "length evh = 18" using lb w(2) by (simp add: evh_def be16_def le16_def)
  have bm: "m_bytes st ?m = drop 14 ?b" by (simp add: m_bytes_def m_buf_def is_ext_def mem_read_def drop_take add.commute)
  have wrap: "(m_len m + 2 ^ 32 - 14) mod 2 ^ 32 = m_len m - 14"
  proof -
    have "m_len m + 2 ^ 32 - 14 = (m_len m - 14) + 2 ^ 32" "m_len m - 14 < 2 ^ 32" using w(2,3) by simp_all
    then show ?thesis by (simp only: mod_add_self2 mod_less)
  qed
  have "mem_read (m_buf st m) (m_data m) ETHER_HDR_LEN = take 14 ?b" using w(2) by (simp add: ETHER_HDR_LEN_def mem_read_less)
  then have e: "bpf_mtap_ether te v bp st (m # ms) (Some tag) qid direction = bpf_mtap_hdr te v bp evh st (?m # ms) qid direction None"
    unfolding bpf_mtap_ether_def evh_def Let_def ETHER_HDR_LEN_def by (simp add: wrap [simplified])
  have "evh \<noteq> []" "length evh \<le> MLEN" using le by (auto simp: msize_facts)
  moreover have "dense (st, dummy_mbuf evh # ?m # ms)"
    using w wm le dummy_bytes [of evh st] by (simp add: dense_def msize_facts chain_len_def dummy_mbuf_def)
  ultimately have "bpf_mtap_hdr te v bp evh st (?m # ms) qid direction None = bpf_tap te v bp (evh @ chain_bytes st (?m # ms)) direction"
    by (intro mtap_hdr_as_tap [OF ok]) (use q in auto)
  moreover have "evh @ chain_bytes st (?m # ms) = take 12 (chain_bytes st (m # ms)) @ be16 0x8100 @ be16 tag @ drop 12 (chain_bytes st (m # ms))"
  proof -
    have "drop 12 (take 14 ?b) @ drop 14 ?b = drop 12 ?b" using append_take_drop_id [of 2 "drop 12 ?b"] by (simp add: drop_take)
    then show ?thesis using lb w(2) bm by (simp add: evh_def)
  qed
  ultimately show ?thesis using e by simp
qed

subsection \<open>Reading\<close>

definition stream_start :: "bpf_d \<Rightarrow> stream" where
  "stream_start d = \<lparr>sd = d, sr = Idle, sgot = [], sseen = []\<rparr>"


definition sample_stream_d :: bpf_d where
  "sample_stream_d = zero_d\<lparr>bd_sbuf := Some (replicate 64 0), bd_fbuf := Some (replicate 64 0), bd_bufsize := 64, bd_bif := Some 0\<rparr>"

definition sample_cpfn :: "nat \<Rightarrow> string + u8 list" where
  "sample_cpfn n = Inr (take n [1, 2, 3])"


text \<open>A read on the device does with the descriptor what \<open>bpfread\<close> says, and frees it when it was the last to hold it.\<close>

lemma dev_read_bpfread:
  assumes "bpf_d_list v u = Some d"
  shows "dev_read v u resid ticks =
    (case bpfread d resid ticks [] 0 (\<lambda>d. d) of
       Asleep d \<Rightarrow> Inr (put_d u d v, None)
     | Returned e error bytes \<Rightarrow>
         if bd_bif d = None \<or> resid \<noteq> bd_bufsize d then Inr (v, Some (error, bytes))
         else Inr (if bd_ref e > 0 then put_d u e v else bpfilter_destroy v u, Some (error, bytes)))"
proof (cases "bd_bif d = None \<or> resid \<noteq> bd_bufsize d")
  case True
  then show ?thesis using assms by (auto simp: dev_read_def bpfread_def bpfilter_lookup_def)
next
  case False
  then have "bd_bif d \<noteq> None" "resid = bd_bufsize d" by simp_all
  then show ?thesis using assms
    by (cases "read_loop (read_start ticks d) ticks []")
      (simp_all add: dev_read_def bpfread_def bpfilter_lookup_def read_finish_def bpf_freed_def read_done_def bpf_held_def Let_def del: not_None_eq)
qed

subsection \<open>Control operations\<close>

text \<open>What a lock protects.\<close>

definition same_locked :: "bpf_d \<Rightarrow> bpf_d \<Rightarrow> bool" where
  "same_locked d d' \<longleftrightarrow> bd_locked d' = bd_locked d \<and> bd_rfilter d' = bd_rfilter d \<and> bd_wfilter d' = bd_wfilter d \<and> bd_bif d' = bd_bif d \<and>
     bd_bufsize d' = bd_bufsize d \<and> bd_promisc d' = bd_promisc d \<and> bd_dirfilt d' = bd_dirfilt d \<and> bd_fildrop d' = bd_fildrop d \<and>
     bd_queue d' = bd_queue d \<and> bd_hdrcmplt d' = bd_hdrcmplt d \<and> bd_sig d' = bd_sig d \<and> bd_pgid d' = bd_pgid d"

text \<open>
  C19 (lock_protects): once a descriptor is locked, no control operation of a user who is not root
  changes its filters, its interface, its mode or its signals, or takes the lock away; operations
  that would are refused.
\<close>

theorem lock_protects:
  assumes "bpf_d_list v u = Some d" "bd_locked d" "bpfioctl sys v u cmd False ruid euid = Inr (v', e, out)"
  shows "\<exists>d'. bpf_d_list v' u = Some d' \<and> same_locked d d' \<and> (allowed_locked cmd \<or> e = EPERM \<and> v' = v)"
proof (cases "allowed_locked cmd")
  case False
  then show ?thesis using assms by (auto simp: bpfioctl_def bpfilter_lookup_def same_locked_def)
next
  case True
  then have "v' = v \<or> v' = put_d u (fst (ioctl_d sys v d cmd ruid euid)) v"
    using assms unfolding bpfioctl_def bpfilter_lookup_def
    by (cases cmd) (auto simp: allowed_locked_def needs_if_def ioctl_if_def split_beta Let_def split: option.splits)
  moreover have "same_locked d (fst (ioctl_d sys v d cmd ruid euid))"
    using True assms(2) by (cases cmd) (simp_all add: allowed_locked_def ioctl_d_def same_locked_def bpf_reset_d_def Let_def)
  moreover have "same_locked d d" by (simp add: same_locked_def)
  ultimately show ?thesis using True assms(1) by auto
qed

definition sample_locked :: bpf_dev where
  "sample_locked = bpf_init\<lparr>bpf_d_list := [0 \<mapsto> sample_d\<lparr>bd_locked := True\<rparr>]\<rparr>"

theorem lock_protects_witness:
  "\<exists>d'. bpf_d_list sample_locked 0 = Some d' \<and> bpfioctl sample_sys sample_locked 0 (BIOCSETF \<lparr>bf_len = 0, bf_insns = None\<rparr>) False 1 1 = Inr (sample_locked, EPERM, NoOut) \<and>
     bd_rfilter d' = Some ip_filter"
proof -
  let ?c = "BIOCSETF \<lparr>bf_len = 0, bf_insns = None\<rparr>"
  have "bpfioctl sample_sys sample_locked 0 ?c False 1 1 = Inr (sample_locked, EPERM, NoOut)"
    by (simp add: bpfioctl_def bpfilter_lookup_def sample_locked_def allowed_locked_def)
  from lock_protects [OF _ _ this, of "sample_d\<lparr>bd_locked := True\<rparr>"] this show ?thesis
    by (auto simp: sample_locked_def same_locked_def sample_d_def)
qed

lemma setf_error: "snd (bpf_setf k d fp w) \<noteq> 0 \<Longrightarrow> fst (bpf_setf k d fp w) = d"
  by (cases "bf_insns fp") (auto simp: bpf_setf_def Let_def split: if_splits)

lemma ioctl_d_error:
  assumes "fst (snd (ioctl_d sys v d cmd ruid euid)) \<noteq> 0"
  shows "fst (ioctl_d sys v d cmd ruid euid) = d"
proof (cases cmd)
  case (BIOCSETF fp)
  then show ?thesis using assms setf_error [of "word_of_nat (bpf_maxbufsize v)" d fp False] by (simp add: ioctl_d_def split_beta)
next
  case (BIOCSETWF fp)
  then show ?thesis using assms setf_error [of "word_of_nat (bpf_maxbufsize v)" d fp True] by (simp add: ioctl_d_def split_beta)
next
  case (BIOCSBLEN n)
  then show ?thesis using assms by (cases "bd_bif d") (simp_all add: ioctl_d_def Let_def)
next
  case (BIOCSRSIG n)
  then show ?thesis using assms by (cases "n \<ge> NSIG") (simp_all add: ioctl_d_def)
qed (use assms in \<open>simp_all add: ioctl_d_def\<close>)

text \<open>
  C32 (ioctl_error_unchanged): a control operation that returns an error, whatever it is, leaves the
  device as it was: a filter that is refused does not replace the old one, and an interface that
  is not there does not detach the descriptor.
\<close>

theorem ioctl_error_unchanged:
  assumes "bpfioctl sys v u cmd root ruid euid = Inr (v', e, out)" "e \<noteq> 0"
  shows "v' = v"
proof -
  obtain d where d: "bpf_d_list v u = Some d" using assms(1) by (auto simp: bpfioctl_def bpfilter_lookup_def split: option.splits)
  have p: "put_d u d v = v" using d by (simp add: put_d_def fun_upd_idem)
  have dl: "bpf_setdlt sys v u d dlt = Inr (w, e) \<Longrightarrow> w = v" for dlt w
    using assms(2) by (simp add: bpf_setdlt_def Let_def split: option.splits if_splits sum.splits)
  have si: "bpf_setif sys v u d name = Inr (w, e) \<Longrightarrow> w = v" for name w
    using assms(2) by (simp add: bpf_setif_def Let_def split: option.splits if_splits sum.splits)
  have ii: "v' = v" if io: "ioctl_if sys v u d bp cmd = Inr (v', e, out)" for bp
  proof (cases "\<exists>dlt. cmd = BIOCSDLT dlt")
    case True
    then obtain dlt where "bpf_setdlt sys v u d dlt = Inr (v', e)" using io by (auto simp: ioctl_if_def split: sum.splits)
    then show ?thesis by (rule dl)
  qed (use io assms(2) in \<open>cases cmd; auto simp: ioctl_if_def Let_def split_beta split: if_splits\<close>)
  from assms(1) d show ?thesis by (cases rule: ioctl_cases) (use ii si ioctl_d_error p assms(2) in auto)
qed

theorem ioctl_error_unchanged_witness:
  "bpfioctl sample_sys sample_locked 0 (BIOCSETF \<lparr>bf_len = 3, bf_insns = None\<rparr>) True 0 0 = Inr (sample_locked, BPF_EINVAL, NoOut)"
proof -
  let ?c = "BIOCSETF \<lparr>bf_len = 3, bf_insns = None\<rparr>"
  obtain v' where "bpfioctl sample_sys sample_locked 0 ?c True 0 0 = Inr (v', BPF_EINVAL, NoOut)"
    by (simp add: bpfioctl_def bpfilter_lookup_def sample_locked_def needs_if_def ioctl_d_def bpf_setf_def)
  then show ?thesis using ioctl_error_unchanged [of sample_sys sample_locked 0 ?c True 0 0 v' BPF_EINVAL NoOut] by simp
qed

subsection \<open>Writing\<close>


definition sample_send :: "nat \<Rightarrow> if_send" where
  "sample_send i = \<lparr>if_up = True, if_mtu = 1500, if_output = (\<lambda>st m dst. (st, int (m_len m)))\<rparr>"


subsection \<open>Where the code does something else\<close>

text \<open>
  A read with a timeout, or with none, on a descriptor that has no packet returns nothing at once:
  the time that has just been taken is never in the past, and only then the code would sleep.
\<close>

lemma read_returns_at_once:
  assumes "bd_bif d \<noteq> None" "bd_hbuf d = None" "bd_slen d = 0" "bd_rtout d \<noteq> - 1" "bd_rdStart d = 0" "\<not> ticks + bd_rtout d < ticks"
  shows "bpfread d (bd_bufsize d) ticks ws uerr others = Returned (d\<lparr>bd_rdStart := ticks\<rparr>) 0 []"
  using assms by (simp add: bpfread_def read_start_def read_loop.simps [of _ ticks] read_timeout_def)

text \<open>
  A flush while a read copies the hold buffer: the read gives back a buffer that is no longer in
  its slot, and one of the two buffers is lost.  The next rotation leaves no buffer to store to,
  and the packet after it is written through a null pointer.
\<close>

lemma flush_during_read:
  assumes "bd_hbuf d = Some b"
  shows "bd_hbuf (read_done (bpf_reset_d d)) = None" "bd_fbuf (read_done (bpf_reset_d d)) = None"
    "catch_store hdrlen (ROTATE_BUFFERS (read_done (bpf_reset_d d))) pktlen totlen curlen cpfn tv = Inl ''write to a null pointer''"
  using assms by (simp_all add: read_done_def bpf_reset_d_def ROTATE_BUFFERS_def catch_store_def)

text \<open>
  A listener that watches one queue: the tap with a header looks for the queue in a packet header
  that the small structure on the stack does not have.
\<close>

lemma mtap_hdr_reads_beyond:
  assumes "data \<noteq> []" "bif_dlist bp = u # us" "bpf_d_list v u = Some d" "bd_queue d \<noteq> 0" "direction AND ucast (bd_dirfilt d) = 0"
  shows "bpf_mtap_hdr te v bp data st ms qid direction cpfn = Inl ''read beyond the header''"
  using assms by (simp add: bpf_mtap_hdr_def bpf_mtap0_def tap_one_def bpfilter_lookup_def Let_def)

text \<open>Immediate mode is a word in the operation and a byte in the descriptor.\<close>

lemma immediate_truncated: "ioctl_d sys v d (BIOCIMMEDIATE 256) ruid euid = (d\<lparr>bd_immediate := 0\<rparr>, 0, NoOut)"
proof -
  have "(ucast (256 :: u32) :: u8) = 0" by code_simp
  then show ?thesis by (simp add: ioctl_d_def)
qed

text \<open>The bytes between the end of the header structure and the packet are what was in the buffer before.\<close>

lemma padding_kept:
  assumes "catch_store hdrlen d pktlen totlen curlen cpfn tv = Inr d'" "bd_sbuf d = Some b" "curlen + 18 \<le> j" "j < curlen + hdrlen"
  shows "\<exists>b'. bd_sbuf d' = Some b' \<and> b' ! j = b ! j"
proof -
  from assms(1,2) obtain h bytes where b': "bd_sbuf d' = Some (mem_write (mem_write b curlen (hdr_bytes h)) (curlen + hdrlen) bytes)" "curlen + hdrlen \<le> length b"
    by (auto simp: catch_store_def Let_def split: if_splits sum.splits)
  have "mem_write xs (curlen + hdrlen) ys ! j = xs ! j" if "curlen + hdrlen \<le> length xs" for xs ys :: "u8 list"
    using that assms(4) by (simp add: mem_write_def nth_append)
  moreover have "mem_write b curlen (hdr_bytes h) ! j = b ! j" using b'(2) assms(3,4) nth_mem_write [of curlen "hdr_bytes h" b j] by simp
  moreover have "length (mem_write b curlen (hdr_bytes h)) = length b" using b'(2) assms(3,4) by (simp add: mem_write_def)
  ultimately show ?thesis using b' by simp
qed

end
