(* ===== verification/Extent.thy ===== *)
theory Extent
  imports Prelude
begin

text \<open>
  Extent maps (\<^verbatim>\<open>sys/kern/subr_extent.c\<close>, \<^verbatim>\<open>sys/sys/extent.h\<close>): allocation of ranges of
  a number space, kept as a sorted list of allocated regions.  The kernel is built with
  \<^verbatim>\<open>DIAGNOSTIC\<close>; \<^verbatim>\<open>u_long\<close> has 64 bits.

  A function that may sleep takes a list of wakeups.  Each is the value \<^verbatim>\<open>tsleep\<close> returns and
  what the other threads did to the extent map meanwhile.  When the list is used up the caller
  is still asleep.
\<close>

subsection \<open>Data\<close>

record extent_region =
  er_start :: u64
  er_end :: u64
  er_flags :: u32

abbreviation ER_ALLOC :: u32 where "ER_ALLOC \<equiv> 1"
abbreviation ER_DISCARD :: u32 where "ER_DISCARD \<equiv> 2"

datatype wchan = Chan_extent | Chan_freelist

text \<open>
  \<open>ex_addr\<close> is the address of the structure, \<open>fex_freelist\<close> the list behind it in a fixed
  extent, \<open>ex_pool\<close> the number of descriptors \<^verbatim>\<open>ex_region_pl\<close> can give without waiting, and
  \<open>ex_wakeups\<close> the channels woken, last one first.
\<close>

record extent =
  ex_addr :: nat
  ex_regions :: "extent_region list"
  ex_start :: u64
  ex_end :: u64
  ex_flags :: u32
  fex_freelist :: "extent_region list"
  ex_pool :: nat
  ex_wakeups :: "wchan list"

abbreviation EXF_FIXED :: u32 where "EXF_FIXED \<equiv> 0x01"
abbreviation EXF_NOCOALESCE :: u32 where "EXF_NOCOALESCE \<equiv> 0x02"
abbreviation EXF_WANTED :: u32 where "EXF_WANTED \<equiv> 0x04"
abbreviation EXF_FLWANTED :: u32 where "EXF_FLWANTED \<equiv> 0x08"

abbreviation EX_WAITOK :: u32 where "EX_WAITOK \<equiv> 0x0001"
abbreviation EX_FAST :: u32 where "EX_FAST \<equiv> 0x0002"
abbreviation EX_NOCOALESCE :: u32 where "EX_NOCOALESCE \<equiv> 0x0008"
abbreviation EX_MALLOCOK :: u32 where "EX_MALLOCOK \<equiv> 0x0010"
abbreviation EX_WAITSPACE :: u32 where "EX_WAITSPACE \<equiv> 0x0020"
abbreviation EX_BOUNDZERO :: u32 where "EX_BOUNDZERO \<equiv> 0x0040"
abbreviation EX_CONFLICTOK :: u32 where "EX_CONFLICTOK \<equiv> 0x0080"
abbreviation EX_FILLED :: u32 where "EX_FILLED \<equiv> 0x0100"

abbreviation ENOMEM :: nat where "ENOMEM \<equiv> 12"
abbreviation EAGAIN :: nat where "EAGAIN \<equiv> 35"

datatype 'a exres = Panic string | Asleep extent | Done 'a

type_synonym wakes = "(nat \<times> (extent \<Rightarrow> extent)) list"

definition extent_align :: "u64 \<Rightarrow> u64 \<Rightarrow> u64 \<Rightarrow> u64" where
  "extent_align start align skew = (((start - skew) + (align - 1)) AND (- align)) + skew"

subsection \<open>Region descriptors\<close>

definition ex_wakeup :: "extent \<Rightarrow> wchan \<Rightarrow> extent" where
  "ex_wakeup ex c = ex\<lparr>ex_wakeups := c # ex_wakeups ex\<rparr>"

text \<open>A descriptor of the pool.  With \<^verbatim>\<open>PR_WAITOK\<close> the pool waits until it has one.\<close>

definition er_pool_get :: "extent \<Rightarrow> u32 \<Rightarrow> extent \<times> extent_region option" where
  "er_pool_get ex flags =
     (if ex_pool ex = 0 \<and> \<not> has_flag flags EX_WAITOK then (ex, None)
      else (ex\<lparr>ex_pool := ex_pool ex - 1\<rparr>, Some \<lparr>er_start = 0, er_end = 0, er_flags = ER_ALLOC\<rparr>))"

fun er_fixed_get :: "wakes \<Rightarrow> extent \<Rightarrow> u32 \<Rightarrow> (wakes \<times> extent \<times> extent_region option) exres" where
  "er_fixed_get sl ex flags =
     (case fex_freelist ex of
        rp # fl \<Rightarrow> Done (sl, ex\<lparr>fex_freelist := fl\<rparr>, Some rp)
      | [] \<Rightarrow>
          if has_flag flags EX_MALLOCOK then Done (sl, er_pool_get ex flags)
          else if \<not> has_flag flags EX_WAITOK then Done (sl, ex, None)
          else
            let ex = ex\<lparr>ex_flags := set_flag (ex_flags ex) EXF_FLWANTED\<rparr>
            in case sl of
                 [] \<Rightarrow> Asleep ex
               | (error, others) # sl \<Rightarrow>
                   if error \<noteq> 0 then Done (sl, others ex, None) else er_fixed_get sl (others ex) flags)"

declare er_fixed_get.simps [simp del]

definition extent_alloc_region_descriptor ::
    "wakes \<Rightarrow> extent \<Rightarrow> u32 \<Rightarrow> (wakes \<times> extent \<times> extent_region option) exres" where
  "extent_alloc_region_descriptor sl ex flags =
     (if has_flag (ex_flags ex) EXF_FIXED then er_fixed_get sl ex flags else Done (sl, er_pool_get ex flags))"

definition extent_free_region_descriptor :: "extent \<Rightarrow> extent_region \<Rightarrow> extent" where
  "extent_free_region_descriptor ex rp =
     (let wake_em_up = (\<lambda>ex. ex_wakeup (ex\<lparr>ex_flags := clr_flag (ex_flags ex) EXF_FLWANTED\<rparr>) Chan_freelist);
          put = (\<lambda>fl. ex\<lparr>fex_freelist := rp\<lparr>er_flags := fl\<rparr> # fex_freelist ex\<rparr>);
          pool_put = ex\<lparr>ex_pool := ex_pool ex + 1\<rparr>;
          wanted = has_flag (ex_flags ex) EXF_FLWANTED
      in if has_flag (er_flags rp) ER_DISCARD then ex
         else if has_flag (ex_flags ex) EXF_FIXED then
           if has_flag (er_flags rp) ER_ALLOC then
             if wanted then wake_em_up (put ER_ALLOC) else pool_put
           else if wanted then wake_em_up (put 0) else put 0
         else pool_put)"

subsection \<open>Creation and destruction\<close>

text \<open>Sizes on a 64-bit machine: \<^verbatim>\<open>struct extent_fixed\<close> and \<^verbatim>\<open>struct extent_region\<close>, aligned.\<close>

definition SIZEOF_FIXED :: nat where "SIZEOF_FIXED = 80"
definition SIZEOF_REGION :: nat where "SIZEOF_REGION = 40"

function fixed_freelist :: "nat \<Rightarrow> extent_region list \<Rightarrow> extent_region list" where
  "fixed_freelist sz fl =
     (if sz \<ge> SIZEOF_REGION then fixed_freelist (sz - SIZEOF_REGION) (\<lparr>er_start = 0, er_end = 0, er_flags = 0\<rparr> # fl)
      else fl)"
  by pat_completeness auto
termination by (relation "measure fst") (auto simp: SIZEOF_REGION_def)

declare fixed_freelist.simps [simp del]

text \<open>The registered extent maps, by address.\<close>

definition extent_register :: "nat list \<Rightarrow> nat \<Rightarrow> nat list option" where
  "extent_register ext_list a = (if a \<in> set ext_list then None else Some (a # ext_list))"

text \<open>
  \<open>fixed_extent\<close> tells whether storage is given; \<open>addr\<close> is the address of the storage or
  of the memory that \<^verbatim>\<open>malloc\<close> returns, which fails when \<open>mem\<close> does not hold.
\<close>

definition extent_create :: "wakes \<Rightarrow> nat list \<Rightarrow> nat \<Rightarrow> bool \<Rightarrow> nat \<Rightarrow> string option \<Rightarrow> u64 \<Rightarrow> u64 \<Rightarrow> bool
    \<Rightarrow> nat \<Rightarrow> u32 \<Rightarrow> (wakes \<times> nat list \<times> extent option) exres" where
  "extent_create sl ext_list addr mem pool name start end' fixed_extent storagesize flags =
     (if name = None then Panic ''extent_create: name == NULL''
      else if end' < start then Panic ''extent_create: end < start''
      else if fixed_extent \<and> storagesize < SIZEOF_FIXED then Panic ''extent_create: fixed extent, bad storagesize''
      else if \<not> fixed_extent \<and> storagesize \<noteq> 0 then Panic ''extent_create: storage provided for non-fixed''
      else if \<not> fixed_extent \<and> \<not> has_flag flags EX_WAITOK \<and> \<not> mem then Done (sl, ext_list, None)
      else
        let fl = (if fixed_extent then fixed_freelist (storagesize - SIZEOF_FIXED) [] else []);
            f = (if fixed_extent then EXF_FIXED else 0) OR (if has_flag flags EX_NOCOALESCE then EXF_NOCOALESCE else 0);
            ex = \<lparr>ex_addr = addr, ex_regions = [], ex_start = start, ex_end = end', ex_flags = f, fex_freelist = fl,
              ex_pool = pool, ex_wakeups = []\<rparr>;
            register = (\<lambda>sl ex. case extent_register ext_list addr of
               None \<Rightarrow> Panic ''extent_register: already registered'' | Some l \<Rightarrow> Done (sl, l, Some ex))
        in if has_flag flags EX_FILLED then
             case extent_alloc_region_descriptor sl ex flags of
               Panic m \<Rightarrow> Panic m
             | Asleep ex \<Rightarrow> Asleep ex
             | Done (sl, ex, None) \<Rightarrow> Done (sl, ext_list, None)
             | Done (sl, ex, Some rp) \<Rightarrow>
                 register sl (ex\<lparr>ex_regions := rp\<lparr>er_start := start, er_end := end'\<rparr> # ex_regions ex\<rparr>)
           else register sl ex)"

fun free_regions :: "extent \<Rightarrow> extent_region list \<Rightarrow> extent" where
  "free_regions ex [] = ex\<lparr>ex_regions := []\<rparr>"
| "free_regions ex (rp # rps) = free_regions (extent_free_region_descriptor (ex\<lparr>ex_regions := rps\<rparr>) rp) rps"

text \<open>The result tells whether the structure itself was freed.\<close>

definition extent_destroy :: "nat list \<Rightarrow> extent \<Rightarrow> nat list \<times> extent \<times> bool" where
  "extent_destroy ext_list ex =
     (let ex = free_regions ex (ex_regions ex)
      in (remove1 (ex_addr ex) ext_list, ex, \<not> has_flag (ex_flags ex) EXF_FIXED))"

subsection \<open>Insertion\<close>

text \<open>
  The region goes behind the first \<open>n\<close> regions of the list; \<open>n\<close> is zero when the pointer
  \<^verbatim>\<open>after\<close> is null.
\<close>

definition extent_insert_and_optimize :: "extent \<Rightarrow> u64 \<Rightarrow> u64 \<Rightarrow> nat \<Rightarrow> extent_region \<Rightarrow> extent" where
  "extent_insert_and_optimize ex start sz n rp =
     (let pre = take n (ex_regions ex); post = drop n (ex_regions ex);
          new = rp\<lparr>er_start := start, er_end := start + (sz - 1)\<rparr>;
          nocoalesce = has_flag (ex_flags ex) EXF_NOCOALESCE
      in if pre = [] then
           if \<not> nocoalesce \<and> post \<noteq> [] \<and> start + sz = er_start (hd post) then
             extent_free_region_descriptor (ex\<lparr>ex_regions := (hd post)\<lparr>er_start := start\<rparr> # tl post\<rparr>) rp
           else ex\<lparr>ex_regions := new # post\<rparr>
         else if nocoalesce then ex\<lparr>ex_regions := pre @ new # post\<rparr>
         else
           let appended = (er_end (last pre) + 1 = start);
               after = (if appended then (last pre)\<lparr>er_end := start + (sz - 1)\<rparr> else last pre)
           in if post \<noteq> [] \<and> start + sz = er_start (hd post) then
                if appended then
                  extent_free_region_descriptor
                    (extent_free_region_descriptor
                      (ex\<lparr>ex_regions := butlast pre @ after\<lparr>er_end := er_end (hd post)\<rparr> # tl post\<rparr>) (hd post)) rp
                else
                  extent_free_region_descriptor
                    (ex\<lparr>ex_regions := pre @ (hd post)\<lparr>er_start := start\<rparr> # tl post\<rparr>) rp
              else if appended then
                extent_free_region_descriptor (ex\<lparr>ex_regions := butlast pre @ after # post\<rparr>) rp
              else ex\<lparr>ex_regions := pre @ new # post\<rparr>)"

subsection \<open>Allocation of a given region\<close>

text \<open>
  The walk over the list: how many regions lie before the request, and the first region in
  conflict with it, if there is one.
\<close>

fun region_scan :: "u64 \<Rightarrow> u64 \<Rightarrow> extent_region list \<Rightarrow> nat \<Rightarrow> nat \<times> extent_region option" where
  "region_scan start end' [] n = (n, None)"
| "region_scan start end' (rp # rps) n =
     (if er_start rp > end' then (n, None)
      else if er_end rp \<ge> start then (n, Some rp)
      else region_scan start end' rps (n + 1))"

lemma region_scan_Some:
  "region_scan s e rps n = (i, Some rp) \<Longrightarrow>
   n \<le> i \<and> i - n < length rps \<and> rp = rps ! (i - n) \<and> er_start rp \<le> e \<and> s \<le> er_end rp"
proof (induction rps arbitrary: n)
  case (Cons r rps)
  show ?case
  proof (cases "er_start r > e \<or> er_end r \<ge> s")
    case False
    then have "region_scan s e rps (Suc n) = (i, Some rp)" using Cons.prems by auto
    from Cons.IH [OF this] show ?thesis by (auto simp: nth_Cons' Suc_diff_le split: if_splits)
  qed (use Cons.prems in \<open>auto split: if_splits simp: not_less\<close>)
qed simp

lemma free_region_keeps [simp]:
  "ex_regions (extent_free_region_descriptor ex rp) = ex_regions ex"
  "ex_start (extent_free_region_descriptor ex rp) = ex_start ex"
  "ex_end (extent_free_region_descriptor ex rp) = ex_end ex"
  by (simp_all add: extent_free_region_descriptor_def ex_wakeup_def Let_def)

lemma unat_add1: "(b :: u64) < c \<Longrightarrow> unat (b + 1) = unat b + 1"
  using unsigned_less [where ?'a = nat, of c] by (simp add: unat_word_ariths word_less_nat_alt)

lemma unat_sub1: "(a :: u64) < b \<Longrightarrow> unat (b - 1) = unat b - 1"
  by (subst unat_sub) (auto simp: word_less_nat_alt word_le_nat_alt)

lemma unat_lt_2p64: "unat (x :: u64) < 2 ^ 64"
  by (rule order_less_le_trans [OF unsigned_less]) simp

text \<open>
  From \<^verbatim>\<open>alloc_start\<close> on.  Conflicts are waited for, tolerated, or give \<^verbatim>\<open>EAGAIN\<close>.  The
  result holds the error number.
\<close>

function alloc_region_loop :: "wakes \<Rightarrow> extent \<Rightarrow> u64 \<Rightarrow> u64 \<Rightarrow> u64 \<Rightarrow> u32 \<Rightarrow> extent_region
    \<Rightarrow> (wakes \<times> extent \<times> nat) exres" where
  "alloc_region_loop sl ex start sz end' flags myrp =
     (case region_scan start end' (ex_regions ex) 0 of
        (n, None) \<Rightarrow> Done (sl, extent_insert_and_optimize ex start sz n myrp, 0)
      | (n, Some rp) \<Rightarrow>
          if has_flag flags EX_WAITSPACE then
            let ex = ex\<lparr>ex_flags := set_flag (ex_flags ex) EXF_WANTED\<rparr>
            in case sl of
                 [] \<Rightarrow> Asleep ex
               | (error, others) # sl \<Rightarrow>
                   if error \<noteq> 0 then Done (sl, others ex, error)
                   else alloc_region_loop sl (others ex) start sz end' flags myrp
          else if has_flag flags EX_CONFLICTOK then
            if er_start rp \<le> start then
              if er_end rp < ex_end ex then
                alloc_region_loop sl ex (er_end rp + 1) (end' - (er_end rp + 1) + 1) end' flags myrp
              else Done (sl, ex, 0)
            else if er_end rp < end' then
              alloc_region_loop sl
                (extent_free_region_descriptor
                  (ex\<lparr>ex_regions := take n (ex_regions ex) @ drop (n + 1) (ex_regions ex)\<rparr>) rp)
                start sz end' flags myrp
            else if er_start rp < end' then
              if er_start rp > ex_start ex then
                alloc_region_loop sl ex start (er_start rp - 1 - start + 1) (er_start rp - 1) flags myrp
              else Done (sl, ex, 0)
            else Done (sl, ex, 0)
          else Done (sl, extent_free_region_descriptor ex myrp, EAGAIN))"
  by pat_completeness auto

termination
proof (relation "measures [\<lambda>(sl, _). length sl, \<lambda>(_, ex, _). length (ex_regions ex),
    \<lambda>(_, _, start, _). 2 ^ 64 - unat start, \<lambda>(_, _, _, _, end', _). unat end']", goal_cases)
  case (3 sl ex start sz end' flags myrp n r rp)
  then have "start \<le> er_end rp" using region_scan_Some [of start end' "ex_regions ex" 0 n rp] by auto
  then show ?case using 3 unat_add1 [of "er_end rp" "ex_end ex"] unat_lt_2p64 [of start] by (auto simp: word_le_nat_alt)
next
  case (4 sl ex start sz end' flags myrp n r rp)
  then show ?case using region_scan_Some [of start end' "ex_regions ex" 0 n rp] by auto
next
  case (5 sl ex start sz end' flags myrp n r rp)
  then show ?case using unat_sub1 [of "ex_start ex" "er_start rp"] by (auto simp: word_less_nat_alt)
qed auto

declare alloc_region_loop.simps [simp del]

definition extent_alloc_region :: "wakes \<Rightarrow> extent \<Rightarrow> u64 \<Rightarrow> u64 \<Rightarrow> u32 \<Rightarrow> (wakes \<times> extent \<times> nat) exres" where
  "extent_alloc_region sl ex start sz flags =
     (let end' = start + (sz - 1)
      in if sz < 1 then Panic ''extent_alloc_region: bad size''
         else if end' < start then Panic ''extent_alloc_region: overflow''
         else if has_flag flags EX_CONFLICTOK \<and> has_flag flags EX_WAITSPACE then
           Panic ''extent_alloc_region: EX_CONFLICTOK and EX_WAITSPACE are mutually exclusive''
         else if start < ex_start ex \<or> end' > ex_end ex then
           Panic ''extent_alloc_region: region lies outside extent''
         else
           case extent_alloc_region_descriptor sl ex flags of
             Panic m \<Rightarrow> Panic m
           | Asleep ex \<Rightarrow> Asleep ex
           | Done (sl, ex, None) \<Rightarrow> Done (sl, ex, ENOMEM)
           | Done (sl, ex, Some myrp) \<Rightarrow> alloc_region_loop sl ex start sz end' flags myrp)"

subsection \<open>Allocation anywhere\<close>

definition LE_OV :: "u64 \<Rightarrow> u64 \<Rightarrow> u64 \<Rightarrow> bool" where
  "LE_OV x y z \<longleftrightarrow> x + y \<ge> x \<and> x + y \<le> z"

text \<open>The arguments of a request.\<close>

record request =
  rq_substart :: u64
  rq_subend :: u64
  rq_size :: u64
  rq_alignment :: u64
  rq_skew :: u64
  rq_boundary :: u64
  rq_flags :: u32

text \<open>
  The boundary check, which \<^verbatim>\<open>extent_do_alloc\<close> holds twice: the start to use, or the gap is
  too small behind the boundary line, or the request cannot fit.  \<open>fits\<close> tells whether a
  start leaves room in the gap.
\<close>

datatype fit = Fit u64 | Misfit | Nofit

definition boundary_check :: "extent \<Rightarrow> request \<Rightarrow> (u64 \<Rightarrow> bool) \<Rightarrow> u64 \<Rightarrow> fit" where
  "boundary_check ex rq fits newstart =
     (if rq_boundary rq = 0 then Fit newstart
      else
        let newend = newstart + (rq_size rq - 1);
            dontcross = extent_align (newstart + 1) (rq_boundary rq)
              (if has_flag (rq_flags rq) EX_BOUNDZERO then 0 else ex_start ex) - 1;
            inside = (\<lambda>newstart dontcross.
              if newstart + rq_size rq - 1 > ex_end ex \<or> dontcross < newstart then Nofit else Fit newstart)
        in if dontcross < ex_start ex then inside newstart (ex_end ex)
           else if newend > dontcross then
             if \<not> fits (dontcross + 1) then Misfit else inside (dontcross + 1) (dontcross + rq_boundary rq)
           else inside newstart dontcross)"

text \<open>The best gap so far: its waste, the start in it and the regions before it.\<close>

type_synonym best = "u64 \<times> u64 \<times> nat"

definition better :: "best \<Rightarrow> u64 \<Rightarrow> u64 \<Rightarrow> nat \<Rightarrow> best" where
  "better b ovh newstart n = (if fst b = 0 \<or> ovh < fst b then (ovh, newstart, n) else b)"

text \<open>
  How the walk over the gaps ends: with a place, with the label \<^verbatim>\<open>fail\<close>, or at the last gap,
  which \<open>exend\<close> bounds.
\<close>

datatype found = Found u64 nat | Failed best | Final u64 nat best u64

fun gap_scan :: "extent \<Rightarrow> request \<Rightarrow> u64 \<Rightarrow> nat \<Rightarrow> best \<Rightarrow> extent_region list \<Rightarrow> found" where
  "gap_scan ex rq newstart n b [] = Final newstart n b (ex_end ex)"
| "gap_scan ex rq newstart n b (rp # rps) =
     (if er_start rp > rq_subend rq then Final newstart n b (er_start rp)
      else
        let next = extent_align (er_end rp + 1) (rq_alignment rq) (rq_skew rq);
            fits = (\<lambda>s. LE_OV s (rq_size rq) (er_start rp))
        in case (if fits newstart then boundary_check ex rq fits newstart else Misfit) of
             Nofit \<Rightarrow> Failed b
           | Misfit \<Rightarrow> if next < er_end rp then Failed b else gap_scan ex rq next (n + 1) b rps
           | Fit s \<Rightarrow>
               let ovh = er_start rp - s - rq_size rq
               in if has_flag (rq_flags rq) EX_FAST \<or> ovh = 0 then Found s n
                  else if next < er_end rp then Failed (better b ovh s n)
                  else gap_scan ex rq next (n + 1) (better b ovh s n) rps)"

definition last_gap :: "extent \<Rightarrow> request \<Rightarrow> u64 \<Rightarrow> nat \<Rightarrow> best \<Rightarrow> u64 \<Rightarrow> found" where
  "last_gap ex rq newstart n b exend =
     (let fits = (\<lambda>s. LE_OV s (rq_size rq - 1) (rq_subend rq))
      in if fits newstart then
           case boundary_check ex rq fits newstart of
             Fit s \<Rightarrow>
               let ovh = exend - s - (rq_size rq - 1)
               in if has_flag (rq_flags rq) EX_FAST \<or> ovh = 0 then Found s n else Failed (better b ovh s n)
           | _ \<Rightarrow> Failed b
         else Failed b)"

text \<open>One pass from \<^verbatim>\<open>alloc_start\<close> to \<^verbatim>\<open>found\<close>, or to the point where the caller must wait.\<close>

definition gap_search :: "extent \<Rightarrow> request \<Rightarrow> u64 \<Rightarrow> (u64 \<times> nat) option" where
  "gap_search ex rq newstart =
     (let pre = takeWhile (\<lambda>rp. er_start rp < newstart) (ex_regions ex);
          post = drop (length pre) (ex_regions ex);
          newstart = (if pre \<noteq> [] \<and> er_end (last pre) \<ge> newstart
            then extent_align (er_end (last pre) + 1) (rq_alignment rq) (rq_skew rq) else newstart);
          r = (case gap_scan ex rq newstart (length pre) (0, 0, 0) post of
                 Final s n b exend \<Rightarrow> last_gap ex rq s n b exend | r \<Rightarrow> r)
      in case r of
           Found s n \<Rightarrow> Some (s, n)
         | Failed (ovh, s, n) \<Rightarrow>
             if \<not> has_flag (rq_flags rq) EX_FAST \<and> ovh \<noteq> 0 then Some (s, n) else None
         | Final _ _ _ _ \<Rightarrow> None)"

fun do_alloc_loop :: "wakes \<Rightarrow> extent \<Rightarrow> request \<Rightarrow> extent_region \<Rightarrow> (wakes \<times> extent \<times> nat \<times> u64 option) exres" where
  "do_alloc_loop sl ex rq myrp =
     (let newstart = extent_align (rq_substart rq) (rq_alignment rq) (rq_skew rq)
      in if newstart < ex_start ex then Panic ''extent_do_alloc: overflow after alignment''
         else
           case gap_search ex rq newstart of
             Some (s, n) \<Rightarrow> Done (sl, extent_insert_and_optimize ex s (rq_size rq) n myrp, 0, Some s)
           | None \<Rightarrow>
               if has_flag (rq_flags rq) EX_WAITSPACE then
                 let ex = ex\<lparr>ex_flags := set_flag (ex_flags ex) EXF_WANTED\<rparr>
                 in case sl of
                      [] \<Rightarrow> Asleep ex
                    | (error, others) # sl \<Rightarrow>
                        if error \<noteq> 0 then Done (sl, others ex, error, None) else do_alloc_loop sl (others ex) rq myrp
               else Done (sl, extent_free_region_descriptor ex myrp, EAGAIN, None))"

declare do_alloc_loop.simps [simp del]

definition extent_do_alloc ::
    "wakes \<Rightarrow> extent \<Rightarrow> request \<Rightarrow> extent_region \<Rightarrow> (wakes \<times> extent \<times> nat \<times> u64 option) exres" where
  "extent_do_alloc sl ex rq myrp =
     (if rq_substart rq < ex_start ex \<or> rq_substart rq > ex_end ex \<or> rq_subend rq > ex_end ex \<or> rq_subend rq < ex_start ex
      then Panic ''extent_do_alloc: bad subregion''
      else if rq_size rq < 1 \<or> rq_size rq - 1 > rq_subend rq - rq_substart rq then Panic ''extent_do_alloc: bad size''
      else if rq_alignment rq = 0 then Panic ''extent_do_alloc: bad alignment''
      else if rq_boundary rq \<noteq> 0 \<and> rq_boundary rq < rq_size rq then Panic ''extent_do_alloc: bad boundary''
      else do_alloc_loop sl ex rq myrp)"

definition extent_alloc_subregion :: "wakes \<Rightarrow> extent \<Rightarrow> request \<Rightarrow> (wakes \<times> extent \<times> nat \<times> u64 option) exres" where
  "extent_alloc_subregion sl ex rq =
     (case extent_alloc_region_descriptor sl ex (rq_flags rq) of
        Panic m \<Rightarrow> Panic m
      | Asleep ex \<Rightarrow> Asleep ex
      | Done (sl, ex, None) \<Rightarrow> Done (sl, ex, ENOMEM, None)
      | Done (sl, ex, Some rp) \<Rightarrow> extent_do_alloc sl ex rq rp)"

definition extent_alloc_subregion_with_descr ::
    "wakes \<Rightarrow> extent \<Rightarrow> request \<Rightarrow> extent_region \<Rightarrow> (wakes \<times> extent \<times> nat \<times> u64 option) exres" where
  "extent_alloc_subregion_with_descr sl ex rq rp =
     (if \<not> has_flag (ex_flags ex) EXF_NOCOALESCE then
        Panic ''extent_alloc_subregion_with_descr: EX_NOCOALESCE not set''
      else extent_do_alloc sl ex rq (rp\<lparr>er_flags := ER_DISCARD\<rparr>))"

subsection \<open>Freeing\<close>

text \<open>
  The walk over the list: the new list, the descriptor taken out of it, and whether the new
  descriptor went into it.
\<close>

fun free_scan :: "bool \<Rightarrow> u64 \<Rightarrow> u64 \<Rightarrow> extent_region option \<Rightarrow> extent_region list
    \<Rightarrow> (extent_region list \<times> extent_region option \<times> bool) option" where
  "free_scan nocoalesce start end' nrp [] = None"
| "free_scan nocoalesce start end' nrp (rp # rps) =
     (let continue = map_option (\<lambda>(l, x). (rp # l, x)) (free_scan nocoalesce start end' nrp rps)
      in if er_end rp < start then continue
         else if er_start rp > end' then None
         else if start = er_start rp \<and> end' = er_end rp then Some (rps, Some rp, False)
         else if nocoalesce then continue
         else if start = er_start rp \<and> end' < er_end rp then
           Some (rp\<lparr>er_start := end' + 1\<rparr> # rps, None, False)
         else if start > er_start rp \<and> end' = er_end rp then
           Some (rp\<lparr>er_end := start - 1\<rparr> # rps, None, False)
         else if start > er_start rp \<and> end' < er_end rp then
           map_option (\<lambda>d. (rp\<lparr>er_end := start - 1\<rparr> # d\<lparr>er_start := end' + 1, er_end := er_end rp\<rparr> # rps, None, True)) nrp
         else continue)"

definition free_found :: "extent \<Rightarrow> extent_region option \<Rightarrow> extent_region list \<times> extent_region option \<times> bool \<Rightarrow> extent" where
  "free_found ex nrp =
     (\<lambda>(l, gone, used).
        let ex = ex\<lparr>ex_regions := l\<rparr>;
            ex = (case gone of None \<Rightarrow> ex | Some rp \<Rightarrow> extent_free_region_descriptor ex rp);
            ex = (case nrp of None \<Rightarrow> ex | Some d \<Rightarrow> if used then ex else extent_free_region_descriptor ex d)
        in if has_flag (ex_flags ex) EXF_WANTED
           then ex_wakeup (ex\<lparr>ex_flags := clr_flag (ex_flags ex) EXF_WANTED\<rparr>) Chan_extent else ex)"

definition find_and_free :: "wakes \<Rightarrow> extent \<Rightarrow> u64 \<Rightarrow> u64 \<Rightarrow> extent_region option \<Rightarrow> (wakes \<times> extent \<times> nat) exres" where
  "find_and_free sl ex start end' nrp =
     (case free_scan (has_flag (ex_flags ex) EXF_NOCOALESCE) start end' nrp (ex_regions ex) of
        None \<Rightarrow> Panic ''extent_free: region not found''
      | Some r \<Rightarrow> Done (sl, free_found ex nrp r, 0))"

definition extent_free :: "wakes \<Rightarrow> extent \<Rightarrow> u64 \<Rightarrow> u64 \<Rightarrow> u32 \<Rightarrow> (wakes \<times> extent \<times> nat) exres" where
  "extent_free sl ex start sz flags =
     (let end' = start + (sz - 1)
      in if start < ex_start ex \<or> end' > ex_end ex then Panic ''extent_free: region not within extent''
         else if end' < start then Panic ''extent_free: overflow''
         else if has_flag (ex_flags ex) EXF_NOCOALESCE then find_and_free sl ex start end' None
         else
           case extent_alloc_region_descriptor sl ex flags of
             Panic m \<Rightarrow> Panic m
           | Asleep ex \<Rightarrow> Asleep ex
           | Done (sl, ex, None) \<Rightarrow> Done (sl, ex, ENOMEM)
           | Done (sl, ex, Some nrp) \<Rightarrow> find_and_free sl ex start end' (Some nrp))"

end
