(* ===== verification/Extent_Inv.thy ===== *)
theory Extent_Inv
  imports Extent
begin

text \<open>
  The invariant of extent maps, the set of allocated numbers they stand for, and what
  insertion, allocation of a given region and freeing do to both.
\<close>

subsection \<open>Flags\<close>

lemma has_flag_clr: "f AND g = 0 \<Longrightarrow> has_flag (clr_flag w f) g = has_flag w g"
proof -
  assume "f AND g = 0"
  then have "\<not> (bit f n \<and> bit g n)" for n by (metis bit_and_iff bit_0_eq bot_apply bot_bool_def)
  then have "NOT f AND g = g" by (auto intro!: bit_eqI simp: bit_simps)
  then show "has_flag (clr_flag w f) g = has_flag w g" by (simp add: has_flag_def clr_flag_def and.assoc)
qed

lemma has_flag_set: "f AND g = 0 \<Longrightarrow> has_flag (set_flag w f) g = has_flag w g"
  by (simp add: has_flag_def set_flag_def bit.conj_disj_distrib2)

subsection \<open>The invariant\<close>

text \<open>
  Regions in order, none empty, all inside the map.  Where coalescing is allowed, two
  neighbours have a free number between them.
\<close>

fun spaced :: "nat \<Rightarrow> nat \<Rightarrow> nat \<Rightarrow> extent_region list \<Rightarrow> bool" where
  "spaced g lo hi [] = True"
| "spaced g lo hi (r # rs) \<longleftrightarrow>
     lo \<le> unat (er_start r) \<and> er_start r \<le> er_end r \<and> unat (er_end r) \<le> hi \<and> spaced g (unat (er_end r) + 1 + g) hi rs"

definition gap :: "extent \<Rightarrow> nat" where
  "gap ex = (if has_flag (ex_flags ex) EXF_NOCOALESCE then 0 else 1)"

definition fixed :: "extent \<Rightarrow> bool" where
  "fixed ex \<longleftrightarrow> has_flag (ex_flags ex) EXF_FIXED"

definition ext_ok :: "extent \<Rightarrow> bool" where
  "ext_ok ex \<longleftrightarrow> ex_start ex \<le> ex_end ex \<and> spaced (gap ex) (unat (ex_start ex)) (unat (ex_end ex)) (ex_regions ex)"

definition rset :: "extent_region \<Rightarrow> nat set" where
  "rset r = {unat (er_start r)..unat (er_end r)}"

definition rsets :: "extent_region list \<Rightarrow> nat set" where
  "rsets rs = (\<Union>r\<in>set rs. rset r)"

text \<open>The numbers that are allocated.\<close>

definition alloc_set :: "extent \<Rightarrow> nat set" where
  "alloc_set ex = rsets (ex_regions ex)"

lemma rsets_simps [simp]:
  "rsets [] = {}" "rsets (r # rs) = rset r \<union> rsets rs" "rsets (rs @ rs') = rsets rs \<union> rsets rs'"
  by (auto simp: rsets_def)

text \<open>The first number a region may start with after the regions \<open>rs\<close>.\<close>

definition after :: "nat \<Rightarrow> nat \<Rightarrow> extent_region list \<Rightarrow> nat" where
  "after g lo rs = (if rs = [] then lo else unat (er_end (last rs)) + 1 + g)"

lemma after_simps [simp]: "after g lo [] = lo" "after g lo (rs @ [r]) = unat (er_end r) + 1 + g"
  by (simp_all add: after_def)

lemma spaced_append: "spaced g lo hi (xs @ ys) \<longleftrightarrow> spaced g lo hi xs \<and> spaced g (after g lo xs) hi ys"
  by (induction xs arbitrary: lo) (auto simp: after_def)

lemma spaced_mono: "spaced g lo hi rs \<Longrightarrow> lo' \<le> lo \<Longrightarrow> spaced g lo' hi rs"
  by (cases rs) auto

lemma spaced_ge: "spaced g lo hi rs \<Longrightarrow> x \<in> rsets rs \<Longrightarrow> lo \<le> x"
  by (induction rs arbitrary: lo) (fastforce simp: rset_def word_le_nat_alt)+

lemma spaced_le: "spaced g lo hi rs \<Longrightarrow> x \<in> rsets rs \<Longrightarrow> x \<le> hi"
  by (induction rs arbitrary: lo) (fastforce simp: rset_def)+

lemma after_Cons [simp]: "after g lo (r # rs) = after g (unat (er_end r) + 1 + g) rs"
  by (simp add: after_def)

lemma spaced_after_ge: "spaced g lo hi rs \<Longrightarrow> lo \<le> after g lo rs"
  by (induction rs arbitrary: lo) (fastforce simp: word_le_nat_alt)+

lemma spaced_lt_after: "spaced g lo hi rs \<Longrightarrow> x \<in> rsets rs \<Longrightarrow> x < after g lo rs"
proof (induction rs arbitrary: lo)
  case (Cons r rs)
  then show ?case using spaced_after_ge [of g "unat (er_end r) + 1 + g" hi rs] by (auto simp: rset_def)
qed simp

lemma free_region_gap [simp]:
  "gap (extent_free_region_descriptor ex rp) = gap ex" "fixed (extent_free_region_descriptor ex rp) = fixed ex"
  by (simp_all add: gap_def fixed_def extent_free_region_descriptor_def ex_wakeup_def Let_def has_flag_clr)

lemma ext_ok_free_region [simp]:
  "ext_ok (extent_free_region_descriptor ex rp) = ext_ok ex"
  "alloc_set (extent_free_region_descriptor ex rp) = alloc_set ex"
  by (simp_all add: ext_ok_def alloc_set_def)

lemma gap_update [simp]: "gap (ex\<lparr>ex_regions := l\<rparr>) = gap ex" "gap (ex\<lparr>fex_freelist := fl\<rparr>) = gap ex"
  "gap (ex\<lparr>ex_pool := k\<rparr>) = gap ex" "fixed (ex\<lparr>ex_regions := l\<rparr>) = fixed ex"
  by (simp_all add: gap_def fixed_def)

subsection \<open>Insertion\<close>

text \<open>A block of numbers without wrap-around inside the map, and its place in the list.\<close>

definition block :: "extent \<Rightarrow> u64 \<Rightarrow> u64 \<Rightarrow> bool" where
  "block ex s e \<longleftrightarrow> s \<le> e \<and> ex_start ex \<le> s \<and> e \<le> ex_end ex"

definition placed :: "extent_region list \<Rightarrow> extent_region list \<Rightarrow> u64 \<Rightarrow> u64 \<Rightarrow> bool" where
  "placed pre post s e \<longleftrightarrow> (pre = [] \<or> er_end (last pre) < s) \<and> (post = [] \<or> e < er_start (hd post))"

text \<open>What an operation makes of a map: the invariant holds and the allocated set is as given.\<close>

definition becomes :: "extent \<Rightarrow> extent \<Rightarrow> nat set \<Rightarrow> bool" where
  "becomes ex ex' A \<longleftrightarrow> ext_ok ex' \<and> alloc_set ex' = A \<and> ex_start ex' = ex_start ex \<and> ex_end ex' = ex_end ex \<and>
     gap ex' = gap ex \<and> fixed ex' = fixed ex"

lemma becomes_free_region [simp]: "becomes ex (extent_free_region_descriptor ex' rp) A = becomes ex ex' A"
  by (simp add: becomes_def)

lemma becomes_regions:
  "becomes ex (ex\<lparr>ex_regions := l\<rparr>) A \<longleftrightarrow>
   ex_start ex \<le> ex_end ex \<and> spaced (gap ex) (unat (ex_start ex)) (unat (ex_end ex)) l \<and> rsets l = A"
  by (auto simp: becomes_def ext_ok_def alloc_set_def)

lemma unat_next_eq: "(a :: u64) < b \<Longrightarrow> (a + 1 = b) = (unat a + 1 = unat b)"
  by (metis unat_add1 word_unat_eq_iff)

lemma after_last: "pre \<noteq> [] \<Longrightarrow> after g lo pre = unat (er_end (last pre)) + 1 + g"
  by (simp add: after_def)

lemma placed_disjoint:
  assumes sp: "spaced g lo hi (pre @ post)" and p: "placed pre post s e"
  shows "rsets (pre @ post) \<inter> {unat s..unat e} = {}"
proof -
  have "x < unat s" if "x \<in> rsets pre" for x
  proof (cases pre rule: rev_cases)
    case (snoc ys a)
    then have "x \<le> unat (er_end a)" using that sp spaced_lt_after [of g lo hi ys x]
      by (auto simp: spaced_append rset_def word_le_nat_alt)
    then show ?thesis using p snoc by (simp add: placed_def word_less_nat_alt)
  qed (use that in simp)
  moreover have "unat e < x" if "x \<in> rsets post" for x
  proof (cases post)
    case (Cons h t)
    then have "unat (er_start h) \<le> x" using sp that spaced_ge [of g "unat (er_start h)" hi post x] by (simp add: spaced_append)
    then show ?thesis using p Cons by (simp add: placed_def word_less_nat_alt)
  qed (use that in simp)
  ultimately show ?thesis by fastforce
qed

text \<open>The four ways to insert, by list.\<close>

lemma spaced_insert:
  assumes ok: "spaced g lo hi (pre @ post)" and b: "s \<le> e" "lo \<le> unat s" "unat e \<le> hi" and p: "placed pre post s e"
    and g: "g = 0 \<or> g = 1 \<and> (pre = [] \<or> er_end (last pre) + 1 \<noteq> s) \<and> (post = [] \<or> e + 1 \<noteq> er_start (hd post))"
    and r: "er_start r = s" "er_end r = e"
  shows "spaced g lo hi (pre @ r # post) \<and> rsets (pre @ r # post) = rsets (pre @ post) \<union> {unat s..unat e}"
proof -
  have "pre = [] \<or> unat (er_end (last pre)) + 1 + g \<le> unat s"
    using p g unat_next_eq [of "er_end (last pre)" s] by (auto simp: placed_def word_less_nat_alt)
  then have "after g lo pre \<le> unat s" using b by (auto simp: after_def)
  moreover have "post = [] \<or> unat e + 1 + g \<le> unat (er_start (hd post))"
    using p g unat_next_eq [of e "er_start (hd post)"] by (auto simp: placed_def word_less_nat_alt)
  then have "spaced g (unat e + 1 + g) hi post" using ok by (cases post) (auto simp: spaced_append)
  ultimately show ?thesis using ok b r by (auto simp: spaced_append rset_def)
qed

lemma spaced_extend_up:
  assumes ok: "spaced g lo hi (pre @ a # post)" and b: "s \<le> e" "unat e \<le> hi" and p: "placed (pre @ [a]) post s e"
    and g: "g = 0 \<or> g = 1 \<and> (post = [] \<or> e + 1 \<noteq> er_start (hd post))" and adj: "er_end a + 1 = s"
  shows "spaced g lo hi (pre @ a\<lparr>er_end := e\<rparr> # post) \<and>
         rsets (pre @ a\<lparr>er_end := e\<rparr> # post) = rsets (pre @ a # post) \<union> {unat s..unat e}"
proof -
  have "unat s = unat (er_end a) + 1" using p adj unat_next_eq [of "er_end a" s] by (simp add: placed_def)
  moreover have "post = [] \<or> unat e + 1 + g \<le> unat (er_start (hd post))"
    using p g unat_next_eq [of e "er_start (hd post)"] by (auto simp: placed_def word_less_nat_alt)
  then have "spaced g (unat e + 1 + g) hi post" using ok by (cases post) (auto simp: spaced_append)
  ultimately show ?thesis using ok b by (auto simp: spaced_append rset_def word_le_nat_alt)
qed

lemma spaced_extend_down:
  assumes ok: "spaced g lo hi (pre @ c # post)" and b: "s \<le> e" "lo \<le> unat s" and p: "placed pre (c # post) s e"
    and g: "g = 0 \<or> g = 1 \<and> (pre = [] \<or> er_end (last pre) + 1 \<noteq> s)" and adj: "e + 1 = er_start c"
  shows "spaced g lo hi (pre @ c\<lparr>er_start := s\<rparr> # post) \<and>
         rsets (pre @ c\<lparr>er_start := s\<rparr> # post) = rsets (pre @ c # post) \<union> {unat s..unat e}"
proof -
  have "unat (er_start c) = unat e + 1" using p adj unat_next_eq [of e "er_start c"] by (simp add: placed_def)
  moreover have "pre = [] \<or> unat (er_end (last pre)) + 1 + g \<le> unat s"
    using p g unat_next_eq [of "er_end (last pre)" s] by (auto simp: placed_def word_less_nat_alt)
  then have "after g lo pre \<le> unat s" using b by (auto simp: after_def)
  ultimately show ?thesis using ok b by (auto simp: spaced_append rset_def word_le_nat_alt)
qed

lemma spaced_join:
  assumes ok: "spaced g lo hi (pre @ a # c # post)" and b: "s \<le> e" and p: "placed (pre @ [a]) (c # post) s e"
    and adj: "er_end a + 1 = s" "e + 1 = er_start c"
  shows "spaced g lo hi (pre @ a\<lparr>er_end := er_end c\<rparr> # post) \<and>
         rsets (pre @ a\<lparr>er_end := er_end c\<rparr> # post) = rsets (pre @ a # c # post) \<union> {unat s..unat e}"
proof -
  have "unat s = unat (er_end a) + 1" "unat (er_start c) = unat e + 1"
    using p adj unat_next_eq [of "er_end a" s] unat_next_eq [of e "er_start c"] by (simp_all add: placed_def)
  then show ?thesis using ok b by (auto simp: spaced_append rset_def word_le_nat_alt)
qed

lemma insert_becomes:
  assumes ok: "ext_ok ex" and b: "block ex s (s + (sz - 1))"
    and p: "placed (take n (ex_regions ex)) (drop n (ex_regions ex)) s (s + (sz - 1))"
  shows "becomes ex (extent_insert_and_optimize ex s sz n rp) (alloc_set ex \<union> {unat s..unat (s + (sz - 1))})"
proof -
  define e where "e = s + (sz - 1)"
  define pre where "pre = take n (ex_regions ex)"
  define post where "post = drop n (ex_regions ex)"
  let ?lo = "unat (ex_start ex)" and ?hi = "unat (ex_end ex)"
  have r: "ex_regions ex = pre @ post" by (simp add: pre_def post_def)
  have sp: "spaced (gap ex) ?lo ?hi (pre @ post)" and se: "ex_start ex \<le> ex_end ex" using ok r by (simp_all add: ext_ok_def)
  have b': "s \<le> e" "?lo \<le> unat s" "unat e \<le> ?hi" using b by (simp_all add: block_def e_def word_le_nat_alt)
  have p': "placed pre post s e" using p by (simp add: pre_def post_def e_def)
  have e1: "s + sz = e + 1" by (simp add: e_def)
  note ins = spaced_insert [OF sp b' p']
  have nc: "has_flag (ex_flags ex) EXF_NOCOALESCE \<Longrightarrow> gap ex = 0" "\<not> has_flag (ex_flags ex) EXF_NOCOALESCE \<Longrightarrow> gap ex = 1"
    by (simp_all add: gap_def)
  have A: "alloc_set ex = rsets (pre @ post)" by (simp add: alloc_set_def r)
  have down: "post \<noteq> [] \<Longrightarrow> pre = [] \<or> er_end (last pre) + 1 \<noteq> s \<Longrightarrow> e + 1 = er_start (hd post) \<Longrightarrow>
    becomes ex (ex\<lparr>ex_regions := pre @ (hd post)\<lparr>er_start := s\<rparr> # tl post\<rparr>) (alloc_set ex \<union> {unat s..unat e})"
    using spaced_extend_down [of "gap ex" ?lo ?hi pre "hd post" "tl post" s e] sp p' b' se A
    by (auto simp: becomes_regions gap_def)
  have up: "pre \<noteq> [] \<Longrightarrow> post = [] \<or> e + 1 \<noteq> er_start (hd post) \<Longrightarrow> er_end (last pre) + 1 = s \<Longrightarrow>
    becomes ex (ex\<lparr>ex_regions := butlast pre @ (last pre)\<lparr>er_end := e\<rparr> # post\<rparr>) (alloc_set ex \<union> {unat s..unat e})"
    using spaced_extend_up [of "gap ex" ?lo ?hi "butlast pre" "last pre" post s e] sp p' b' se A
    by (cases pre rule: rev_cases) (auto simp: becomes_regions gap_def)
  have join: "pre \<noteq> [] \<Longrightarrow> post \<noteq> [] \<Longrightarrow> er_end (last pre) + 1 = s \<Longrightarrow> e + 1 = er_start (hd post) \<Longrightarrow>
    becomes ex (ex\<lparr>ex_regions := butlast pre @ (last pre)\<lparr>er_end := er_end (hd post)\<rparr> # tl post\<rparr>)
      (alloc_set ex \<union> {unat s..unat e})"
    using spaced_join [of "gap ex" ?lo ?hi "butlast pre" "last pre" "hd post" "tl post" s e] sp p' b' se A
    by (cases pre rule: rev_cases) (auto simp: becomes_regions)
  have new: "has_flag (ex_flags ex) EXF_NOCOALESCE \<or>
      (pre = [] \<or> er_end (last pre) + 1 \<noteq> s) \<and> (post = [] \<or> e + 1 \<noteq> er_start (hd post)) \<Longrightarrow>
    becomes ex (ex\<lparr>ex_regions := pre @ rp\<lparr>er_start := s, er_end := e\<rparr> # post\<rparr>) (alloc_set ex \<union> {unat s..unat e})"
    using ins [of "rp\<lparr>er_start := s, er_end := e\<rparr>"] nc se A by (auto simp: becomes_regions)
  show ?thesis
    using down up join new
    by (simp add: extent_insert_and_optimize_def e1 Let_def flip: pre_def post_def e_def) auto
qed

subsection \<open>Freeing\<close>

definition free_post :: "nat \<Rightarrow> nat \<Rightarrow> nat \<Rightarrow> extent_region list \<Rightarrow> nat set \<Rightarrow> bool
    \<Rightarrow> (extent_region list \<times> extent_region option \<times> bool) option \<Rightarrow> bool" where
  "free_post g lo hi rs B found res \<longleftrightarrow>
     (case res of None \<Rightarrow> \<not> found | Some (l, _) \<Rightarrow> found \<and> spaced g lo hi l \<and> rsets l = rsets rs - B)"

lemma free_post_continue:
  assumes "free_post g (unat (er_end r) + 1 + g) hi rs B found res" "spaced g lo hi (r # rs)"
    "found \<longrightarrow> rset r \<inter> B = {}" "found' = found"
  shows "free_post g lo hi (r # rs) B found' (map_option (\<lambda>(l, x). (r # l, x)) res)"
  using assms by (cases res) (auto simp: free_post_def)

lemma rest_above: "spaced g lo hi (r # rs) \<Longrightarrow> x \<in> rsets rs \<Longrightarrow> unat (er_end r) + 1 + g \<le> x"
  using spaced_ge by auto

lemma free_inside:
  assumes i: "er_start r \<le> s" "e \<le> er_end r" and se: "s \<le> e" and d: "nrp = Some d" and sp: "spaced 1 lo hi (r # rs)"
  shows "\<exists>l x. free_scan False s e nrp (r # rs) = Some (l @ rs, x) \<and> rsets l = rset r - {unat s..unat e}
    \<and> spaced 1 lo hi (l @ rs)"
proof -
  let ?r1 = "r\<lparr>er_start := e + 1\<rparr>" and ?r2 = "r\<lparr>er_end := s - 1\<rparr>" and ?d = "d\<lparr>er_start := e + 1, er_end := er_end r\<rparr>"
  have up: "e < er_end r \<Longrightarrow> unat (e + 1) = unat e + 1" by (rule unat_add1)
  have down: "er_start r < s \<Longrightarrow> unat (s - 1) = unat s - 1" by (rule unat_sub1)
  note w = word_le_nat_alt word_less_nat_alt rset_def
  have rs: "lo \<le> unat (er_start r)" "unat (er_end r) \<le> hi" "spaced 1 (unat (er_end r) + 1 + 1) hi rs" using sp by simp_all
  consider "s = er_start r" "e = er_end r" | "s = er_start r" "e < er_end r" | "er_start r < s" "e = er_end r"
    | "er_start r < s" "e < er_end r" using i by fastforce
  then show ?thesis
  proof cases
    case 1
    then have "free_scan False s e nrp (r # rs) = Some ([] @ rs, Some r, False)" using se by (auto simp: Let_def)
    moreover have "spaced 1 lo hi ([] @ rs)" "rsets [] = rset r - {unat s..unat e}"
      using spaced_mono [OF rs(3), of lo] rs(1) se 1 by (simp_all add: w)
    ultimately show ?thesis by blast
  next
    case 2
    then have "free_scan False s e nrp (r # rs) = Some ([?r1] @ rs, None, False)" using se by (auto simp: Let_def not_less)
    moreover have "spaced 1 lo hi ([?r1] @ rs)" "rsets [?r1] = rset r - {unat s..unat e}" using rs 2 up se by (auto simp: w)
    ultimately show ?thesis by blast
  next
    case 3
    then have "free_scan False s e nrp (r # rs) = Some ([?r2] @ rs, None, False)" using se by (auto simp: Let_def not_less)
    moreover have "spaced 1 lo hi ([?r2] @ rs)" "rsets [?r2] = rset r - {unat s..unat e}"
      using rs 3 down se spaced_mono [OF rs(3)] by (auto simp: w)
    ultimately show ?thesis by blast
  next
    case 4
    then have "free_scan False s e nrp (r # rs) = Some ([?r2, ?d] @ rs, None, True)" using se d i by (auto simp: Let_def not_less)
    moreover have "spaced 1 lo hi ([?r2, ?d] @ rs)" "rsets [?r2, ?d] = rset r - {unat s..unat e}"
      using rs 4 up down se by (auto simp: w)
    ultimately show ?thesis by blast
  qed
qed

lemma free_scan_coalesce:
  assumes "spaced 1 lo hi rs" "s \<le> e" "nrp = Some d"
  shows "free_post 1 lo hi rs {unat s..unat e} ({unat s..unat e} \<subseteq> rsets rs) (free_scan False s e nrp rs)"
  using assms(1)
proof (induction rs arbitrary: lo)
  case Nil
  then show ?case using assms(2) by (simp add: free_post_def word_le_nat_alt)
next
  case (Cons r rs)
  let ?B = "{unat s..unat e}"
  have sp: "er_start r \<le> er_end r" "spaced 1 (unat (er_end r) + 1 + 1) hi rs" using Cons.prems by simp_all
  note IH = Cons.IH [OF sp(2)] and above = rest_above [OF Cons.prems]
  have se: "unat s \<le> unat e" using assms(2) by (simp add: word_le_nat_alt)
  have mem: "unat s \<in> ?B" "unat e \<in> ?B" using se by simp_all
  have low: "unat s < unat (er_start r) \<Longrightarrow> \<not> ?B \<subseteq> rsets (r # rs)"
    using mem spaced_ge [of 1 "unat (er_start r)" hi "r # rs" "unat s"] Cons.prems by fastforce
  have cont: "?B \<subseteq> rsets rs \<Longrightarrow> unat (er_end r) < unat s" using mem above by fastforce
  consider "er_end r < s" | "e < er_start r" | "er_start r \<le> e" "s \<le> er_end r" "s < er_start r"
    | "er_start r \<le> s" "s \<le> er_end r" "er_end r < e" | "er_start r \<le> s" "e \<le> er_end r"
    by fastforce
  then show ?case
  proof cases
    case 1
    then have d: "rset r \<inter> ?B = {}" by (auto simp: rset_def word_less_nat_alt)
    then have "(?B \<subseteq> rsets (r # rs)) = (?B \<subseteq> rsets rs)" by auto
    moreover have "free_scan False s e nrp (r # rs) = map_option (\<lambda>(l, x). (r # l, x)) (free_scan False s e nrp rs)"
      using 1 by (simp add: Let_def)
    ultimately show ?thesis using free_post_continue [OF IH Cons.prems, of "?B \<subseteq> rsets (r # rs)"] d by simp
  next
    case 2
    then have "\<not> er_end r < s" "unat s < unat (er_start r)" using sp(1) assms(2) se by (auto simp: word_less_nat_alt word_le_nat_alt)
    then show ?thesis using 2 low by (simp add: free_post_def Let_def)
  next
    case 3
    then have "\<not> ?B \<subseteq> rsets (r # rs)" "\<not> ?B \<subseteq> rsets rs" using low cont by (auto simp: word_less_nat_alt word_le_nat_alt)
    moreover have "free_scan False s e nrp (r # rs) = map_option (\<lambda>(l, x). (r # l, x)) (free_scan False s e nrp rs)"
      using 3 by (auto simp: Let_def)
    ultimately show ?thesis using free_post_continue [OF IH Cons.prems, of "?B \<subseteq> rsets (r # rs)"] by simp
  next
    case 4
    then have "unat (er_end r) + 1 \<in> ?B" "unat (er_end r) + 1 \<notin> rsets (r # rs)"
      using 4 above [of "unat (er_end r) + 1"] by (auto simp: word_less_nat_alt word_le_nat_alt rset_def)
    then have "\<not> ?B \<subseteq> rsets (r # rs)" by blast
    moreover have "\<not> ?B \<subseteq> rsets rs" using cont 4 by (auto simp: word_le_nat_alt)
    moreover have "free_scan False s e nrp (r # rs) = map_option (\<lambda>(l, x). (r # l, x)) (free_scan False s e nrp rs)"
      using 4 assms(2) by (auto simp: Let_def)
    ultimately show ?thesis using free_post_continue [OF IH Cons.prems, of "?B \<subseteq> rsets (r # rs)"] by simp
  next
    case 5
    then have sub: "?B \<subseteq> rset r" by (auto simp: rset_def word_le_nat_alt)
    have dis: "rsets rs \<inter> ?B = {}" using sub above by (fastforce simp: rset_def)
    from free_inside [OF 5 assms(2,3) Cons.prems] obtain l x where f: "free_scan False s e nrp (r # rs) = Some (l @ rs, x)"
      "rsets l = rset r - ?B" "spaced 1 lo hi (l @ rs)" by auto
    then have "rsets (l @ rs) = rsets (r # rs) - ?B" using dis by auto
    then show ?thesis using sub f by (auto simp: free_post_def)
  qed
qed

lemma spaced_mem: "spaced g lo hi rs \<Longrightarrow> r \<in> set rs \<Longrightarrow> lo \<le> unat (er_start r) \<and> er_start r \<le> er_end r"
  by (induction rs arbitrary: lo) (fastforce simp: word_le_nat_alt)+

lemma free_scan_exact:
  assumes "spaced 0 lo hi rs" "s \<le> e"
  shows "free_post 0 lo hi rs {unat s..unat e} (\<exists>r\<in>set rs. er_start r = s \<and> er_end r = e) (free_scan True s e nrp rs)"
  using assms(1)
proof (induction rs arbitrary: lo)
  case Nil
  then show ?case by (simp add: free_post_def)
next
  case (Cons r rs)
  let ?B = "{unat s..unat e}" and ?f = "\<lambda>rs. \<exists>r\<in>set rs. er_start r = s \<and> er_end r = e"
  have sp: "er_start r \<le> er_end r" "spaced 0 (unat (er_end r) + 1 + 0) hi rs" using Cons.prems by simp_all
  note IH = Cons.IH [OF sp(2)]
  have ex: "?f rs \<Longrightarrow> unat (er_end r) < unat s" using spaced_mem [OF sp(2)] by fastforce
  show ?case
  proof (cases "er_start r = s \<and> er_end r = e")
    case True
    then have "rsets rs \<inter> ?B = {}" using rest_above [OF Cons.prems] by fastforce
    moreover have "free_scan True s e nrp (r # rs) = Some (rs, Some r, False)" using True sp(1) by (auto simp: Let_def)
    moreover have "spaced 0 lo hi rs" using Cons.prems spaced_mono [OF sp(2), of lo] by (simp add: word_le_nat_alt)
    ultimately show ?thesis using True by (auto simp: free_post_def rset_def)
  next
    case False
    then have f: "?f (r # rs) = ?f rs" by auto
    show ?thesis
    proof (cases "er_end r < s \<or> er_start r \<le> e")
      case True
      then have "free_scan True s e nrp (r # rs) = map_option (\<lambda>(l, x). (r # l, x)) (free_scan True s e nrp rs)"
        using False by (auto simp: Let_def)
      moreover have "unat (er_end r) < unat s \<Longrightarrow> rset r \<inter> ?B = {}" by (auto simp: rset_def)
      then have "?f rs \<longrightarrow> rset r \<inter> ?B = {}" using ex by blast
      ultimately show ?thesis using free_post_continue [OF IH Cons.prems _ f] by simp
    next
      case other: False
      then have "\<not> unat (er_end r) < unat s" by (simp add: word_less_nat_alt)
      then have "\<not> ?f rs" using ex by blast
      moreover have "free_scan True s e nrp (r # rs) = None" using other by (auto simp: Let_def)
      ultimately show ?thesis using f by (simp add: free_post_def)
    qed
  qed
qed

text \<open>Getting a descriptor touches neither the regions nor the bounds, others apart.\<close>

definition same_map :: "extent \<Rightarrow> extent \<Rightarrow> bool" where
  "same_map ex ex' \<longleftrightarrow> ex_regions ex' = ex_regions ex \<and> ex_start ex' = ex_start ex \<and> ex_end ex' = ex_end ex \<and>
     has_flag (ex_flags ex') EXF_NOCOALESCE = has_flag (ex_flags ex) EXF_NOCOALESCE \<and> fixed ex' = fixed ex"

lemma same_mapD:
  assumes "same_map ex ex'"
  shows "ext_ok ex' = ext_ok ex" "alloc_set ex' = alloc_set ex" "gap ex' = gap ex" "block ex' = block ex"
    "becomes ex' x A = becomes ex x A"
  using assms by (auto simp: same_map_def ext_ok_def alloc_set_def gap_def block_def becomes_def fun_eq_iff)

lemma fixed_update [simp]: "fixed (ex\<lparr>fex_freelist := fl\<rparr>) = fixed ex" "fixed (ex\<lparr>ex_pool := k\<rparr>) = fixed ex"
  by (simp_all add: fixed_def)

lemma same_map_refl [simp]: "same_map ex ex" by (simp add: same_map_def)

text \<open>A caller that does not sleep: it may not wait for descriptors, or the map is not a fixed one.\<close>

definition no_sleep :: "extent \<Rightarrow> u32 \<Rightarrow> bool" where
  "no_sleep ex flags \<longleftrightarrow>
     \<not> has_flag (ex_flags ex) EXF_FIXED \<or> \<not> has_flag flags EX_WAITOK \<or> has_flag flags EX_MALLOCOK \<or> fex_freelist ex \<noteq> []"

text \<open>There is a descriptor for the taking.\<close>

definition has_descr :: "extent \<Rightarrow> u32 \<Rightarrow> bool" where
  "has_descr ex flags \<longleftrightarrow>
     (has_flag (ex_flags ex) EXF_FIXED \<and> fex_freelist ex \<noteq> []) \<or>
     (has_flag (ex_flags ex) EXF_FIXED \<longrightarrow> has_flag flags EX_MALLOCOK) \<and> (0 < ex_pool ex \<or> has_flag flags EX_WAITOK)"

lemma alloc_descr_no_sleep:
  assumes "no_sleep ex flags"
  shows "\<exists>ex' rp. extent_alloc_region_descriptor sl ex flags = Done (sl, ex', rp) \<and> same_map ex ex' \<and>
    (rp \<noteq> None \<longleftrightarrow> has_descr ex flags)"
proof -
  have p: "er_pool_get ex flags = (fst (er_pool_get ex flags), snd (er_pool_get ex flags))"
    "same_map ex (fst (er_pool_get ex flags))"
    "snd (er_pool_get ex flags) \<noteq> None \<longleftrightarrow> 0 < ex_pool ex \<or> has_flag flags EX_WAITOK"
    by (auto simp: er_pool_get_def same_map_def)
  show ?thesis
  proof (cases "has_flag (ex_flags ex) EXF_FIXED")
    case True
    then show ?thesis using assms p
      by (cases "fex_freelist ex")
         (auto simp: extent_alloc_region_descriptor_def er_fixed_get.simps [of sl] no_sleep_def has_descr_def same_map_def
            prod_eq_iff)
  next
    case False
    then show ?thesis using p by (auto simp: extent_alloc_region_descriptor_def has_descr_def prod_eq_iff)
  qed
qed

lemma becomes_flags:
  "has_flag f EXF_NOCOALESCE = has_flag (ex_flags ex') EXF_NOCOALESCE \<Longrightarrow> has_flag f EXF_FIXED = has_flag (ex_flags ex') EXF_FIXED \<Longrightarrow>
   becomes ex (ex'\<lparr>ex_flags := f\<rparr>) A = becomes ex ex' A"
  by (simp add: becomes_def ext_ok_def alloc_set_def gap_def fixed_def)

lemma becomes_wakeup [simp]: "becomes ex (ex_wakeup ex' c) A = becomes ex ex' A"
  by (simp add: becomes_def ext_ok_def alloc_set_def gap_def fixed_def ex_wakeup_def)

lemma free_found_becomes:
  "becomes ex (free_found ex nrp (l, gone, used)) A = becomes ex (ex\<lparr>ex_regions := l\<rparr>) A"
  by (simp add: free_found_def Let_def becomes_flags has_flag_clr split: option.split)

text \<open>What may be freed: allocated numbers, or one whole region where coalescing is off.\<close>

definition freeable :: "extent \<Rightarrow> u64 \<Rightarrow> u64 \<Rightarrow> bool" where
  "freeable ex s e \<longleftrightarrow>
     (if has_flag (ex_flags ex) EXF_NOCOALESCE then \<exists>r\<in>set (ex_regions ex). er_start r = s \<and> er_end r = e
      else {unat s..unat e} \<subseteq> alloc_set ex)"

lemma free_scan_post:
  assumes "ext_ok ex" "s \<le> e" "has_flag (ex_flags ex) EXF_NOCOALESCE \<or> nrp \<noteq> None"
  shows "free_post (gap ex) (unat (ex_start ex)) (unat (ex_end ex)) (ex_regions ex) {unat s..unat e} (freeable ex s e)
    (free_scan (has_flag (ex_flags ex) EXF_NOCOALESCE) s e nrp (ex_regions ex))"
  using assms free_scan_exact [of _ _ "ex_regions ex" s e nrp] free_scan_coalesce [of _ _ "ex_regions ex" s e nrp]
  by (auto simp: ext_ok_def freeable_def gap_def alloc_set_def)

lemma free_search:
  assumes ok: "ext_ok ex" and "s \<le> e" "has_flag (ex_flags ex) EXF_NOCOALESCE \<or> nrp \<noteq> None"
  shows "case free_scan (has_flag (ex_flags ex) EXF_NOCOALESCE) s e nrp (ex_regions ex) of
      None \<Rightarrow> \<not> freeable ex s e
    | Some r \<Rightarrow> freeable ex s e \<and> becomes ex (free_found ex nrp r) (alloc_set ex - {unat s..unat e})"
  using free_scan_post [OF assms] ok
  by (auto simp: free_post_def free_found_becomes becomes_regions ext_ok_def alloc_set_def split: option.splits)

text \<open>Descriptors are needed for freeing only where a region may have to be split.\<close>

definition free_descr :: "extent \<Rightarrow> u32 \<Rightarrow> bool" where
  "free_descr ex flags \<longleftrightarrow> has_flag (ex_flags ex) EXF_NOCOALESCE \<or> has_descr ex flags"

lemma extent_free_cases:
  assumes ok: "ext_ok ex" and b: "block ex s (s + (sz - 1))" and ns: "no_sleep ex flags"
  shows "if \<not> free_descr ex flags then \<exists>ex'. extent_free sl ex s sz flags = Done (sl, ex', ENOMEM) \<and> same_map ex ex'
    else if freeable ex s (s + (sz - 1)) then
      \<exists>ex'. extent_free sl ex s sz flags = Done (sl, ex', 0) \<and> becomes ex ex' (alloc_set ex - {unat s..unat (s + (sz - 1))})
    else extent_free sl ex s sz flags = Panic ''extent_free: region not found''"
proof -
  let ?e = "s + (sz - 1)"
  have b': "s \<le> ?e" "\<not> s < ex_start ex" "\<not> ex_end ex < ?e" "\<not> ?e < s" using b by (auto simp: block_def)
  show ?thesis
  proof (cases "has_flag (ex_flags ex) EXF_NOCOALESCE")
    case True
    then show ?thesis using free_search [OF ok b'(1), of None] b'
      by (auto simp: extent_free_def find_and_free_def Let_def free_descr_def split: option.splits)
  next
    case False
    from alloc_descr_no_sleep [OF ns] obtain ex' rp where d: "extent_alloc_region_descriptor sl ex flags = Done (sl, ex', rp)"
      "same_map ex ex'" "rp \<noteq> None \<longleftrightarrow> has_descr ex flags" by blast
    have nf: "has_flag (ex_flags ex') EXF_NOCOALESCE = False" using d(2) False by (simp add: same_map_def)
    have fr: "freeable ex' s ?e = freeable ex s ?e" using False nf d(2) by (simp add: freeable_def same_mapD)
    show ?thesis
    proof (cases rp)
      case None
      then show ?thesis using d False b' by (simp add: extent_free_def Let_def free_descr_def)
    next
      case (Some r)
      then show ?thesis
        using free_search [of ex' s ?e rp] same_mapD [OF d(2)] ok d False b' nf fr
        by (auto simp: extent_free_def find_and_free_def Let_def free_descr_def split: option.splits)
    qed
  qed
qed

subsection \<open>Allocation of a given region\<close>

lemma region_scan_None:
  "spaced g lo hi rs \<Longrightarrow> s \<le> e \<Longrightarrow> region_scan s e rs n = (i, None) \<Longrightarrow>
   n \<le> i \<and> placed (take (i - n) rs) (drop (i - n) rs) s e \<and> rsets rs \<inter> {unat s..unat e} = {}"
proof (induction rs arbitrary: lo n)
  case Nil
  then show ?case by (simp add: placed_def)
next
  case (Cons r rs)
  note above = rest_above [OF Cons.prems(1)]
  show ?case
  proof (cases "er_start r > e")
    case True
    have "unat e < x" if "x \<in> rsets (r # rs)" for x
      using True that spaced_ge [of g "unat (er_start r)" hi "r # rs" x] Cons.prems(1) by (auto simp: word_less_nat_alt)
    then show ?thesis using True Cons.prems(3) by (fastforce simp: placed_def)
  next
    case False
    then have f: "er_end r < s" "region_scan s e rs (n + 1) = (i, None)" using Cons.prems(3) by (auto split: if_splits)
    from Cons.IH [OF _ Cons.prems(2) f(2)] Cons.prems(1)
    have IH: "n + 1 \<le> i" "placed (take (i - (n + 1)) rs) (drop (i - (n + 1)) rs) s e" "rsets rs \<inter> {unat s..unat e} = {}"
      by auto
    then have "i - n = Suc (i - (n + 1))" by simp
    moreover have "rset r \<inter> {unat s..unat e} = {}" using f(1) by (auto simp: rset_def word_less_nat_alt)
    ultimately show ?thesis using IH f(1) by (auto simp: placed_def)
  qed
qed

lemma region_scan_conflict:
  assumes "spaced g lo hi rs" "s \<le> e" "region_scan s e rs n = (i, Some rp)"
  shows "rsets rs \<inter> {unat s..unat e} \<noteq> {}"
proof -
  from region_scan_Some [OF assms(3)] have rp: "rp \<in> set rs" "er_start rp \<le> e" "s \<le> er_end rp" by auto
  moreover have "er_start rp \<le> er_end rp" using spaced_mem [OF assms(1) rp(1)] by simp
  ultimately have "max (unat s) (unat (er_start rp)) \<in> rset rp \<inter> {unat s..unat e}"
    using assms(2) by (auto simp: rset_def word_le_nat_alt)
  then show ?thesis using rp(1) by (auto simp: rsets_def)
qed

lemma extent_alloc_region_cases:
  assumes ok: "ext_ok ex" and sz: "1 \<le> sz" and b: "block ex s (s + (sz - 1))" and ns: "no_sleep ex flags"
    and f: "\<not> has_flag flags EX_WAITSPACE" "\<not> has_flag flags EX_CONFLICTOK"
  shows "if \<not> has_descr ex flags then \<exists>ex'. extent_alloc_region sl ex s sz flags = Done (sl, ex', ENOMEM) \<and> same_map ex ex'
    else if alloc_set ex \<inter> {unat s..unat (s + (sz - 1))} = {} then
      \<exists>ex'. extent_alloc_region sl ex s sz flags = Done (sl, ex', 0) \<and> becomes ex ex' (alloc_set ex \<union> {unat s..unat (s + (sz - 1))})
    else \<exists>ex'. extent_alloc_region sl ex s sz flags = Done (sl, ex', EAGAIN) \<and> becomes ex ex' (alloc_set ex)"
proof -
  let ?e = "s + (sz - 1)"
  have b': "s \<le> ?e" "\<not> s < ex_start ex" "\<not> ex_end ex < ?e" "\<not> ?e < s" "\<not> sz < 1" using b sz by (auto simp: block_def)
  from alloc_descr_no_sleep [OF ns] obtain ex1 rp where d: "extent_alloc_region_descriptor sl ex flags = Done (sl, ex1, rp)"
    "same_map ex ex1" "rp \<noteq> None \<longleftrightarrow> has_descr ex flags" by blast
  show ?thesis
  proof (cases rp)
    case None
    then show ?thesis using d b' f by (simp add: extent_alloc_region_def Let_def)
  next
    case (Some myrp)
    have r: "extent_alloc_region sl ex s sz flags = alloc_region_loop sl ex1 s sz ?e flags myrp"
      using Some d b' f by (simp add: extent_alloc_region_def Let_def)
    note s = same_mapD [OF d(2)]
    have ok1: "ext_ok ex1" "block ex1 s ?e" using ok b s by simp_all
    then have sp: "spaced (gap ex1) (unat (ex_start ex1)) (unat (ex_end ex1)) (ex_regions ex1)" by (simp add: ext_ok_def)
    obtain n c where sc: "region_scan s ?e (ex_regions ex1) 0 = (n, c)" by fastforce
    show ?thesis
    proof (cases c)
      case None
      from region_scan_None [OF sp b'(1) sc [unfolded None]]
      have "placed (take n (ex_regions ex1)) (drop n (ex_regions ex1)) s ?e" "alloc_set ex \<inter> {unat s..unat ?e} = {}"
        using s(2) by (simp_all add: alloc_set_def)
      with insert_becomes [OF ok1 this(1)] show ?thesis
        using Some d(3) s sc None by (simp add: r alloc_region_loop.simps [of sl])
    next
      case (Some x)
      from region_scan_conflict [OF sp b'(1) sc [unfolded Some]] have "alloc_set ex \<inter> {unat s..unat ?e} \<noteq> {}"
        using s(2) by (simp add: alloc_set_def)
      moreover have "becomes ex ex1 (alloc_set ex)" using s ok d(2) by (simp add: becomes_def same_map_def)
      ultimately show ?thesis using \<open>rp = Some myrp\<close> d(3) sc Some f by (simp add: r alloc_region_loop.simps [of sl])
    qed
  qed
qed

end
