(* ===== verification/Extent_Search.thy ===== *)
theory Extent_Search
  imports Extent_Inv
begin

text \<open>
  The search for a free place in an extent map: what \<^verbatim>\<open>extent_do_alloc\<close> finds is free, aligned
  and crosses no boundary line, and it finds a place whenever there is one.
\<close>

subsection \<open>Alignment\<close>

definition on_grid :: "nat \<Rightarrow> nat \<Rightarrow> nat \<Rightarrow> bool" where
  "on_grid a k z \<longleftrightarrow> k \<le> z \<and> a dvd z - k"

definition is_pow2 :: "u64 \<Rightarrow> bool" where
  "is_pow2 w \<longleftrightarrow> (\<exists>k < 64. w = 2 ^ k)"

lemma unat_pow2: assumes "k < 64" shows "unat (2 ^ k :: u64) = 2 ^ k"
proof -
  have "(2 ^ k :: u64) = word_of_nat (2 ^ k)" by simp
  moreover have "(2 :: nat) ^ k < 2 ^ 64" using assms by (intro power_strict_increasing) auto
  ultimately show ?thesis by (simp only: unat_of_nat) simp
qed

lemma unat_and_minus_pow2:
  assumes "k < 64" shows "unat (x AND (- (2 ^ k)) :: u64) = unat x div 2 ^ k * 2 ^ k"
proof -
  have m: "- (2 ^ k :: u64) = NOT (mask k)" by (simp add: minus_exp_eq_not_mask)
  have p: "x AND NOT (mask k) = push_bit k (drop_bit k x)" by (intro bit_eqI) (auto simp: bit_simps)
  have t: "take_bit 64 (unat x) = unat x" using unat_lt_2p64 [of x] by (simp add: take_bit_nat_eq_self)
  have "unat x div 2 ^ k * 2 ^ k < 2 ^ 64" using unat_lt_2p64 [of x] by (rule le_less_trans [OF div_times_less_eq_dividend])
  moreover have "unat (push_bit k (drop_bit k x)) = take_bit 64 (unat x div 2 ^ k * 2 ^ k)"
    by (simp add: unsigned_push_bit_eq unsigned_drop_bit_eq t push_bit_eq_mult [where 'a = nat] drop_bit_eq_div [where 'a = nat])
  ultimately show ?thesis by (simp only: m p take_bit_nat_eq_self)
qed

text \<open>The aligned number is the first one of the grid that is not below the start.\<close>

lemma extent_align_unat:
  assumes p: "is_pow2 a" and w: "unat s + unat a \<le> 2 ^ 64" and k: "unat k < unat s + unat a"
  shows "unat (extent_align s a k) = (unat s + unat a - 1 - unat k) div unat a * unat a + unat k"
proof -
  obtain i where i: "i < 64" "a = 2 ^ i" using p by (auto simp: is_pow2_def)
  have a: "unat a = 2 ^ i" "0 < unat a" using i by (simp_all add: unat_pow2)
  let ?x = "s + (a - 1) - k"
  have a1: "unat (a - 1) = unat a - 1" using a by (intro unat_sub1 [of 0]) (simp add: word_less_nat_alt)
  have s1: "unat (s + (a - 1)) = unat s + (unat a - 1)"
    using w a a1 by (simp add: unat_word_ariths)
  have x: "unat ?x = unat s + unat a - 1 - unat k"
    using s1 k a by (subst unat_sub) (simp_all add: word_le_nat_alt)
  let ?y = "?x AND (- a)"
  have y: "unat ?y = unat ?x div unat a * unat a" using unat_and_minus_pow2 [OF i(1), of ?x] i a by simp
  have "unat ?y \<le> unat ?x" by (simp add: y)
  then have "unat ?y + unat k \<le> unat s + unat a - 1" using x k by linarith
  then have "unat (?y + k) = unat ?y + unat k" using w a by (simp add: unat_word_ariths)
  moreover have "extent_align s a k = ?y + k" by (simp add: extent_align_def algebra_simps)
  ultimately show ?thesis using x y by simp
qed


lemma extent_align_first:
  assumes p: "is_pow2 a" and w: "unat s + unat a \<le> 2 ^ 64" and k: "unat k < unat s + unat a"
  shows "unat s \<le> unat (extent_align s a k)" "unat (extent_align s a k) < unat s + unat a"
    "on_grid (unat a) (unat k) (unat (extent_align s a k))"
    "unat s \<le> z \<Longrightarrow> on_grid (unat a) (unat k) z \<Longrightarrow> unat (extent_align s a k) \<le> z"
proof -
  define A where "A = unat a"
  define x where "x = unat s + A - 1 - unat k"
  have r: "unat (extent_align s a k) = x div A * A + unat k" using extent_align_unat [OF assms] by (simp add: x_def A_def)
  have A: "0 < A" using p by (auto simp: is_pow2_def A_def unat_pow2)
  have xk: "x + unat k = unat s + A - 1" using k by (simp add: x_def A_def)
  have d: "x div A * A \<le> x" "x < x div A * A + A"
    using div_mult_mod_eq [of x A] mod_less_divisor [OF A, of x] by linarith+
  show "unat s \<le> unat (extent_align s a k)" "unat (extent_align s a k) < unat s + unat a"
    using d xk A r unfolding A_def by linarith+
  show "on_grid (unat a) (unat k) (unat (extent_align s a k))" by (simp add: on_grid_def r A_def)
  assume z: "unat s \<le> z" "on_grid (unat a) (unat k) z"
  then obtain q where q: "z = q * A + unat k" by (auto simp: on_grid_def A_def elim!: dvdE) (metis le_add_diff_inverse2 mult.commute)
  then have "x < (q + 1) * A" using z(1) xk A by simp
  then have "x div A < q + 1" by (rule less_mult_imp_div_less)
  then show "unat (extent_align s a k) \<le> z" using r q by simp
qed

subsection \<open>Requests\<close>

lemma LE_OV_iff: "LE_OV x y z \<longleftrightarrow> unat x + unat y \<le> unat z"
proof
  assume "LE_OV x y z"
  then have "unat (x + y) = unat x + unat y" "x + y \<le> z" by (simp_all add: LE_OV_def unat_plus_simple)
  then show "unat x + unat y \<le> unat z" by (simp add: word_le_nat_alt)
next
  assume a: "unat x + unat y \<le> unat z"
  then have "unat (x + y) = unat x + unat y" using unat_lt_2p64 [of z] by (simp add: unat_word_ariths)
  then show "LE_OV x y z" using a by (simp add: LE_OV_def word_le_nat_alt)
qed

text \<open>
  A request the checks of \<^verbatim>\<open>extent_do_alloc\<close> let through, with powers of two where the code
  asks for them.  The map may reach up to the highest number; the start of the subregion must
  lie an alignment below the top of the number space, and with a boundary the end of the
  subregion must lie a boundary below it.
\<close>

definition rq_fits :: "extent \<Rightarrow> request \<Rightarrow> bool" where
  "rq_fits ex rq \<longleftrightarrow>
     1 \<le> rq_size rq \<and> ex_start ex \<le> rq_substart rq \<and> rq_substart rq \<le> ex_end ex \<and> ex_start ex \<le> rq_subend rq \<and>
     rq_subend rq \<le> ex_end ex \<and> rq_size rq - 1 \<le> rq_subend rq - rq_substart rq \<and>
     is_pow2 (rq_alignment rq) \<and> rq_skew rq < rq_alignment rq \<and>
     unat (rq_substart rq) + unat (rq_alignment rq) \<le> 2 ^ 64 \<and>
     (rq_boundary rq \<noteq> 0 \<longrightarrow> is_pow2 (rq_boundary rq) \<and> rq_size rq \<le> rq_boundary rq \<and>
        unat (rq_subend rq) + unat (rq_boundary rq) < 2 ^ 64)"

text \<open>
  The region that holds the first aligned number of the subregion, if there is one, ends more
  than an alignment below the top: the code moves the start behind it without a check.
\<close>

definition start_clear :: "extent \<Rightarrow> request \<Rightarrow> bool" where
  "start_clear ex rq \<longleftrightarrow>
     (let s = extent_align (rq_substart rq) (rq_alignment rq) (rq_skew rq)
      in \<forall>r\<in>set (ex_regions ex). er_start r < s \<and> s \<le> er_end r \<longrightarrow> unat (er_end r) + unat (rq_alignment rq) < 2 ^ 64)"

definition rq_ok :: "extent \<Rightarrow> request \<Rightarrow> bool" where
  "rq_ok ex rq \<longleftrightarrow> rq_fits ex rq \<and> start_clear ex rq"

text \<open>The line from which boundaries are counted, and blocks that cross none.\<close>

definition bound_base :: "extent \<Rightarrow> request \<Rightarrow> u64" where
  "bound_base ex rq = (if has_flag (rq_flags rq) EX_BOUNDZERO then 0 else ex_start ex)"

definition line_ok :: "extent \<Rightarrow> request \<Rightarrow> nat \<Rightarrow> bool" where
  "line_ok ex rq s \<longleftrightarrow>
     (let base = unat (bound_base ex rq); b = unat (rq_boundary rq)
      in b \<noteq> 0 \<longrightarrow> (s - base) div b = (s + unat (rq_size rq) - 1 - base) div b)"

text \<open>The places that satisfy a request without a boundary.\<close>

definition feasible :: "extent \<Rightarrow> request \<Rightarrow> nat \<Rightarrow> bool" where
  "feasible ex rq x \<longleftrightarrow>
     unat (rq_substart rq) \<le> x \<and> x + unat (rq_size rq) \<le> unat (rq_subend rq) + 1 \<and>
     on_grid (unat (rq_alignment rq)) (unat (rq_skew rq)) x \<and> {x..<x + unat (rq_size rq)} \<inter> alloc_set ex = {}"

text \<open>A place the search may return: the start and the number of regions before it.\<close>

definition room :: "extent \<Rightarrow> request \<Rightarrow> u64 \<Rightarrow> nat \<Rightarrow> bool" where
  "room ex rq s n \<longleftrightarrow>
     rq_substart rq \<le> s \<and> unat s + unat (rq_size rq) \<le> unat (rq_subend rq) + 1 \<and>
     placed (take n (ex_regions ex)) (drop n (ex_regions ex)) s (s + (rq_size rq - 1)) \<and>
     line_ok ex rq (unat s) \<and> (rq_boundary rq = 0 \<longrightarrow> on_grid (unat (rq_alignment rq)) (unat (rq_skew rq)) (unat s))"

lemma unat_size: "1 \<le> rq_size rq \<Longrightarrow> unat (rq_size rq - 1) = unat (rq_size rq) - 1 \<and> 1 \<le> unat (rq_size rq)"
  using unat_sub1 [of 0 "rq_size rq"] by (auto simp: word_le_nat_alt word_less_nat_alt)

lemma unat_block_end:
  fixes h :: u64
  assumes "1 \<le> rq_size rq" "unat s + unat (rq_size rq) \<le> unat h + 1"
  shows "unat (s + (rq_size rq - 1)) = unat s + unat (rq_size rq) - 1"
  using assms unat_size [of rq] unat_lt_2p64 [of h] by (simp add: unat_word_ariths)

text \<open>Alignment behind a number: the next number on the grid, unless there is none.\<close>

lemma div_mult_mod:
  fixes y :: nat
  assumes "i \<le> n"
  shows "y mod 2 ^ n div 2 ^ i * 2 ^ i = y div 2 ^ i * 2 ^ i mod 2 ^ n"
proof -
  have "(2 :: nat) ^ n = 2 ^ i * 2 ^ (n - i)" using assms by (simp flip: power_add)
  then have "y mod 2 ^ n = 2 ^ i * (y div 2 ^ i mod 2 ^ (n - i)) + y mod 2 ^ i" by (simp add: mod_mult2_eq)
  then have "y mod 2 ^ n div 2 ^ i = y div 2 ^ i mod 2 ^ (n - i)" by simp
  moreover have "y div 2 ^ i * 2 ^ i mod 2 ^ n = (y div 2 ^ i mod 2 ^ (n - i)) * 2 ^ i"
    using mult_mod_right [of "2 ^ i" "y div 2 ^ i" "2 ^ (n - i)"] assms by (simp add: mult.commute flip: power_add)
  ultimately show ?thesis by simp
qed

lemma extent_align_mod:
  assumes p: "is_pow2 a" and k: "unat k < unat a"
  shows "unat (extent_align (e + 1) a k) = ((unat e + unat a - unat k) div unat a * unat a + unat k) mod 2 ^ 64"
proof -
  obtain i where i: "i < 64" "a = 2 ^ i" using p by (auto simp: is_pow2_def)
  have a: "unat a = 2 ^ i" using i by (simp add: unat_pow2)
  let ?y = "unat e + unat a - unat k"
  have "e + 1 + (a - 1) - k = word_of_nat ?y" using k by (simp add: of_nat_diff)
  then have x: "unat (e + 1 + (a - 1) - k) = ?y mod 2 ^ 64" by (simp add: unat_of_nat)
  have "unat ((e + 1 + (a - 1) - k) AND (- a)) = ?y mod 2 ^ 64 div 2 ^ i * 2 ^ i"
    using unat_and_minus_pow2 [OF i(1), of "e + 1 + (a - 1) - k"] x i(2) by simp
  also have "\<dots> = ?y div 2 ^ i * 2 ^ i mod 2 ^ 64" using i(1) by (intro div_mult_mod) simp
  finally have m: "unat ((e + 1 + (a - 1) - k) AND (- a)) = ?y div 2 ^ i * 2 ^ i mod 2 ^ 64" .
  have "extent_align (e + 1) a k = ((e + 1 + (a - 1) - k) AND (- a)) + k" by (simp add: extent_align_def algebra_simps)
  then show ?thesis using m a by (simp add: unat_word_ariths mod_add_left_eq)
qed

lemma align_behind:
  fixes e :: u64
  assumes p: "is_pow2 a" and k: "unat k < unat a"
  defines "g \<equiv> (unat e + unat a - unat k) div unat a * unat a + unat k"
  shows "unat e < g" "g \<le> unat e + unat a" "on_grid (unat a) (unat k) g" "unat e < z \<Longrightarrow> on_grid (unat a) (unat k) z \<Longrightarrow> g \<le> z"
    "unat (extent_align (e + 1) a k) = (if g < 2 ^ 64 then g else g - 2 ^ 64)"
proof -
  define A where "A = unat a"
  define y where "y = unat e + A - unat k"
  have A: "0 < A" "A \<le> 2 ^ 63" using p power_increasing [of _ 63 "2 :: nat"] by (auto simp: is_pow2_def A_def unat_pow2)
  have g: "g = y div A * A + unat k" by (simp add: g_def y_def A_def)
  have d: "y div A * A \<le> y" "y < y div A * A + A" using div_mult_mod_eq [of y A] mod_less_divisor [OF A(1), of y] by linarith+
  have yk: "y + unat k = unat e + A" using k by (simp add: y_def A_def)
  show lo: "unat e < g" and hi: "g \<le> unat e + unat a" using d yk g unfolding A_def by linarith+
  show "on_grid (unat a) (unat k) g" by (simp add: on_grid_def g A_def)
  have "g < 2 ^ 64 + 2 ^ 64" using hi A(2) unat_lt_2p64 [of e] by (simp add: A_def)
  then show "unat (extent_align (e + 1) a k) = (if g < 2 ^ 64 then g else g - 2 ^ 64)"
    using extent_align_mod [OF p k, of e] by (simp add: g_def [symmetric] le_mod_geq)
  assume z: "unat e < z" "on_grid (unat a) (unat k) z"
  then obtain q where q: "z = q * A + unat k" by (auto simp: on_grid_def A_def elim!: dvdE) (metis le_add_diff_inverse2 mult.commute)
  then have "y < (q + 1) * A" using z(1) yk by simp
  then have "y div A < q + 1" by (rule less_mult_imp_div_less)
  then show "g \<le> z" using g q by simp
qed

text \<open>Whether there is a number of the grid above \<open>e\<close>.\<close>

definition more_grid :: "request \<Rightarrow> u64 \<Rightarrow> bool" where
  "more_grid rq e \<longleftrightarrow> (\<exists>z. unat e < z \<and> z < 2 ^ 64 \<and> on_grid (unat (rq_alignment rq)) (unat (rq_skew rq)) z)"

lemma rq_fits_grid: "rq_ok ex rq \<Longrightarrow> is_pow2 (rq_alignment rq)" "rq_ok ex rq \<Longrightarrow> unat (rq_skew rq) < unat (rq_alignment rq)"
  by (simp_all add: rq_ok_def rq_fits_def word_less_nat_alt)

lemma unat_next_aligned:
  assumes rq: "rq_ok ex rq" and e: "more_grid rq e"
  shows "unat e < unat (extent_align (e + 1) (rq_alignment rq) (rq_skew rq))"
    "on_grid (unat (rq_alignment rq)) (unat (rq_skew rq)) (unat (extent_align (e + 1) (rq_alignment rq) (rq_skew rq)))"
    "unat e < z \<Longrightarrow> on_grid (unat (rq_alignment rq)) (unat (rq_skew rq)) z \<Longrightarrow>
     unat (extent_align (e + 1) (rq_alignment rq) (rq_skew rq)) \<le> z"
proof -
  note al = align_behind [OF rq_fits_grid [OF rq], of e]
  obtain w where w: "unat e < w" "w < 2 ^ 64" "on_grid (unat (rq_alignment rq)) (unat (rq_skew rq)) w"
    using e by (auto simp: more_grid_def)
  have eq: "unat (extent_align (e + 1) (rq_alignment rq) (rq_skew rq)) =
    (unat e + unat (rq_alignment rq) - unat (rq_skew rq)) div unat (rq_alignment rq) * unat (rq_alignment rq) + unat (rq_skew rq)"
    using al(4) [OF w(1,3)] al(5) w(2) by (simp split: if_splits)
  show "unat e < unat (extent_align (e + 1) (rq_alignment rq) (rq_skew rq))" unfolding eq by (rule al(1))
  show "on_grid (unat (rq_alignment rq)) (unat (rq_skew rq)) (unat (extent_align (e + 1) (rq_alignment rq) (rq_skew rq)))"
    unfolding eq by (rule al(3))
  show "unat e < z \<Longrightarrow> on_grid (unat (rq_alignment rq)) (unat (rq_skew rq)) z \<Longrightarrow>
     unat (extent_align (e + 1) (rq_alignment rq) (rq_skew rq)) \<le> z" unfolding eq by (rule al(4))
qed

lemma next_wraps:
  assumes rq: "rq_ok ex rq" and e: "\<not> more_grid rq e"
  shows "extent_align (e + 1) (rq_alignment rq) (rq_skew rq) < e"
proof -
  note al = align_behind [OF rq_fits_grid [OF rq], of e]
  define g where "g = (unat e + unat (rq_alignment rq) - unat (rq_skew rq)) div unat (rq_alignment rq) * unat (rq_alignment rq) + unat (rq_skew rq)"
  have g: "\<not> g < 2 ^ 64" using e al(1,3) unfolding more_grid_def g_def by blast
  have "unat (rq_alignment rq) < 2 ^ 64" by (rule unat_lt_2p64)
  then have "g - 2 ^ 64 < unat e" using al(2) g unfolding g_def by linarith
  then show ?thesis using al(5) g by (simp add: g_def [symmetric] word_less_nat_alt)
qed

lemma more_gridI:
  assumes "rq_ok ex rq" "unat e + unat (rq_alignment rq) < 2 ^ 64"
  shows "more_grid rq e"
  using align_behind(1-3) [OF rq_fits_grid [OF assms(1)], of e] assms(2) unfolding more_grid_def by (meson le_less_trans)

subsection \<open>The boundary check\<close>

lemma boundary_check_none: "rq_boundary rq = 0 \<Longrightarrow> boundary_check ex rq fits s = Fit s"
  by (simp add: boundary_check_def)

lemma boundary_check_Fit:
  assumes rq: "rq_ok ex rq" and s: "ex_start ex \<le> s" "unat s + unat (rq_size rq) \<le> unat (rq_subend rq) + 1"
    and f: "fits s" and r: "boundary_check ex rq fits s = Fit s'"
  shows "s \<le> s' \<and> fits s' \<and> line_ok ex rq (unat s')"
proof (cases "rq_boundary rq = 0")
  case True
  then show ?thesis using f r by (simp add: boundary_check_none line_ok_def)
next
  case False
  define B where "B = unat (rq_boundary rq)"
  define base where "base = unat (bound_base ex rq)"
  define line where "line = extent_align (s + 1) (rq_boundary rq) (bound_base ex rq)"
  have p: "is_pow2 (rq_boundary rq)" "unat (rq_size rq) \<le> B" "unat (rq_subend rq) + B < 2 ^ 64" "1 \<le> rq_size rq"
    using rq False by (simp_all add: rq_ok_def rq_fits_def B_def word_le_nat_alt)
  have sz: "1 \<le> unat (rq_size rq)" using unat_size [OF p(4)] by simp
  have B: "0 < B" using p(2) sz by simp
  have s1: "unat (s + 1) = unat s + 1" using s(2) sz p(3) B by (simp add: unat_word_ariths)
  have base: "base \<le> unat s" using s(1) by (simp add: base_def bound_base_def word_le_nat_alt)
  have c: "unat (s + 1) + unat (rq_boundary rq) \<le> 2 ^ 64" "unat (bound_base ex rq) < unat (s + 1) + unat (rq_boundary rq)"
    using s1 p(3) s(2) sz base by (simp_all add: B_def base_def)
  note al = extent_align_first [OF p(1) c, folded line_def B_def base_def]
  obtain q where q: "unat line = base + q * B"
    using al(3) by (auto simp: on_grid_def elim!: dvdE) (metis le_add_diff_inverse mult.commute)
  have lo: "unat s + 1 \<le> unat line" and hi: "unat line < unat s + 1 + B" using al(1,2) s1 by simp_all
  have d: "unat (line - 1) = unat line - 1" using lo by (intro unat_sub1 [of 0]) (simp add: word_less_nat_alt)
  have ne: "\<not> line - 1 < ex_start ex" using d lo s(1) by (simp add: word_less_nat_alt word_le_nat_alt)
  have e: "unat (s + (rq_size rq - 1)) = unat s + unat (rq_size rq) - 1" by (rule unat_block_end [OF p(4) s(2)])
  have same: "(x - base) div B = (y - base) div B" if "base + j * B \<le> x" "x \<le> y" "y < base + (j + 1) * B" for x y j
  proof -
    have "(x - base) div B = j" "(y - base) div B = j" using that B by (auto intro!: div_nat_eqI simp: algebra_simps)
    then show ?thesis by simp
  qed
  show ?thesis
  proof (cases "s + (rq_size rq - 1) > line - 1")
    case True
    then have "s' = line" "fits line" using r False ne
      by (auto simp: boundary_check_def Let_def simp flip: bound_base_def line_def split: if_splits)
    moreover have "line_ok ex rq (unat line)"
      using same [of q "unat line" "unat line + unat (rq_size rq) - 1"] q sz p(2)
      by (simp add: line_ok_def Let_def flip: B_def base_def)
    ultimately show ?thesis using lo by (simp add: word_le_nat_alt)
  next
    case other: False
    then have "s' = s" using r False ne
      by (auto simp: boundary_check_def Let_def simp flip: bound_base_def line_def split: if_splits)
    moreover have "q \<noteq> 0" using q lo base by (cases q) auto
    then have "line_ok ex rq (unat s)"
      using same [of "q - 1" "unat s" "unat s + unat (rq_size rq) - 1"] q hi lo sz other d e
      by (cases q) (auto simp: line_ok_def Let_def word_less_nat_alt simp flip: B_def base_def)
    ultimately show ?thesis using f by simp
  qed
qed

subsection \<open>The walk over the gaps\<close>

text \<open>The walk stands at start \<open>s\<close> behind \<open>n\<close> regions.\<close>

definition at_gap :: "extent \<Rightarrow> request \<Rightarrow> u64 \<Rightarrow> nat \<Rightarrow> bool" where
  "at_gap ex rq s n \<longleftrightarrow>
     (take n (ex_regions ex) = [] \<or> er_end (last (take n (ex_regions ex))) < s) \<and> rq_substart rq \<le> s \<and>
     on_grid (unat (rq_alignment rq)) (unat (rq_skew rq)) (unat s) \<and>
     (\<forall>r\<in>set (drop n (ex_regions ex)). rq_substart rq \<le> er_start r)"

definition best_ok :: "extent \<Rightarrow> request \<Rightarrow> best \<Rightarrow> bool" where
  "best_ok ex rq b \<longleftrightarrow> fst b = 0 \<or> \<not> has_flag (rq_flags rq) EX_FAST \<and> room ex rq (fst (snd b)) (snd (snd b))"

definition none_below :: "extent \<Rightarrow> request \<Rightarrow> best \<Rightarrow> u64 \<Rightarrow> bool" where
  "none_below ex rq b s \<longleftrightarrow> rq_boundary rq = 0 \<and> fst b = 0 \<longrightarrow> (\<forall>x. feasible ex rq x \<longrightarrow> unat s \<le> x)"

definition first_fit :: "extent \<Rightarrow> request \<Rightarrow> u64 \<Rightarrow> bool" where
  "first_fit ex rq s \<longleftrightarrow>
     rq_boundary rq = 0 \<and> has_flag (rq_flags rq) EX_FAST \<longrightarrow> (\<forall>x. feasible ex rq x \<longrightarrow> unat s \<le> x)"

definition no_fit :: "extent \<Rightarrow> request \<Rightarrow> best \<Rightarrow> bool" where
  "no_fit ex rq b \<longleftrightarrow> rq_boundary rq = 0 \<and> fst b = 0 \<longrightarrow> (\<forall>x. \<not> feasible ex rq x)"

fun scan_post :: "extent \<Rightarrow> request \<Rightarrow> found \<Rightarrow> bool" where
  "scan_post ex rq (Found s n) \<longleftrightarrow> room ex rq s n \<and> first_fit ex rq s"
| "scan_post ex rq (Failed b) \<longleftrightarrow> best_ok ex rq b \<and> no_fit ex rq b"
| "scan_post ex rq (Final s n b exend) \<longleftrightarrow>
     at_gap ex rq s n \<and> best_ok ex rq b \<and> none_below ex rq b s \<and>
     (drop n (ex_regions ex) = [] \<or> rq_subend rq < er_start (hd (drop n (ex_regions ex))))"

lemma region_bounds:
  assumes "ext_ok ex" "r \<in> set (ex_regions ex)"
  shows "er_start r \<le> er_end r" "ex_start ex \<le> er_start r" "er_end r \<le> ex_end ex"
proof -
  show l: "er_start r \<le> er_end r" "ex_start ex \<le> er_start r"
    using assms spaced_mem by (auto simp: ext_ok_def word_le_nat_alt)
  then have "unat (er_end r) \<in> rsets (ex_regions ex)" using assms(2) by (auto simp: rsets_def rset_def word_le_nat_alt)
  then show "er_end r \<le> ex_end ex" using assms(1) spaced_le by (auto simp: ext_ok_def word_le_nat_alt)
qed

text \<open>Past a region that leaves no room before it.\<close>

lemma feasible_past:
  assumes ok: "ext_ok ex" and r: "r \<in> set (ex_regions ex)" and x: "feasible ex rq x" and sz: "1 \<le> rq_size rq"
    and n: "\<not> x + unat (rq_size rq) \<le> unat (er_start r)"
  shows "unat (er_end r) < x"
proof (rule ccontr)
  assume "\<not> unat (er_end r) < x"
  then have "max x (unat (er_start r)) \<in> {x..<x + unat (rq_size rq)} \<inter> rset r"
    using n region_bounds(1) [OF ok r] unat_size [OF sz] by (auto simp: rset_def word_le_nat_alt)
  then have "max x (unat (er_start r)) \<in> {x..<x + unat (rq_size rq)} \<inter> alloc_set ex"
    using r by (auto simp: alloc_set_def rsets_def)
  moreover have "{x..<x + unat (rq_size rq)} \<inter> alloc_set ex = {}" using x by (simp add: feasible_def)
  ultimately show False by blast
qed

lemma gap_next:
  assumes ok: "ext_ok ex" and rq: "rq_ok ex rq" and g: "at_gap ex rq s n" and d: "drop n (ex_regions ex) = rp # rps"
    and more: "more_grid rq (er_end rp)"
  defines "nxt \<equiv> extent_align (er_end rp + 1) (rq_alignment rq) (rq_skew rq)"
  shows "at_gap ex rq nxt (n + 1)" "\<not> nxt < er_end rp" "drop (n + 1) (ex_regions ex) = rps"
    "none_below ex rq b s \<Longrightarrow> \<not> LE_OV s (rq_size rq) (er_start rp) \<or> rq_boundary rq \<noteq> 0 \<or> fst b \<noteq> 0 \<Longrightarrow>
     none_below ex rq b nxt"
proof -
  have n: "n < length (ex_regions ex)" "ex_regions ex ! n = rp" using d
    by (metis drop_all length_drop list.distinct(1) not_less zero_less_diff) (metis d nth_via_drop)
  have t: "take (n + 1) (ex_regions ex) = take n (ex_regions ex) @ [rp]" using n by (simp add: take_Suc_conv_app_nth)
  show d1: "drop (n + 1) (ex_regions ex) = rps" using d by (metis add.commute drop_drop list.sel(3) plus_1_eq_Suc drop_Suc tl_drop)
  have r: "rp \<in> set (ex_regions ex)" using n nth_mem by blast
  note rb = region_bounds [OF ok r]
  note nx = unat_next_aligned [OF rq more, folded nxt_def]
  have "rq_substart rq \<le> er_start rp" using g d by (simp add: at_gap_def)
  then have "rq_substart rq \<le> nxt" using rb(1) nx(1) by (simp add: word_le_nat_alt)
  then show "at_gap ex rq nxt (n + 1)" using g d d1 t nx(1,2) by (auto simp: at_gap_def word_less_nat_alt)
  show "\<not> nxt < er_end rp" using nx(1) by (simp add: word_less_nat_alt)
  assume nb: "none_below ex rq b s" and c: "\<not> LE_OV s (rq_size rq) (er_start rp) \<or> rq_boundary rq \<noteq> 0 \<or> fst b \<noteq> 0"
  have sz: "1 \<le> rq_size rq" using rq by (simp add: rq_ok_def rq_fits_def)
  have "unat nxt \<le> x" if "feasible ex rq x" "unat s \<le> x" "\<not> LE_OV s (rq_size rq) (er_start rp)" for x
    using feasible_past [OF ok r that(1) sz] that nx(3) [of x] by (auto simp: LE_OV_iff feasible_def)
  then show "none_below ex rq b nxt" using nb c by (auto simp: none_below_def)
qed

lemma gap_room:
  assumes ok: "ext_ok ex" and rq: "rq_ok ex rq" and g: "at_gap ex rq s n" and le: "s \<le> s'"
    and fit: "unat s' + unat (rq_size rq) \<le> unat (rq_subend rq) + 1" and l: "line_ok ex rq (unat s')"
    and eq: "rq_boundary rq = 0 \<Longrightarrow> s' = s"
    and hd: "drop n (ex_regions ex) = [] \<or> unat s' + unat (rq_size rq) \<le> unat (er_start (hd (drop n (ex_regions ex))))"
  shows "room ex rq s' n"
proof -
  have sz: "1 \<le> rq_size rq" using rq by (simp add: rq_ok_def rq_fits_def)
  note e = unat_block_end [OF sz fit] and u = unat_size [OF sz]
  have "placed (take n (ex_regions ex)) (drop n (ex_regions ex)) s' (s' + (rq_size rq - 1))"
    using g le hd e u unfolding placed_def by (auto simp: at_gap_def word_less_nat_alt word_le_nat_alt)
  then show ?thesis using g le fit l eq by (auto simp: room_def at_gap_def)
qed

lemma better_ok:
  assumes "best_ok ex rq b" "room ex rq s n" "ovh \<noteq> 0" "\<not> has_flag (rq_flags rq) EX_FAST"
  shows "best_ok ex rq (better b ovh s n)" "fst (better b ovh s n) \<noteq> 0"
  using assms by (auto simp: best_ok_def better_def)

lemma gap_scan_post:
  assumes ok: "ext_ok ex" and rq: "rq_ok ex rq"
  shows "at_gap ex rq s n \<Longrightarrow> best_ok ex rq b \<Longrightarrow> none_below ex rq b s \<Longrightarrow> drop n (ex_regions ex) = rps \<Longrightarrow>
    scan_post ex rq (gap_scan ex rq s n b rps)"
proof (induction rps arbitrary: s n b)
  case Nil
  then show ?case by simp
next
  case (Cons rp rps)
  show ?case
  proof (cases "er_start rp > rq_subend rq")
    case True
    then show ?thesis using Cons.prems by simp
  next
    case False
    let ?fits = "\<lambda>s. LE_OV s (rq_size rq) (er_start rp)"
    define nxt where "nxt = extent_align (er_end rp + 1) (rq_alignment rq) (rq_skew rq)"
    define fit where "fit = (if ?fits s then boundary_check ex rq ?fits s else Misfit)"
    note nx = gap_next [OF ok rq Cons.prems(1,4), folded nxt_def]
    have sz: "1 \<le> rq_size rq" using rq by (simp add: rq_ok_def rq_fits_def)
    have rp: "rp \<in> set (ex_regions ex)" using Cons.prems(4) by (metis in_set_dropD list.set_intros(1))
    have sub: "unat (er_start rp) \<le> unat (rq_subend rq)" "unat (rq_subend rq) \<le> unat (ex_end ex)"
      using False rq by (simp_all add: rq_ok_def rq_fits_def word_le_nat_alt not_less)
    have st: "ex_start ex \<le> s" using Cons.prems(1) rq by (auto simp: at_gap_def rq_ok_def rq_fits_def)
    have go: "scan_post ex rq (if nxt < er_end rp then Failed b' else gap_scan ex rq nxt (n + 1) b' rps)"
      if b': "best_ok ex rq b'" "none_below ex rq b' s" and c: "\<not> ?fits s \<or> rq_boundary rq \<noteq> 0 \<or> fst b' \<noteq> 0" for b'
    proof (cases "more_grid rq (er_end rp)")
      case True
      show ?thesis using Cons.IH [OF nx(1) [OF True] b'(1) nx(4) [OF True b'(2) c] nx(3) [OF True]] nx(2) [OF True] by simp
    next
      case wrap: False
      have "\<not> feasible ex rq x" if "\<not> ?fits s" "rq_boundary rq = 0" "fst b' = 0" for x
      proof
        assume x: "feasible ex rq x"
        then have "unat s \<le> x" using b'(2) that by (simp add: none_below_def)
        then have "\<not> x + unat (rq_size rq) \<le> unat (er_start rp)" using that(1) by (simp add: LE_OV_iff)
        from feasible_past [OF ok rp x sz this] have "unat (er_end rp) < x" .
        moreover have "x < 2 ^ 64" using x unat_lt_2p64 [of "rq_subend rq"] unat_size [OF sz] unfolding feasible_def by linarith
        ultimately show False using wrap x by (auto simp: more_grid_def feasible_def)
      qed
      then have "no_fit ex rq b'" using c by (auto simp: no_fit_def)
      then show ?thesis using next_wraps [OF rq wrap] b'(1) by (simp add: nxt_def)
    qed
    show ?thesis
    proof (cases fit)
      case Nofit
      then have "rq_boundary rq \<noteq> 0" using boundary_check_none [of rq ex ?fits s] by (auto simp: fit_def split: if_splits)
      then show ?thesis using Nofit False Cons.prems(2) by (simp add: Let_def no_fit_def flip: fit_def)
    next
      case Misfit
      then have "\<not> ?fits s \<or> rq_boundary rq \<noteq> 0" using boundary_check_none [of rq ex ?fits s] by (auto simp: fit_def split: if_splits)
      then have "\<not> ?fits s \<or> rq_boundary rq \<noteq> 0 \<or> fst b \<noteq> 0" by blast
      from go [OF Cons.prems(2,3) this] show ?thesis using Misfit False by (simp add: Let_def flip: fit_def nxt_def)
    next
      case (Fit s')
      then have f: "?fits s" "boundary_check ex rq ?fits s = Fit s'" by (auto simp: fit_def split: if_splits)
      have "unat s + unat (rq_size rq) \<le> unat (rq_subend rq) + 1" using f(1) sub by (simp add: LE_OV_iff)
      from boundary_check_Fit [OF rq st this, of ?fits, OF f] have s': "s \<le> s'" "?fits s'" "line_ok ex rq (unat s')" by auto
      have eq: "rq_boundary rq = 0 \<Longrightarrow> s' = s" using f(2) by (simp add: boundary_check_none)
      have rm: "room ex rq s' n" using s' sub Cons.prems(4)
        by (intro gap_room [OF ok rq Cons.prems(1) s'(1) _ s'(3) eq]) (auto simp: LE_OV_iff)
      define ovh where "ovh = er_start rp - s' - rq_size rq"
      show ?thesis
      proof (cases "has_flag (rq_flags rq) EX_FAST \<or> ovh = 0")
        case True
        have "first_fit ex rq s'" using Cons.prems(2,3) eq by (auto simp: first_fit_def best_ok_def none_below_def)
        then show ?thesis using True False Fit rm by (simp add: Let_def flip: fit_def ovh_def)
      next
        case slow: False
        note bt = better_ok [OF Cons.prems(2) rm, of ovh]
        have "none_below ex rq (better b ovh s' n) s" using bt(2) slow by (simp add: none_below_def)
        from go [OF _ this] show ?thesis using bt slow False Fit by (simp add: Let_def flip: fit_def ovh_def nxt_def)
      qed
    qed
  qed
qed

lemma last_gap_post:
  assumes ok: "ext_ok ex" and rq: "rq_ok ex rq" and p: "scan_post ex rq (Final s n b exend)"
  shows "scan_post ex rq (last_gap ex rq s n b exend) \<and> (\<forall>s' n' b' x. last_gap ex rq s n b exend \<noteq> Final s' n' b' x)"
proof -
  let ?fits = "\<lambda>s. LE_OV s (rq_size rq - 1) (rq_subend rq)"
  have g: "at_gap ex rq s n" and b: "best_ok ex rq b" and nb: "none_below ex rq b s"
    and hd: "drop n (ex_regions ex) = [] \<or> rq_subend rq < er_start (hd (drop n (ex_regions ex)))" using p by simp_all
  have sz: "1 \<le> rq_size rq" using rq by (simp add: rq_ok_def rq_fits_def)
  have fi: "?fits x \<longleftrightarrow> unat x + unat (rq_size rq) \<le> unat (rq_subend rq) + 1" for x
    using unat_size [OF sz] by (auto simp: LE_OV_iff)
  have st: "ex_start ex \<le> s" using g rq by (auto simp: at_gap_def rq_ok_def rq_fits_def)
  show ?thesis
  proof (cases "?fits s")
    case False
    then have "no_fit ex rq b" using nb by (auto simp: no_fit_def none_below_def fi feasible_def)
    then show ?thesis using False b by (simp add: last_gap_def)
  next
    case True
    show ?thesis
    proof (cases "boundary_check ex rq ?fits s")
      case (Fit s')
      have "unat s + unat (rq_size rq) \<le> unat (rq_subend rq) + 1" using True by (simp add: fi)
      from boundary_check_Fit [OF rq st this, of ?fits, OF True Fit] have s': "s \<le> s'" "?fits s'" "line_ok ex rq (unat s')" by auto
      have eq: "rq_boundary rq = 0 \<Longrightarrow> s' = s" using Fit by (simp add: boundary_check_none)
      have rm: "room ex rq s' n" using s'(2) hd
        by (intro gap_room [OF ok rq g s'(1) _ s'(3) eq]) (auto simp: fi word_less_nat_alt)
      have "first_fit ex rq s'" using b nb eq by (auto simp: first_fit_def best_ok_def none_below_def)
      then show ?thesis using True Fit rm better_ok [OF b rm] by (simp add: last_gap_def Let_def no_fit_def)
    qed (use True b boundary_check_none [of rq ex ?fits s] in \<open>auto simp: last_gap_def no_fit_def\<close>)
  qed
qed

subsection \<open>The whole search\<close>

lemma gap_start:
  assumes ok: "ext_ok ex" and rq: "rq_ok ex rq"
  defines "s0 \<equiv> extent_align (rq_substart rq) (rq_alignment rq) (rq_skew rq)"
  defines "pre \<equiv> takeWhile (\<lambda>rp. er_start rp < s0) (ex_regions ex)"
  defines "s \<equiv> (if pre \<noteq> [] \<and> er_end (last pre) \<ge> s0 then extent_align (er_end (last pre) + 1) (rq_alignment rq) (rq_skew rq) else s0)"
  shows "rq_substart rq \<le> s0" "at_gap ex rq s (length pre)" "none_below ex rq (0, 0, 0) s"
proof -
  have c: "is_pow2 (rq_alignment rq)" "unat (rq_substart rq) + unat (rq_alignment rq) \<le> 2 ^ 64"
    "unat (rq_skew rq) < unat (rq_substart rq) + unat (rq_alignment rq)" "1 \<le> rq_size rq"
    using rq by (auto simp: rq_ok_def rq_fits_def word_le_nat_alt word_less_nat_alt)
  note al = extent_align_first [OF c(1-3), folded s0_def]
  show sub: "rq_substart rq \<le> s0" using al(1) by (simp add: word_le_nat_alt)
  have pre: "take (length pre) (ex_regions ex) = pre" unfolding pre_def by (rule takeWhile_eq_take [symmetric])
  have post: "drop (length pre) (ex_regions ex) = dropWhile (\<lambda>rp. er_start rp < s0) (ex_regions ex)"
    unfolding pre_def by (rule dropWhile_eq_drop [symmetric])
  obtain lo where sp: "spaced (gap ex) lo (unat (ex_end ex)) (drop (length pre) (ex_regions ex))"
    using ok spaced_append [of _ _ _ "take (length pre) (ex_regions ex)" "drop (length pre) (ex_regions ex)"]
    by (auto simp: ext_ok_def)
  have up: "rq_substart rq \<le> er_start r" if r: "r \<in> set (drop (length pre) (ex_regions ex))" for r
  proof -
    obtain h t where ht: "drop (length pre) (ex_regions ex) = h # t" using r by (cases "drop (length pre) (ex_regions ex)") auto
    then have h: "\<not> er_start h < s0" using hd_dropWhile [of "\<lambda>rp. er_start rp < s0" "ex_regions ex"] post by auto
    have "unat (er_start h) \<le> unat (er_start r)"
    proof (cases "r = h")
      case False
      then have "r \<in> set t" using r ht by simp
      then show ?thesis using sp ht spaced_mem [of "gap ex" "unat (er_end h) + 1 + gap ex" "unat (ex_end ex)" t r]
        by (simp add: word_le_nat_alt)
    qed simp
    then show ?thesis using h sub by (auto simp: word_le_nat_alt word_less_nat_alt)
  qed
  show "at_gap ex rq s (length pre)" "none_below ex rq (0, 0, 0) s"
  proof (atomize (full), cases "pre \<noteq> [] \<and> er_end (last pre) \<ge> s0")
    case True
    then have l: "last pre \<in> set (ex_regions ex)" "er_start (last pre) < s0"
      using set_takeWhileD [of "last pre" "\<lambda>rp. er_start rp < s0" "ex_regions ex"] by (auto simp: pre_def)
    have "unat (er_end (last pre)) + unat (rq_alignment rq) < 2 ^ 64"
      using rq l True by (auto simp: rq_ok_def start_clear_def Let_def simp flip: s0_def)
    then have e: "more_grid rq (er_end (last pre))" by (rule more_gridI [OF rq])
    have s: "s = extent_align (er_end (last pre) + 1) (rq_alignment rq) (rq_skew rq)" using True by (simp add: s_def)
    note nx = unat_next_aligned [OF rq e, folded s]
    have "s0 \<le> s" using True nx(1) by (simp add: word_le_nat_alt)
    then have "at_gap ex rq s (length pre)" using sub nx(1,2) up pre by (auto simp: at_gap_def word_less_nat_alt)
    moreover have "unat s \<le> x" if "feasible ex rq x" for x
    proof -
      have "unat s0 \<le> x" using that al(4) [of x] by (simp add: feasible_def)
      then show ?thesis using feasible_past [OF ok l(1) that c(4)] nx(3) [of x] that l(2)
        by (auto simp: feasible_def word_less_nat_alt)
    qed
    ultimately show "at_gap ex rq s (length pre) \<and> none_below ex rq (0, 0, 0) s" by (simp add: none_below_def)
  next
    case False
    then have s: "s = s0" "pre = [] \<or> er_end (last pre) < s0" by (auto simp: s_def)
    have "unat s0 \<le> x" if "feasible ex rq x" for x using that al(4) [of x] by (simp add: feasible_def)
    then show "at_gap ex rq s (length pre) \<and> none_below ex rq (0, 0, 0) s"
      using s sub al(3) up pre by (auto simp: at_gap_def none_below_def)
  qed
qed

lemma gap_search_post:
  assumes ok: "ext_ok ex" and rq: "rq_ok ex rq"
  shows "case gap_search ex rq (extent_align (rq_substart rq) (rq_alignment rq) (rq_skew rq)) of
      Some (s, n) \<Rightarrow> room ex rq s n \<and> first_fit ex rq s
    | None \<Rightarrow> rq_boundary rq = 0 \<longrightarrow> (\<forall>x. \<not> feasible ex rq x)"
proof -
  define s0 where "s0 = extent_align (rq_substart rq) (rq_alignment rq) (rq_skew rq)"
  define pre where "pre = takeWhile (\<lambda>rp. er_start rp < s0) (ex_regions ex)"
  define s where "s = (if pre \<noteq> [] \<and> er_end (last pre) \<ge> s0 then extent_align (er_end (last pre) + 1) (rq_alignment rq) (rq_skew rq) else s0)"
  define g where "g = gap_scan ex rq s (length pre) (0, 0, 0) (drop (length pre) (ex_regions ex))"
  define r where "r = (case g of Final s n b exend \<Rightarrow> last_gap ex rq s n b exend | r \<Rightarrow> r)"
  note st = gap_start [OF ok rq, folded s0_def, folded pre_def, folded s_def]
  have "scan_post ex rq g" unfolding g_def by (rule gap_scan_post [OF ok rq st(2) _ st(3) refl]) (simp add: best_ok_def)
  then have "scan_post ex rq r \<and> (\<forall>s n b x. r \<noteq> Final s n b x)" using last_gap_post [OF ok rq] by (cases g) (auto simp: r_def)
  moreover have "gap_search ex rq s0 = (case r of Found s n \<Rightarrow> Some (s, n)
      | Failed (ovh, s, n) \<Rightarrow> if \<not> has_flag (rq_flags rq) EX_FAST \<and> ovh \<noteq> 0 then Some (s, n) else None | Final _ _ _ _ \<Rightarrow> None)"
    by (simp add: gap_search_def Let_def flip: pre_def s_def g_def r_def)
  ultimately show ?thesis unfolding s0_def [symmetric]
    by (cases r) (auto simp: best_ok_def first_fit_def no_fit_def split: prod.splits if_splits)
qed

text \<open>What \<^verbatim>\<open>extent_do_alloc\<close> does when it does not wait for space.\<close>

lemma room_becomes:
  assumes ok: "ext_ok ex" and rq: "rq_ok ex rq" and r: "room ex rq s n"
  shows "becomes ex (extent_insert_and_optimize ex s (rq_size rq) n rp) (alloc_set ex \<union> {unat s..<unat s + unat (rq_size rq)})"
    "{unat s..<unat s + unat (rq_size rq)} \<inter> alloc_set ex = {}"
proof -
  have sz: "1 \<le> rq_size rq" using rq by (simp add: rq_ok_def rq_fits_def)
  let ?e = "s + (rq_size rq - 1)"
  have e: "unat ?e = unat s + unat (rq_size rq) - 1" 
    using unat_block_end [OF sz, of s "rq_subend rq"] r by (simp add: room_def)
  have u: "1 \<le> unat (rq_size rq)" using unat_size [OF sz] by simp
  have set: "{unat s..<unat s + unat (rq_size rq)} = {unat s..unat ?e}" using e u by auto
  have b: "block ex s ?e" using r rq e u by (auto simp: block_def room_def rq_ok_def rq_fits_def word_le_nat_alt)
  show "becomes ex (extent_insert_and_optimize ex s (rq_size rq) n rp) (alloc_set ex \<union> {unat s..<unat s + unat (rq_size rq)})"
    using insert_becomes [OF ok b, of n rp] r by (simp add: set room_def)
  show "{unat s..<unat s + unat (rq_size rq)} \<inter> alloc_set ex = {}"
    using placed_disjoint [of "gap ex" _ _ "take n (ex_regions ex)" "drop n (ex_regions ex)" s ?e] ok r
    by (auto simp: ext_ok_def room_def set alloc_set_def)
qed

end
