(* ===== verification/Extent_Laws.thy ===== *)
theory Extent_Laws
  imports Extent_Search
begin

text \<open>
  The contract of extent maps as an interface, its interpretation on the model, and the
  properties of the component.
\<close>

subsection \<open>Waiting\<close>

text \<open>A map that is still a good one, with the bounds and the coalescing it had.\<close>

definition kin :: "extent \<Rightarrow> extent \<Rightarrow> bool" where
  "kin ex ex' \<longleftrightarrow> ext_ok ex' \<and> ex_start ex' = ex_start ex \<and> ex_end ex' = ex_end ex \<and> gap ex' = gap ex"

lemma becomes_kin: "becomes ex ex' A \<Longrightarrow> kin ex ex'"
  by (simp add: becomes_def kin_def)

lemma kin_refl: "ext_ok ex \<Longrightarrow> kin ex ex"
  by (simp add: kin_def)

lemma kin_trans: "kin ex ex' \<Longrightarrow> kin ex' ex'' \<Longrightarrow> kin ex ex''"
  by (simp add: kin_def)

lemma kin_flags: "ext_ok ex \<Longrightarrow> f AND EXF_NOCOALESCE = 0 \<Longrightarrow> kin ex (ex\<lparr>ex_flags := set_flag (ex_flags ex) f\<rparr>)"
  by (simp add: kin_def ext_ok_def gap_def has_flag_set)

text \<open>Other threads use the map by the rules.\<close>

definition others_ok :: "wakes \<Rightarrow> bool" where
  "others_ok sl \<longleftrightarrow> (\<forall>(_, others)\<in>set sl. \<forall>ex. ext_ok ex \<longrightarrow> kin ex (others ex))"

definition outcome_ok :: "extent \<Rightarrow> (wakes \<times> extent \<times> 'a) exres \<Rightarrow> bool" where
  "outcome_ok ex r \<longleftrightarrow>
     (case r of Panic _ \<Rightarrow> True | Asleep ex' \<Rightarrow> kin ex ex' | Done (sl, ex', _) \<Rightarrow> kin ex ex' \<and> others_ok sl)"

lemma outcome_ok_simps [simp]:
  "outcome_ok ex (Panic m)" "outcome_ok ex (Asleep ex') = kin ex ex'"
  "outcome_ok ex (Done (sl, ex', x)) \<longleftrightarrow> kin ex ex' \<and> others_ok sl"
  by (simp_all add: outcome_ok_def)

lemma outcome_ok_trans: "kin ex ex' \<Longrightarrow> outcome_ok ex' r \<Longrightarrow> outcome_ok ex r"
  by (auto simp: outcome_ok_def intro: kin_trans split: exres.splits)

lemma others_ok_Cons: "others_ok ((e, others) # sl) \<longleftrightarrow> (\<forall>ex. ext_ok ex \<longrightarrow> kin ex (others ex)) \<and> others_ok sl"
  by (auto simp: others_ok_def)

text \<open>A sleep, and what is done after it.\<close>

lemma sleep_ok:
  assumes ok: "ext_ok ex" and sl: "others_ok sl" and f: "f AND EXF_NOCOALESCE = 0"
    and err: "\<And>ex' e sl. kin ex ex' \<Longrightarrow> others_ok sl \<Longrightarrow> outcome_ok ex' (fail sl ex' e)"
    and go: "\<And>ex' e others sl'. sl = (e, others) # sl' \<Longrightarrow> kin ex ex' \<Longrightarrow> others_ok sl' \<Longrightarrow> outcome_ok ex' (again sl' ex')"
  shows "outcome_ok ex (let ex = ex\<lparr>ex_flags := set_flag (ex_flags ex) f\<rparr>
    in case sl of [] \<Rightarrow> Asleep ex
       | (e, others) # sl \<Rightarrow> if e \<noteq> 0 then fail sl (others ex) e else again sl (others ex))"
proof -
  note k = kin_flags [OF ok f]
  show ?thesis
  proof (cases sl)
    case (Cons h sl')
    obtain e others where h: "h = (e, others)" by (cases h)
    have "kin (ex\<lparr>ex_flags := set_flag (ex_flags ex) f\<rparr>) (others (ex\<lparr>ex_flags := set_flag (ex_flags ex) f\<rparr>))" "others_ok sl'"
      using sl k by (auto simp: Cons h others_ok_Cons kin_def)
    then have n: "kin ex (others (ex\<lparr>ex_flags := set_flag (ex_flags ex) f\<rparr>))" "others_ok sl'" using k kin_trans by blast+
    show ?thesis
      using outcome_ok_trans [OF n(1) err [OF n]] outcome_ok_trans [OF n(1) go [OF _ n]] by (simp add: Cons h Let_def)
  qed (use k in \<open>simp add: Let_def\<close>)
qed

lemma kin_same_map: "ext_ok ex \<Longrightarrow> same_map ex ex' \<Longrightarrow> kin ex ex'"
  using same_mapD [of ex ex'] by (simp add: kin_def same_map_def)

lemma pool_get_ok: "ext_ok ex \<Longrightarrow> others_ok sl \<Longrightarrow> outcome_ok ex (Done (sl, er_pool_get ex flags))"
  by (auto simp: er_pool_get_def same_map_def intro!: kin_same_map)

lemma er_fixed_get_keeps: "ext_ok ex \<Longrightarrow> others_ok sl \<Longrightarrow> outcome_ok ex (er_fixed_get sl ex flags)"
proof (induction "length sl" arbitrary: sl ex rule: less_induct)
  case less
  have go: "outcome_ok ex' (er_fixed_get sl' ex' flags)" if "sl = (e, others) # sl'" "kin ex ex'" "others_ok sl'" for e others sl' ex'
    using less.hyps [of sl' ex'] that by (simp add: kin_def)
  have "outcome_ok ex (let ex = ex\<lparr>ex_flags := set_flag (ex_flags ex) EXF_FLWANTED\<rparr>
    in case sl of [] \<Rightarrow> Asleep ex
       | (e, others) # sl \<Rightarrow> if e \<noteq> 0 then Done (sl, others ex, None) else er_fixed_get sl (others ex) flags)"
    by (rule sleep_ok [OF less.prems, where fail = "\<lambda>sl ex e. Done (sl, ex, None)"]) (simp_all add: go kin_refl kin_def)
  moreover have "kin ex (ex\<lparr>fex_freelist := fl\<rparr>)" for fl by (rule kin_same_map [OF less.prems(1)]) (simp add: same_map_def)
  ultimately show ?case using less.prems pool_get_ok [OF less.prems, of flags] kin_refl
    by (subst er_fixed_get.simps) (simp split: list.split)
qed

lemma descr_keeps: "ext_ok ex \<Longrightarrow> others_ok sl \<Longrightarrow> outcome_ok ex (extent_alloc_region_descriptor sl ex flags)"
  by (simp add: extent_alloc_region_descriptor_def er_fixed_get_keeps pool_get_ok)

text \<open>Getting a descriptor and going on with it.\<close>

lemma with_descr_keeps:
  assumes ok: "ext_ok ex" "others_ok sl"
    and go: "\<And>sl ex' rp. kin ex ex' \<Longrightarrow> others_ok sl \<Longrightarrow> outcome_ok ex' (f sl ex' rp)"
  shows "outcome_ok ex (case extent_alloc_region_descriptor sl ex flags of
      Panic m \<Rightarrow> Panic m | Asleep ex \<Rightarrow> Asleep ex | Done (sl, ex, None) \<Rightarrow> Done (sl, ex, none)
    | Done (sl, ex, Some rp) \<Rightarrow> f sl ex rp)"
proof (cases "extent_alloc_region_descriptor sl ex flags")
  case (Done t)
  obtain sl' ex' r where t: "t = (sl', ex', r)" by (cases t)
  have k: "kin ex ex'" "others_ok sl'" using descr_keeps [OF ok, of flags] Done t by simp_all
  then show ?thesis using Done t outcome_ok_trans [OF k(1) go [OF k]] by (simp split: option.split)
qed (use descr_keeps [OF ok, of flags] in simp_all)

lemma alloc_region_loop_keeps:
  "ext_ok ex \<Longrightarrow> others_ok sl \<Longrightarrow> block ex s (s + (sz - 1)) \<Longrightarrow> \<not> has_flag flags EX_CONFLICTOK \<Longrightarrow>
   outcome_ok ex (alloc_region_loop sl ex s sz (s + (sz - 1)) flags myrp)"
proof (induction "length sl" arbitrary: sl ex rule: less_induct)
  case less
  let ?e = "s + (sz - 1)"
  have go: "outcome_ok ex' (alloc_region_loop sl' ex' s sz ?e flags myrp)"
    if "sl = (e, others) # sl'" "kin ex ex'" "others_ok sl'" for e others sl' ex'
    using less.hyps [of sl' ex'] less.prems(3,4) that by (simp add: kin_def block_def)
  have w: "outcome_ok ex (let ex = ex\<lparr>ex_flags := set_flag (ex_flags ex) EXF_WANTED\<rparr>
    in case sl of [] \<Rightarrow> Asleep ex
       | (e, others) # sl \<Rightarrow>
           if e \<noteq> 0 then Done (sl, others ex, e) else alloc_region_loop sl (others ex) s sz ?e flags myrp)"
    by (rule sleep_ok [OF less.prems(1,2), where fail = "\<lambda>sl ex e. Done (sl, ex, e)"]) (simp_all add: go kin_refl kin_def)
  obtain n c where sc: "region_scan s ?e (ex_regions ex) 0 = (n, c)" by fastforce
  have se: "s \<le> ?e" and sp: "spaced (gap ex) (unat (ex_start ex)) (unat (ex_end ex)) (ex_regions ex)"
    using less.prems by (simp_all add: block_def ext_ok_def)
  show ?case
  proof (cases c)
    case None
    then show ?thesis
      using insert_becomes [OF less.prems(1,3), of n myrp] region_scan_None [OF sp se sc [unfolded None]] sc less.prems(2)
      by (subst alloc_region_loop.simps) (auto dest: becomes_kin)
  next
    case (Some rp)
    have "kin ex (extent_free_region_descriptor ex myrp)" using less.prems(1) by (simp add: kin_def)
    then show ?thesis using w sc Some less.prems by (subst alloc_region_loop.simps) simp
  qed
qed

text \<open>
  A request that meets no wrap-around whatever the regions are: the map ends an alignment below the
  top.
\<close>

definition rq_far :: "extent \<Rightarrow> request \<Rightarrow> bool" where
  "rq_far ex rq \<longleftrightarrow> rq_fits ex rq \<and> unat (ex_end ex) + unat (rq_alignment rq) < 2 ^ 64"

lemma rq_far_ok: "ext_ok ex \<Longrightarrow> rq_far ex rq \<Longrightarrow> rq_ok ex rq"
  using region_bounds(3) [of ex] by (fastforce simp: rq_far_def rq_ok_def start_clear_def Let_def word_le_nat_alt)

lemma kin_rq: "kin ex ex' \<Longrightarrow> rq_far ex' rq = rq_far ex rq"
  by (simp add: kin_def rq_far_def rq_fits_def)

lemma do_alloc_loop_keeps:
  "ext_ok ex \<Longrightarrow> others_ok sl \<Longrightarrow> rq_far ex rq \<Longrightarrow> outcome_ok ex (do_alloc_loop sl ex rq myrp)"
proof (induction "length sl" arbitrary: sl ex rule: less_induct)
  case less
  have go: "outcome_ok ex' (do_alloc_loop sl' ex' rq myrp)"
    if "sl = (e, others) # sl'" "kin ex ex'" "others_ok sl'" for e others sl' ex'
    using less.hyps [of sl' ex'] less.prems(3) that kin_rq [OF that(2), of rq] by (simp add: kin_def)
  have w: "outcome_ok ex (let ex = ex\<lparr>ex_flags := set_flag (ex_flags ex) EXF_WANTED\<rparr>
    in case sl of [] \<Rightarrow> Asleep ex
       | (e, others) # sl \<Rightarrow>
           if e \<noteq> 0 then Done (sl, others ex, e, None) else do_alloc_loop sl (others ex) rq myrp)"
    by (rule sleep_ok [OF less.prems(1,2), where fail = "\<lambda>sl ex e. Done (sl, ex, e, None)"]) (simp_all add: go kin_refl kin_def)
  have "kin ex (extent_free_region_descriptor ex myrp)" using less.prems(1) by (simp add: kin_def)
  moreover have "kin ex (extent_insert_and_optimize ex s (rq_size rq) n myrp)"
    if "gap_search ex rq (extent_align (rq_substart rq) (rq_alignment rq) (rq_skew rq)) = Some (s, n)" for s n
    using gap_search_post [OF less.prems(1) rq_far_ok [OF less.prems(1,3)]] that
      room_becomes(1) [OF less.prems(1) rq_far_ok [OF less.prems(1,3)], of s n myrp] by (auto dest: becomes_kin)
  ultimately show ?case using w less.prems(2) by (subst do_alloc_loop.simps) (simp add: Let_def split: option.split)
qed

lemma rq_fits_guards:
  assumes "rq_fits ex rq"
  shows "extent_do_alloc sl ex rq rp = do_alloc_loop sl ex rq rp"
proof -
  have "rq_alignment rq \<noteq> 0" using assms by (auto simp: rq_fits_def word_less_nat_alt)
  then show ?thesis using assms by (auto simp: extent_do_alloc_def rq_fits_def)
qed

lemma free_keeps:
  assumes ok: "ext_ok ex" "others_ok sl"
  shows "outcome_ok ex (extent_free sl ex s sz flags)"
proof -
  let ?e = "s + (sz - 1)"
  have s: "outcome_ok ex' (find_and_free sl' ex' s ?e nrp)"
    if "s \<le> ?e" "ext_ok ex'" "others_ok sl'" "has_flag (ex_flags ex') EXF_NOCOALESCE \<or> nrp \<noteq> None" for sl' ex' nrp
    using free_search [OF that(2,1,4)] that(3) becomes_kin by (auto simp: find_and_free_def split: option.splits)
  have "outcome_ok ex (case extent_alloc_region_descriptor sl ex flags of
      Panic m \<Rightarrow> Panic m | Asleep ex \<Rightarrow> Asleep ex | Done (sl, ex, None) \<Rightarrow> Done (sl, ex, ENOMEM)
    | Done (sl, ex, Some rp) \<Rightarrow> find_and_free sl ex s ?e (Some rp))" if "s \<le> ?e"
    by (rule with_descr_keeps [OF ok]) (use s that in \<open>auto simp: kin_def\<close>)
  then show ?thesis using s [of ex sl None] ok by (simp add: extent_free_def Let_def not_less)
qed

subsection \<open>The interface\<close>

text \<open>
  A map that hands out blocks of numbers: blocks held are disjoint, and a held block can be
  given back.
\<close>

locale block_map =
  fixes good :: "'s \<Rightarrow> bool"
    and held :: "'s \<Rightarrow> nat set"
    and claim :: "'s \<Rightarrow> u64 \<Rightarrow> u64 \<Rightarrow> 's option"
    and release :: "'s \<Rightarrow> u64 \<Rightarrow> u64 \<Rightarrow> 's option"
  assumes claim_law: "good m \<Longrightarrow> s \<le> e \<Longrightarrow> claim m s e = Some m' \<Longrightarrow>
      good m' \<and> held m' = held m \<union> {unat s..unat e} \<and> held m \<inter> {unat s..unat e} = {}"
    and release_law: "good m \<Longrightarrow> s \<le> e \<Longrightarrow> release m s e = Some m' \<Longrightarrow>
      good m' \<and> held m' = held m - {unat s..unat e} \<and> {unat s..unat e} \<subseteq> held m"
    and release_ok: "good m \<Longrightarrow> s \<le> e \<Longrightarrow> {unat s..unat e} \<subseteq> held m \<Longrightarrow> release m s e \<noteq> None"
begin

lemma claims_disjoint:
  assumes "good m" "s \<le> e" "s' \<le> e'" "claim m s e = Some m'" "claim m' s' e' = Some m''"
  shows "{unat s..unat e} \<inter> {unat s'..unat e'} = {}"
  using claim_law [OF assms(1,2,4)] claim_law [OF _ assms(3,5)] by blast

lemma claim_release:
  assumes "good m" "s \<le> e" "claim m s e = Some m'"
  shows "\<exists>m''. release m' s e = Some m'' \<and> good m'' \<and> held m'' = held m"
proof -
  note c = claim_law [OF assms]
  then obtain m'' where "release m' s e = Some m''" using release_ok [of m' s e] assms(2) by blast
  moreover have "held m \<union> {unat s..unat e} - {unat s..unat e} = held m" using c by blast
  ultimately show ?thesis using release_law [of m' s e m''] c assms(2) by simp
qed

lemma claim_again:
  assumes "good m" "s \<le> e" "claim m s e = Some m'"
  shows "claim m' s e = None"
proof (rule ccontr)
  assume "claim m' s e \<noteq> None"
  then obtain m'' where "claim m' s e = Some m''" by blast
  from claims_disjoint [OF assms(1,2,2,3) this] assms(2) show False by (auto simp: word_le_nat_alt)
qed

end

text \<open>Extent maps from \<^verbatim>\<open>malloc\<close>, used by callers that may wait for memory.\<close>

definition dynamic_ok :: "extent \<Rightarrow> bool" where
  "dynamic_ok ex \<longleftrightarrow> ext_ok ex \<and> \<not> fixed ex \<and> gap ex = 1"

definition extent_claim :: "extent \<Rightarrow> u64 \<Rightarrow> u64 \<Rightarrow> extent option" where
  "extent_claim ex s e =
     (case extent_alloc_region [] ex s (e - s + 1) EX_WAITOK of
        Done (_, ex', error) \<Rightarrow> if error = 0 then Some ex' else None | _ \<Rightarrow> None)"

definition extent_release :: "extent \<Rightarrow> u64 \<Rightarrow> u64 \<Rightarrow> extent option" where
  "extent_release ex s e =
     (case extent_free [] ex s (e - s + 1) EX_WAITOK of
        Done (_, ex', error) \<Rightarrow> if error = 0 then Some ex' else None | _ \<Rightarrow> None)"

lemma dynamic_descr: "dynamic_ok ex \<Longrightarrow> no_sleep ex EX_WAITOK \<and> has_descr ex EX_WAITOK \<and> free_descr ex EX_WAITOK"
  by (simp add: dynamic_ok_def no_sleep_def has_descr_def free_descr_def fixed_def) (simp add: has_flag_def)

lemma dynamic_becomes: "dynamic_ok ex \<Longrightarrow> becomes ex ex' A \<Longrightarrow> dynamic_ok ex' \<and> alloc_set ex' = A"
  by (simp add: dynamic_ok_def becomes_def)

lemma claim_block: "extent_claim ex s e = Some ex' \<Longrightarrow> s \<le> e \<Longrightarrow> 1 \<le> e - s + 1 \<and> block ex s e"
  by (auto simp: extent_claim_def extent_alloc_region_def Let_def block_def not_less word_le_nat_alt word_less_nat_alt
    split: if_splits)

lemma release_block: "extent_release ex s e = Some ex' \<Longrightarrow> s \<le> e \<Longrightarrow> block ex s e"
  by (auto simp: extent_release_def extent_free_def Let_def block_def not_less split: if_splits)

lemma dynamic_freeable: "dynamic_ok ex \<Longrightarrow> freeable ex s e = ({unat s..unat e} \<subseteq> alloc_set ex)"
  by (simp add: dynamic_ok_def freeable_def gap_def split: if_splits)

lemma no_conflict_flags: "\<not> has_flag EX_WAITOK EX_WAITSPACE" "\<not> has_flag EX_WAITOK EX_CONFLICTOK"
  by (simp_all add: has_flag_def)

lemma dynamic_release:
  assumes g: "dynamic_ok ex" and b: "block ex s e"
  shows "if {unat s..unat e} \<subseteq> alloc_set ex
    then \<exists>ex'. extent_release ex s e = Some ex' \<and> becomes ex ex' (alloc_set ex - {unat s..unat e})
    else extent_release ex s e = None"
  using extent_free_cases [of ex s "e - s + 1" EX_WAITOK "[]"] g b dynamic_descr [OF g] dynamic_freeable [OF g, of s e]
  by (auto simp: extent_release_def dynamic_ok_def split: if_splits)

interpretation dyn: block_map dynamic_ok alloc_set extent_claim extent_release
proof
  fix ex s e ex' assume g: "dynamic_ok ex" and se: "s \<le> e" and c: "extent_claim ex s e = Some ex'"
  note b = claim_block [OF c se]
  from extent_alloc_region_cases [of ex "e - s + 1" s EX_WAITOK "[]"] g b dynamic_descr [OF g] no_conflict_flags c
  have "becomes ex ex' (alloc_set ex \<union> {unat s..unat e})" "alloc_set ex \<inter> {unat s..unat e} = {}"
    by (auto simp: extent_claim_def dynamic_ok_def split: if_splits)
  then show "dynamic_ok ex' \<and> alloc_set ex' = alloc_set ex \<union> {unat s..unat e} \<and> alloc_set ex \<inter> {unat s..unat e} = {}"
    using dynamic_becomes [OF g] by blast
next
  fix ex s e ex' assume g: "dynamic_ok ex" and se: "s \<le> e" and c: "extent_release ex s e = Some ex'"
  from dynamic_release [OF g release_block [OF c se]] c
  have "becomes ex ex' (alloc_set ex - {unat s..unat e})" "{unat s..unat e} \<subseteq> alloc_set ex" by (auto split: if_splits)
  then show "dynamic_ok ex' \<and> alloc_set ex' = alloc_set ex - {unat s..unat e} \<and> {unat s..unat e} \<subseteq> alloc_set ex"
    using dynamic_becomes [OF g] by blast
next
  fix ex and s e :: u64 assume g: "dynamic_ok ex" and se: "s \<le> e" and h: "{unat s..unat e} \<subseteq> alloc_set ex"
  have "unat s \<in> alloc_set ex" "unat e \<in> alloc_set ex" using h se by (auto simp: word_le_nat_alt)
  then have "block ex s e" using g se spaced_ge spaced_le
    by (fastforce simp: block_def dynamic_ok_def ext_ok_def alloc_set_def word_le_nat_alt)
  from dynamic_release [OF g this] h show "extent_release ex s e \<noteq> None" by (auto split: if_splits)
qed

subsection \<open>Creation\<close>

lemma extent_create_ok:
  assumes "extent_create sl l a mem pool name s e fx ssz flags = Done (sl', l', Some ex)" "\<not> has_flag flags EX_WAITOK"
  shows "ext_ok ex \<and> alloc_set ex = (if has_flag flags EX_FILLED then {unat s..unat e} else {}) \<and> l' = a # l"
proof -
  define f where "f = (if fx then EXF_FIXED else 0) OR (if has_flag flags EX_NOCOALESCE then EXF_NOCOALESCE else 0)"
  define ex0 where "ex0 = \<lparr>ex_addr = a, ex_regions = [], ex_start = s, ex_end = e, ex_flags = f,
    fex_freelist = (if fx then fixed_freelist (ssz - SIZEOF_FIXED) [] else []), ex_pool = pool, ex_wakeups = []\<rparr>"
  have se: "s \<le> e" using assms(1) by (auto simp: extent_create_def split: if_splits)
  have ns: "no_sleep ex0 flags" using assms(2) by (simp add: no_sleep_def)
  obtain ex1 rp where d: "extent_alloc_region_descriptor sl ex0 flags = Done (sl, ex1, rp)" "same_map ex0 ex1"
    using alloc_descr_no_sleep [OF ns] by blast
  have e0: "ex_regions ex0 = []" "ex_start ex0 = s" "ex_end ex0 = e" by (simp_all add: ex0_def)
  show ?thesis
  proof (cases "has_flag flags EX_FILLED")
    case True
    then obtain r where "rp = Some r" "ex = ex1\<lparr>ex_regions := r\<lparr>er_start := s, er_end := e\<rparr> # ex_regions ex1\<rparr>" "l' = a # l"
      using assms(1) d(1)
      by (auto simp: extent_create_def Let_def extent_register_def simp flip: f_def ex0_def split: if_splits option.splits)
    then show ?thesis using True se d(2) e0 by (simp add: ext_ok_def alloc_set_def rset_def same_map_def word_le_nat_alt)
  next
    case False
    then have "ex = ex0" "l' = a # l" using assms(1)
      by (auto simp: extent_create_def Let_def extent_register_def simp flip: f_def ex0_def split: if_splits option.splits)
    then show ?thesis using False se e0 by (simp add: ext_ok_def alloc_set_def)
  qed
qed

subsection \<open>Properties\<close>

lemma alloc_subregion_cases:
  assumes ok: "ext_ok ex" and rq: "rq_ok ex rq" and ns: "no_sleep ex (rq_flags rq)"
    and w: "\<not> has_flag (rq_flags rq) EX_WAITSPACE"
  shows "\<exists>ex1 rp. same_map ex ex1 \<and> (rp \<noteq> None \<longleftrightarrow> has_descr ex (rq_flags rq)) \<and>
    extent_alloc_subregion sl ex rq =
      (case rp of None \<Rightarrow> Done (sl, ex1, ENOMEM, None)
       | Some rp \<Rightarrow>
          (case gap_search ex1 rq (extent_align (rq_substart rq) (rq_alignment rq) (rq_skew rq)) of
             Some (s, n) \<Rightarrow> Done (sl, extent_insert_and_optimize ex1 s (rq_size rq) n rp, 0, Some s)
           | None \<Rightarrow> Done (sl, extent_free_region_descriptor ex1 rp, EAGAIN, None)))"
proof -
  from alloc_descr_no_sleep [OF ns] obtain ex1 rp where d: "extent_alloc_region_descriptor sl ex (rq_flags rq) = Done (sl, ex1, rp)"
    "same_map ex ex1" "rp \<noteq> None \<longleftrightarrow> has_descr ex (rq_flags rq)" by blast
  have rq1: "rq_ok ex1 rq" using rq d(2) by (simp add: rq_ok_def rq_fits_def start_clear_def same_map_def)
  have "rq_substart rq \<le> extent_align (rq_substart rq) (rq_alignment rq) (rq_skew rq)"
    using gap_start(1) [OF _ rq1] ok same_mapD(1) [OF d(2)] by simp
  then have "\<not> extent_align (rq_substart rq) (rq_alignment rq) (rq_skew rq) < ex_start ex1"
    using rq1 by (auto simp: rq_ok_def rq_fits_def word_le_nat_alt word_less_nat_alt)
  moreover have "rq_fits ex1 rq" using rq1 by (simp add: rq_ok_def)
  ultimately show ?thesis using d w rq_fits_guards [of ex1 rq]
    by (intro exI [of _ ex1] exI [of _ rp])
       (simp add: extent_alloc_subregion_def do_alloc_loop.simps [of sl] Let_def split: option.split)
qed

lemma same_map_search:
  "same_map ex ex1 \<Longrightarrow> room ex1 rq s n = room ex rq s n" "same_map ex ex1 \<Longrightarrow> feasible ex1 rq x = feasible ex rq x"
  "same_map ex ex1 \<Longrightarrow> first_fit ex1 rq s = first_fit ex rq s" "same_map ex ex1 \<Longrightarrow> rq_ok ex1 rq = rq_ok ex rq"
proof -
  assume m: "same_map ex ex1"
  have b: "bound_base ex1 rq = bound_base ex rq" using m by (simp add: bound_base_def same_map_def)
  show "room ex1 rq s n = room ex rq s n" using m by (simp add: room_def line_ok_def b) (simp add: same_map_def)
  have f: "feasible ex1 rq x = feasible ex rq x" for x using same_mapD(2) [OF m] by (simp add: feasible_def)
  then show "feasible ex1 rq x = feasible ex rq x" .
  show "first_fit ex1 rq s = first_fit ex rq s" by (simp add: first_fit_def f)
  show "rq_ok ex1 rq = rq_ok ex rq" using m by (simp add: rq_ok_def rq_fits_def start_clear_def same_map_def)
qed

text \<open>A small map, and a request for 4 numbers on a grid of 8.\<close>

definition sample_map :: extent where
  "sample_map = \<lparr>ex_addr = 1, ex_regions = [\<lparr>er_start = 16, er_end = 29, er_flags = 1\<rparr>, \<lparr>er_start = 50, er_end = 59, er_flags = 1\<rparr>],
     ex_start = 10, ex_end = 99, ex_flags = 0, fex_freelist = [], ex_pool = 4, ex_wakeups = []\<rparr>"

definition sample_rq :: request where
  "sample_rq = \<lparr>rq_substart = 10, rq_subend = 99, rq_size = 4, rq_alignment = 8, rq_skew = 0, rq_boundary = 0, rq_flags = EX_FAST\<rparr>"

lemma sample_ok: "ext_ok sample_map" "rq_ok sample_map sample_rq" "no_sleep sample_map 2" "has_descr sample_map 2"
  "rq_ok sample_map (sample_rq\<lparr>rq_boundary := 32\<rparr>)" "dynamic_ok sample_map" "no_sleep sample_map 0" "has_descr sample_map 0"
  "rq_flags sample_rq = 2" "rq_boundary sample_rq = 0" "gap sample_map = 1" "rq_far sample_map sample_rq"
proof -
  have p: "is_pow2 8" "is_pow2 32" unfolding is_pow2_def by (rule exI [of _ 3], simp, rule exI [of _ 5], simp)
  note d = ext_ok_def gap_def sample_map_def sample_rq_def has_flag_def rq_far_def rq_fits_def no_sleep_def has_descr_def dynamic_ok_def fixed_def
  show ok: "ext_ok sample_map" and "no_sleep sample_map 2" "has_descr sample_map 2" "dynamic_ok sample_map" "no_sleep sample_map 0"
    "has_descr sample_map 0" "rq_flags sample_rq = 2" "rq_boundary sample_rq = 0" "gap sample_map = 1"
    by (simp_all add: d)
  show far: "rq_far sample_map sample_rq" using p by (simp_all add: d)
  have "rq_far sample_map (sample_rq\<lparr>rq_boundary := 32\<rparr>)" using p by (simp_all add: d)
  then show "rq_ok sample_map sample_rq" "rq_ok sample_map (sample_rq\<lparr>rq_boundary := 32\<rparr>)" using rq_far_ok [OF ok] far by simp_all
qed




text \<open>
  A map of all numbers, like that of a bus bridge: the window from 16 to 99 is free, what is below
  and above is taken.
\<close>

definition bridge_map :: extent where
  "bridge_map = \<lparr>ex_addr = 1, ex_regions = [\<lparr>er_start = 0, er_end = 15, er_flags = 1\<rparr>, \<lparr>er_start = 100, er_end = - 1, er_flags = 1\<rparr>],
     ex_start = 0, ex_end = - 1, ex_flags = 0, fex_freelist = [], ex_pool = 4, ex_wakeups = []\<rparr>"

lemma bridge_ok: "ext_ok bridge_map" "rq_ok bridge_map sample_rq" "no_sleep bridge_map 2" "has_descr bridge_map 2"
proof -
  have p: "is_pow2 8" unfolding is_pow2_def by (rule exI [of _ 3]) simp
  have a: "extent_align 10 8 0 = 16" by code_simp
  show "ext_ok bridge_map"
    by (simp add: ext_ok_def gap_def bridge_map_def has_flag_def word_le_nat_alt unsigned_minus_1_eq_mask mask_eq_exp_minus_1)
  show "rq_ok bridge_map sample_rq" using p a
    by (simp add: rq_ok_def rq_fits_def start_clear_def bridge_map_def sample_rq_def)
  show "no_sleep bridge_map 2" "has_descr bridge_map 2" by (simp_all add: no_sleep_def has_descr_def bridge_map_def fixed_def has_flag_def)
qed


text \<open>
  C28 (extent_alloc_region_exact): \<^verbatim>\<open>extent_alloc_region\<close> without waiting and without tolerated
  conflicts allocates the given block when all of it is free; it returns \<^verbatim>\<open>EAGAIN\<close> when some of
  it is not, and \<^verbatim>\<open>ENOMEM\<close> when there is no descriptor, and then changes nothing.
\<close>

theorem extent_alloc_region_exact:
  assumes ok: "ext_ok ex" and sz: "1 \<le> sz" and b: "block ex s (s + (sz - 1))" and ns: "no_sleep ex flags"
    and f: "\<not> has_flag flags EX_WAITSPACE" "\<not> has_flag flags EX_CONFLICTOK"
  shows "\<exists>ex' error. extent_alloc_region sl ex s sz flags = Done (sl, ex', error) \<and> ext_ok ex' \<and>
    error = (if \<not> has_descr ex flags then ENOMEM
             else if alloc_set ex \<inter> {unat s..unat (s + (sz - 1))} = {} then 0 else EAGAIN) \<and>
    alloc_set ex' = (if error = 0 then alloc_set ex \<union> {unat s..unat (s + (sz - 1))} else alloc_set ex)"
  using extent_alloc_region_cases [OF assms, of sl] ok same_mapD(1,2)
  by (auto simp: becomes_def split: if_splits)

theorem extent_alloc_region_exact_witness:
  "\<exists>ex' error. extent_alloc_region [] sample_map 30 5 0 = Done ([], ex', error) \<and> ext_ok ex'"
  using extent_alloc_region_exact [OF sample_ok(1) _ _ sample_ok(7), of 5 30 "[]"]
  by (auto simp: block_def sample_map_def has_flag_def)

text \<open>
  C8 (extent_free_exact): \<^verbatim>\<open>extent_free\<close> frees any allocated block of a coalescing map, even
  a part of a region, and exactly the regions of a map without coalescing.  It panics on
  anything else, and returns \<^verbatim>\<open>ENOMEM\<close> without a descriptor for a possible split.
\<close>

theorem extent_free_exact:
  assumes ok: "ext_ok ex" and b: "block ex s (s + (sz - 1))" and ns: "no_sleep ex flags"
  shows "if \<not> free_descr ex flags
    then \<exists>ex'. extent_free sl ex s sz flags = Done (sl, ex', ENOMEM) \<and> alloc_set ex' = alloc_set ex
    else if freeable ex s (s + (sz - 1))
    then \<exists>ex'. extent_free sl ex s sz flags = Done (sl, ex', 0) \<and> ext_ok ex' \<and>
      alloc_set ex' = alloc_set ex - {unat s..unat (s + (sz - 1))}
    else extent_free sl ex s sz flags = Panic ''extent_free: region not found''"
  using extent_free_cases [OF assms, of sl] same_mapD(2) by (auto simp: becomes_def split: if_splits)

theorem extent_free_exact_witness:
  "\<exists>ex'. extent_free [] sample_map 20 5 0 = Done ([], ex', 0) \<and> ext_ok ex' \<and> alloc_set ex' = alloc_set sample_map - {20..24}"
proof -
  have "{20..24} \<subseteq> alloc_set sample_map" by (auto simp: alloc_set_def sample_map_def rset_def)
  then have "freeable sample_map 20 24" by (simp add: dynamic_freeable [OF sample_ok(6)])
  then show ?thesis
    using extent_free_exact [OF sample_ok(1) _ sample_ok(7), of 20 5 "[]"] sample_ok(8)
    by (auto simp: block_def sample_map_def free_descr_def split: if_splits)
qed

lemma alloc_descr_flags:
  "no_sleep ex flags \<Longrightarrow> extent_alloc_region_descriptor sl ex flags = Done (sl', ex', rp) \<Longrightarrow> ex_flags ex' = ex_flags ex"
  by (auto simp: extent_alloc_region_descriptor_def er_fixed_get.simps [of sl] no_sleep_def er_pool_get_def
    split: list.splits if_splits)

lemma free_region_wanted [simp]:
  "has_flag (ex_flags (extent_free_region_descriptor ex rp)) EXF_WANTED = has_flag (ex_flags ex) EXF_WANTED"
  by (simp add: extent_free_region_descriptor_def ex_wakeup_def Let_def has_flag_clr)

lemma clr_flag_gone: "\<not> has_flag (clr_flag w f) f"
  by (simp add: has_flag_def clr_flag_def and.assoc)

lemma free_found_wakes:
  "has_flag (ex_flags ex) EXF_WANTED \<Longrightarrow>
   hd (ex_wakeups (free_found ex nrp r)) = Chan_extent \<and> \<not> has_flag (ex_flags (free_found ex nrp r)) EXF_WANTED"
  by (cases r) (simp add: free_found_def ex_wakeup_def clr_flag_gone Let_def split: option.split)

text \<open>
  C29 (extent_free_wakes): when threads wait for space in the map, every successful
  \<^verbatim>\<open>extent_free\<close> wakes them and clears the mark.
\<close>

theorem extent_free_wakes:
  assumes ns: "no_sleep ex flags" and w: "has_flag (ex_flags ex) EXF_WANTED"
    and r: "extent_free sl ex s sz flags = Done (sl', ex', 0)"
  shows "hd (ex_wakeups ex') = Chan_extent \<and> \<not> has_flag (ex_flags ex') EXF_WANTED"
proof -
  let ?e = "s + (sz - 1)"
  have found: "hd (ex_wakeups ex') = Chan_extent \<and> \<not> has_flag (ex_flags ex') EXF_WANTED"
    if "find_and_free sl ex1 s ?e nrp = Done (sl', ex', 0)" "ex_flags ex1 = ex_flags ex" for ex1 nrp
    using that free_found_wakes [of ex1 nrp] w by (auto simp: find_and_free_def split: option.splits)
  have c: "\<not> (s < ex_start ex \<or> ex_end ex < ?e)" "\<not> ?e < s" using r by (auto simp: extent_free_def Let_def split: if_splits)
  show ?thesis
  proof (cases "has_flag (ex_flags ex) EXF_NOCOALESCE")
    case True
    then show ?thesis using r c found [of ex None] by (simp add: extent_free_def Let_def)
  next
    case False
    from alloc_descr_no_sleep [OF ns] obtain ex1 rp where d: "extent_alloc_region_descriptor sl ex flags = Done (sl, ex1, rp)"
      by blast
    then show ?thesis using r c False found [OF _ alloc_descr_flags [OF ns d]]
      by (simp add: extent_free_def Let_def split: option.splits)
  qed
qed

theorem extent_free_wakes_witness:
  "\<exists>ex'. extent_free [] (sample_map\<lparr>ex_flags := EXF_WANTED\<rparr>) 20 5 0 = Done ([], ex', 0) \<and> hd (ex_wakeups ex') = Chan_extent"
proof -
  let ?ex = "sample_map\<lparr>ex_flags := EXF_WANTED\<rparr>"
  have "case extent_free [] ?ex 20 5 0 of Done ([], ex', r) \<Rightarrow> r = 0 | _ \<Rightarrow> False" by code_simp
  then obtain ex' where r: "extent_free [] ?ex 20 5 0 = Done ([], ex', 0)" by (auto split: exres.splits prod.splits list.splits)
  with extent_free_wakes [OF _ _ r] show ?thesis by (simp add: no_sleep_def has_flag_def)
qed



text \<open>
  C27 (extent_roundtrip): claiming a block of a map from \<^verbatim>\<open>malloc\<close> and releasing it gives back
  a map that holds the same numbers, and while it is held it cannot be claimed again.
\<close>

theorem extent_roundtrip:
  assumes "dynamic_ok ex" "s \<le> e" "extent_claim ex s e = Some ex'"
  shows "extent_claim ex' s e = None \<and>
    (\<exists>ex''. extent_release ex' s e = Some ex'' \<and> ext_ok ex'' \<and> alloc_set ex'' = alloc_set ex)"
  using dyn.claim_again [OF assms] dyn.claim_release [OF assms] by (auto simp: dynamic_ok_def)

theorem extent_roundtrip_witness:
  "\<exists>ex'. extent_claim sample_map 30 40 = Some ex' \<and> extent_claim ex' 30 40 = None"
proof -
  have "extent_claim sample_map 30 40 \<noteq> None" by code_simp
  then obtain ex' where "extent_claim sample_map 30 40 = Some ex'" by blast
  with extent_roundtrip [OF sample_ok(6) _ this] show ?thesis by auto
qed

subsection \<open>Where the code goes wrong\<close>

definition one_region :: "u64 \<Rightarrow> u64 \<Rightarrow> extent" where
  "one_region s e = \<lparr>ex_addr = 1, ex_regions = [\<lparr>er_start = s, er_end = e, er_flags = 1\<rparr>], ex_start = 0, ex_end = 100,
     ex_flags = 0, fex_freelist = [], ex_pool = 4, ex_wakeups = []\<rparr>"

lemma alloc_set_one: "ex_regions ex = [\<lparr>er_start = s, er_end = e, er_flags = f\<rparr>] \<Longrightarrow> alloc_set ex = {unat s..unat e}"
  by (simp add: alloc_set_def rset_def)

text \<open>
  With \<^verbatim>\<open>EX_CONFLICTOK\<close> the call is meant to leave all of the requested
  block allocated and nothing freed.  A request inside a region cuts the region off behind it,
  and a request that ends where a region starts leaves the part before it unallocated, both
  with result zero.
\<close>

theorem conflictok_wrong:
  "(\<exists>ex'. extent_alloc_region [] (one_region 0 20) 5 6 EX_CONFLICTOK = Done ([], ex', 0) \<and> alloc_set ex' = {0..10}) \<and>
   (\<exists>ex'. extent_alloc_region [] (one_region 10 20) 5 6 EX_CONFLICTOK = Done ([], ex', 0) \<and> alloc_set ex' = {10..20}) \<and>
   alloc_set (one_region 0 20) = {0..20}"
proof -
  have "case extent_alloc_region [] (one_region 0 20) 5 6 EX_CONFLICTOK of
      Done ([], ex', r) \<Rightarrow> r = 0 \<and> ex_regions ex' = [\<lparr>er_start = 0, er_end = 10, er_flags = 1\<rparr>] | _ \<Rightarrow> False" by code_simp
  then have 1: "\<exists>ex'. extent_alloc_region [] (one_region 0 20) 5 6 EX_CONFLICTOK = Done ([], ex', 0) \<and> alloc_set ex' = {0..10}"
    using alloc_set_one [of _ 0 10 1] by (auto split: exres.splits prod.splits list.splits)
  have "case extent_alloc_region [] (one_region 10 20) 5 6 EX_CONFLICTOK of
      Done ([], ex', r) \<Rightarrow> r = 0 \<and> ex_regions ex' = [\<lparr>er_start = 10, er_end = 20, er_flags = 1\<rparr>] | _ \<Rightarrow> False" by code_simp
  then have 2: "\<exists>ex'. extent_alloc_region [] (one_region 10 20) 5 6 EX_CONFLICTOK = Done ([], ex', 0) \<and> alloc_set ex' = {10..20}"
    using alloc_set_one [of _ 10 20 1] by (auto split: exres.splits prod.splits list.splits)
  have "alloc_set (one_region 0 20) = {0..20}" using alloc_set_one [of "one_region 0 20" 0 20 1] by (simp add: one_region_def)
  with 1 2 show ?thesis by blast
qed

text \<open>
  In a map up to the highest number, a region that ends there makes the start wrap to zero
  when the subregion lies inside it: the block handed out is allocated already, lies outside
  the subregion, and the list of regions is damaged.
\<close>

definition full_map :: extent where
  "full_map = \<lparr>ex_addr = 1, ex_regions = [\<lparr>er_start = 0, er_end = 5, er_flags = 1\<rparr>, \<lparr>er_start = 10, er_end = - 1, er_flags = 1\<rparr>],
     ex_start = 0, ex_end = - 1, ex_flags = 0, fex_freelist = [], ex_pool = 4, ex_wakeups = []\<rparr>"

lemma full_map_ok: "ext_ok full_map"
  by (simp add: ext_ok_def gap_def full_map_def has_flag_def word_le_nat_alt unsigned_minus_1_eq_mask mask_eq_exp_minus_1)

lemma alloc_wraps_at_top:
  "case extent_alloc_subregion [] full_map
      \<lparr>rq_substart = 20, rq_subend = 30, rq_size = 5, rq_alignment = 1, rq_skew = 0, rq_boundary = 0, rq_flags = EX_FAST\<rparr> of
     Done ([], ex', r, Some s) \<Rightarrow> r = 0 \<and> s = 0 \<and> map (\<lambda>rp. (er_start rp, er_end rp)) (ex_regions ex') = [(0, 5), (10, 4)]
   | _ \<Rightarrow> False"
  by code_simp

text \<open>A boundary line that is not on the grid of the alignment makes the block lose its alignment.\<close>

lemma boundary_loses_alignment:
  "case extent_alloc_subregion [] (one_region 0 19)
      \<lparr>rq_substart = 0, rq_subend = 100, rq_size = 16, rq_alignment = 16, rq_skew = 4, rq_boundary = 32, rq_flags = EX_FAST\<rparr> of
     Done ([], ex', r, Some s) \<Rightarrow> r = 0 \<and> s = 32 | _ \<Rightarrow> False"
  by code_simp

text \<open>A sleep that ends with an error loses the descriptor taken before: it is in neither list.\<close>

lemma sleep_error_leaks:
  "case extent_alloc_region [(4, id)] (one_region 0 20) 5 6 EX_WAITSPACE of
     Done ([], ex', r) \<Rightarrow> r = 4 \<and> ex_pool ex' = 3 \<and> length (ex_regions ex') = 1 \<and> fex_freelist ex' = []
   | _ \<Rightarrow> False"
  by code_simp

end
