(* ===== verification/Lockf.thy ===== *)
theory Lockf
  imports Prelude
begin

text \<open>
  Advisory byte-range locks (\<^verbatim>\<open>sys/kern/vfs_lockf.c\<close>, \<^verbatim>\<open>sys/sys/lockf.h\<close>).  File offsets are
  signed 64-bit numbers, kept as integers with the wrap-around written out.  The list of a
  file's locks is a list of records; a walk with the pointer \<^verbatim>\<open>prev\<close> is a split of the list in
  the locks passed and the locks to come.
\<close>

subsection \<open>Data\<close>

definition OFF_MAX :: int where "OFF_MAX = 2 ^ 63 - 1"

definition off_wrap :: "int \<Rightarrow> int" where
  "off_wrap x = (x + 2 ^ 63) mod 2 ^ 64 - 2 ^ 63"

abbreviation F_RDLCK :: nat where "F_RDLCK \<equiv> 1"
abbreviation F_UNLCK :: nat where "F_UNLCK \<equiv> 2"
abbreviation F_WRLCK :: nat where "F_WRLCK \<equiv> 3"
abbreviation F_GETLK :: nat where "F_GETLK \<equiv> 7"
abbreviation F_SETLK :: nat where "F_SETLK \<equiv> 8"
abbreviation F_WAIT :: u16 where "F_WAIT \<equiv> 0x10"
abbreviation F_FLOCK :: u16 where "F_FLOCK \<equiv> 0x20"
abbreviation F_POSIX :: u16 where "F_POSIX \<equiv> 0x40"

abbreviation EDEADLK :: nat where "EDEADLK \<equiv> 11"
abbreviation EINVAL :: nat where "EINVAL \<equiv> 22"
abbreviation LF_EAGAIN :: nat where "LF_EAGAIN \<equiv> 35"
abbreviation ENOLCK :: nat where "ENOLCK \<equiv> 77"

text \<open>
  \<open>lf_addr\<close> is the address of the structure and \<open>lf_blkhd\<close> holds the addresses of the requests
  that wait for the lock.  An end of \<open>-1\<close> means the end of the file.
\<close>

record lockf =
  lf_addr :: nat
  lf_flags :: u16
  lf_type :: nat
  lf_start :: int
  lf_end :: int
  lf_id :: nat
  lf_blkhd :: "nat list"
  lf_uid :: nat
  lf_pid :: int

text \<open>
  The locks of a file, the lock count of each user, for each waiting request the lock it
  waits for (its \<^verbatim>\<open>lf_next\<close>), the sleeping requests that have been woken, last one first, the
  address of the next structure from the pool, and whether memory is short, so that
  \<^verbatim>\<open>pool_get\<close> has to wait for a structure.
\<close>

record lstate =
  ls_locks :: "lockf list"
  ls_cnt :: "nat \<Rightarrow> int"
  ls_wait :: "nat \<Rightarrow> nat option"
  ls_woken :: "nat list"
  ls_next :: nat
  ls_low :: bool

record flock =
  l_start :: int
  l_len :: int
  l_pid :: int
  l_type :: nat
  l_whence :: nat

text \<open>
  The outcome of an operation.  \<open>LPanic\<close> is a panic or an access through a null pointer, and
  \<open>LCorrupt\<close> stands for the branches that would free or link a lock that is in the list already.
  \<open>LAsleep\<close> is the sleep of a request for a lock, \<open>LPool\<close> the sleep in \<^verbatim>\<open>pool_get\<close>.
\<close>

datatype 'a lfres = LPanic | LCorrupt | LAsleep lstate | LPool lstate | LDone 'a

subsection \<open>Allocation\<close>

definition maxlocksperuid :: int where "maxlocksperuid = 1024"

text \<open>
  The structure comes back with its address; the user is for the caller to set.  The count is
  raised before the sleep.
\<close>

definition lf_alloc :: "lstate \<Rightarrow> nat \<Rightarrow> nat \<Rightarrow> (lstate \<times> nat) option lfres" where
  "lf_alloc st uid allowfail =
     (if uid \<noteq> 0 \<and> allowfail \<noteq> 0 \<and> ls_cnt st uid > (if allowfail = 1 then maxlocksperuid else maxlocksperuid * 2)
      then LDone None
      else
        let st = st\<lparr>ls_cnt := (ls_cnt st)(uid := ls_cnt st uid + 1)\<rparr>
        in if ls_low st then LPool st else LDone (Some (st\<lparr>ls_next := ls_next st + 1\<rparr>, ls_next st)))"

definition lf_free :: "lstate \<Rightarrow> lockf \<Rightarrow> lstate" where
  "lf_free st lock = st\<lparr>ls_cnt := (ls_cnt st)(lf_uid lock := ls_cnt st (lf_uid lock) - 1)\<rparr>"

subsection \<open>Finding overlaps\<close>

text \<open>How two ranges overlap, by the numbers of the code; 6 is the panic.\<close>

definition ovcase :: "lockf \<Rightarrow> lockf \<Rightarrow> nat" where
  "ovcase lf lock =
     (let start = lf_start lock; end' = lf_end lock
      in if lf_end lf \<noteq> -1 \<and> start > lf_end lf \<or> end' \<noteq> -1 \<and> lf_start lf > end' then 0
         else if lf_start lf = start \<and> lf_end lf = end' then 1
         else if lf_start lf \<le> start \<and> (lf_end lf = -1 \<or> end' \<noteq> -1 \<and> lf_end lf \<ge> end') then 2
         else if start \<le> lf_start lf \<and> (end' = -1 \<or> lf_end lf \<noteq> -1 \<and> end' \<ge> lf_end lf) then 3
         else if lf_start lf < start \<and> (lf_end lf \<ge> start \<or> lf_end lf = -1) then 4
         else if lf_start lf > start \<and> end' \<noteq> -1 \<and> (lf_end lf > end' \<or> lf_end lf = -1) then 5
         else 6)"

text \<open>
  The walk.  \<open>self\<close> tells whether it looks at the locks of the same owner or at those of the
  others.  The result holds the case, the locks passed, and the locks from the one found on.
\<close>

fun lf_findoverlap :: "bool \<Rightarrow> lockf \<Rightarrow> lockf list \<Rightarrow> lockf list \<Rightarrow> nat \<times> lockf list \<times> lockf list" where
  "lf_findoverlap self lock pre [] = (0, pre, [])"
| "lf_findoverlap self lock pre (lf # lfs) =
     (if (self \<and> lf_id lf \<noteq> lf_id lock) \<or> (\<not> self \<and> lf_id lf = lf_id lock) then
        lf_findoverlap self lock (pre @ [lf]) lfs
      else if ovcase lf lock = 0 then
        if self \<and> lf_end lock \<noteq> -1 \<and> lf_start lf > lf_end lock then (0, pre, lf # lfs)
        else lf_findoverlap self lock (pre @ [lf]) lfs
      else (ovcase lf lock, pre, lf # lfs))"

lemma lf_findoverlap_app:
  "lf_findoverlap self lock pre lfs = (c, pre', rest) \<Longrightarrow> \<exists>xs. pre' = pre @ xs \<and> lfs = xs @ rest"
  by (induction self lock pre lfs rule: lf_findoverlap.induct) (fastforce split: if_splits)+

lemma lf_findoverlap_length: "lf_findoverlap self lock pre lfs = (c, pre', rest) \<Longrightarrow> length rest \<le> length lfs"
  using lf_findoverlap_app by fastforce

subsection \<open>Waking and splitting\<close>

definition lf_wakelock :: "lstate \<Rightarrow> lockf \<Rightarrow> lstate \<times> lockf" where
  "lf_wakelock st lock =
     (st\<lparr>ls_wait := (\<lambda>a. if a \<in> set (lf_blkhd lock) then None else ls_wait st a),
         ls_woken := rev (lf_blkhd lock) @ ls_woken st\<rparr>,
      lock\<lparr>lf_blkhd := []\<rparr>)"

text \<open>
  The new first lock and, unless the second lock goes before it, the locks behind the second
  one.  \<open>Waits\<close> is the sleep for the third lock.
\<close>

datatype split_res = Before lockf | After lockf "lockf list" | Waits | Null

definition lf_split :: "lstate \<Rightarrow> lockf \<Rightarrow> lockf \<Rightarrow> lockf list \<Rightarrow> lstate \<times> split_res" where
  "lf_split st lock1 lock2 next =
     (if lf_start lock1 = lf_start lock2 then (st, Before (lock1\<lparr>lf_start := off_wrap (lf_end lock2 + 1)\<rparr>))
      else if lf_end lock1 = lf_end lock2 then (st, After (lock1\<lparr>lf_end := lf_start lock2 - 1\<rparr>) next)
      else
        case lf_alloc st (lf_uid lock1) 0 of
          LDone (Some (st, a)) \<Rightarrow>
            let splitlock = lock1\<lparr>lf_addr := a, lf_start := off_wrap (lf_end lock2 + 1), lf_blkhd := []\<rparr>
            in (st, After (lock1\<lparr>lf_end := lf_start lock2 - 1\<rparr>) (splitlock # next))
        | LPool st \<Rightarrow> (st, Waits)
        | _ \<Rightarrow> (st, Null))"

text \<open>
  What \<^verbatim>\<open>lf_split\<close> and its caller do when \<^verbatim>\<open>pool_get\<close> returns after a sleep.  The lock to split is
  the one at the address \<open>a1\<close>, with the contents it has by then; \<open>setting\<close> tells \<^verbatim>\<open>lf_setlock\<close>, which
  links \<open>lock2\<close> and wakes the waiters, from \<^verbatim>\<open>lf_clearlock\<close>, which leaves \<open>lock2\<close> out.
\<close>

definition split_woken :: "lstate \<Rightarrow> nat \<Rightarrow> lockf \<Rightarrow> bool \<Rightarrow> lstate lfres" where
  "split_woken st a1 lock2 setting =
     (case List.extract (\<lambda>l. lf_addr l = a1) (ls_locks st) of
        None \<Rightarrow> LCorrupt
      | Some (pre, lock1, next) \<Rightarrow>
          let splitlock = lock1\<lparr>lf_addr := ls_next st, lf_start := off_wrap (lf_end lock2 + 1), lf_blkhd := []\<rparr>;
              st = st\<lparr>ls_next := ls_next st + 1\<rparr>;
              lock1 = lock1\<lparr>lf_end := lf_start lock2 - 1\<rparr>
          in if setting then
               let (st, lock1) = lf_wakelock st lock1 in LDone (st\<lparr>ls_locks := pre @ lock1 # lock2 # splitlock # next\<rparr>)
             else LDone (st\<lparr>ls_locks := pre @ lock1 # splitlock # next\<rparr>))"

subsection \<open>Clearing\<close>

function clear_loop :: "lstate \<Rightarrow> lockf \<Rightarrow> lockf list \<Rightarrow> lockf list \<Rightarrow> lstate lfres" where
  "clear_loop st lock pre lfs =
     (case lf_findoverlap True lock pre lfs of
        (c, pre, []) \<Rightarrow> LDone (st\<lparr>ls_locks := pre\<rparr>)
      | (c, pre, overlap # rest) \<Rightarrow>
          if c = 0 then LDone (st\<lparr>ls_locks := pre @ overlap # rest\<rparr>)
          else if c = 6 then LPanic
          else
            let (st, overlap) = lf_wakelock st overlap
            in if c = 1 then LDone ((lf_free st overlap)\<lparr>ls_locks := pre @ rest\<rparr>)
               else if c = 2 then
                 if lf_start overlap = lf_start lock then
                   LDone (st\<lparr>ls_locks := pre @ overlap\<lparr>lf_start := off_wrap (lf_end lock + 1)\<rparr> # rest\<rparr>)
                 else
                   case lf_split st overlap lock rest of
                     (st, Before _) \<Rightarrow> LCorrupt
                   | (st, After l1 after) \<Rightarrow> LDone (st\<lparr>ls_locks := pre @ l1 # after\<rparr>)
                   | (st, Waits) \<Rightarrow> LPool (st\<lparr>ls_locks := pre @ overlap # rest\<rparr>)
                   | (st, Null) \<Rightarrow> LPanic
               else if c = 3 then clear_loop (lf_free st overlap) lock pre rest
               else if c = 4 then clear_loop st lock (pre @ [overlap\<lparr>lf_end := lf_start lock - 1\<rparr>]) rest
               else LDone (st\<lparr>ls_locks := pre @ overlap\<lparr>lf_start := off_wrap (lf_end lock + 1)\<rparr> # rest\<rparr>))"
  by pat_completeness auto
termination
  by (relation "measure (\<lambda>(_, _, _, lfs). length lfs)") (auto dest: lf_findoverlap_length [OF sym])

declare clear_loop.simps [simp del]

definition lf_clearlock :: "lstate \<Rightarrow> lockf \<Rightarrow> lstate lfres" where
  "lf_clearlock st lock = (if ls_locks st = [] then LDone st else clear_loop st lock [] (ls_locks st))"

subsection \<open>Blocking locks\<close>

function lf_getblock_loop :: "lockf \<Rightarrow> lockf list \<Rightarrow> lockf option lfres" where
  "lf_getblock_loop lock lfs =
     (case lf_findoverlap False lock [] lfs of
        (c, pre, []) \<Rightarrow> LDone None
      | (c, pre, overlap # rest) \<Rightarrow>
          if c = 6 then LPanic
          else if lf_type lock = F_WRLCK \<or> lf_type overlap = F_WRLCK then LDone (Some overlap)
          else lf_getblock_loop lock rest)"
  by pat_completeness auto
termination
  by (relation "measure (\<lambda>(_, lfs). length lfs)") (auto dest: lf_findoverlap_length [OF sym])

declare lf_getblock_loop.simps [simp del]

definition lf_getblock :: "lstate \<Rightarrow> lockf \<Rightarrow> lockf option lfres" where
  "lf_getblock st lock = lf_getblock_loop lock (ls_locks st)"

definition lf_getlock :: "lstate \<Rightarrow> lockf \<Rightarrow> flock \<Rightarrow> flock lfres" where
  "lf_getlock st lock fl =
     (case lf_getblock st lock of
        LDone (Some block) \<Rightarrow>
          LDone (fl\<lparr>l_type := lf_type block, l_whence := 0, l_start := lf_start block,
            l_len := (if lf_end block = -1 then 0 else off_wrap (lf_end block - lf_start block + 1)), l_pid := lf_pid block\<rparr>)
      | LDone None \<Rightarrow> LDone (fl\<lparr>l_type := F_UNLCK\<rparr>)
      | LPanic \<Rightarrow> LPanic | LCorrupt \<Rightarrow> LCorrupt | LAsleep st \<Rightarrow> LAsleep st | LPool st \<Rightarrow> LPool st)"

subsection \<open>Setting\<close>

text \<open>Case 3: the requests that wait for the overlap wait for the lock instead.\<close>

definition take_blocked :: "lstate \<Rightarrow> lockf \<Rightarrow> lockf \<Rightarrow> lstate \<times> lockf" where
  "take_blocked st lock overlap =
     (st\<lparr>ls_wait := (\<lambda>a. if a \<in> set (lf_blkhd overlap) then Some (lf_addr lock) else ls_wait st a)\<rparr>,
      lock\<lparr>lf_blkhd := lf_blkhd lock @ lf_blkhd overlap\<rparr>)"

text \<open>
  The second loop of \<^verbatim>\<open>lf_setlock\<close>.  While \<open>needtolink\<close> holds, \<open>pre\<close> are the locks passed;
  after that the lock is in the list, \<open>pre\<close> are the locks before it and \<open>mid\<close> those passed
  after it.
\<close>

function set_loop :: "lstate \<Rightarrow> lockf \<Rightarrow> bool \<Rightarrow> lockf list \<Rightarrow> lockf list \<Rightarrow> lockf list \<Rightarrow> lstate lfres" where
  "set_loop st lock needtolink pre mid lfs =
     (case lf_findoverlap True lock (if needtolink then pre else mid) lfs of
        (c, passed, rest) \<Rightarrow>
          let whole = (\<lambda>lock rest. if needtolink then passed @ lock # rest else pre @ lock # passed @ rest)
          in if c = 0 then LDone (st\<lparr>ls_locks := whole lock rest\<rparr>)
             else case rest of
                    [] \<Rightarrow> LPanic
                  | overlap # rest \<Rightarrow>
                      if c = 6 then LPanic
                      else if c = 1 then
                        if \<not> needtolink then LCorrupt
                        else
                          let (st, overlap) =
                            (if lf_type lock = F_RDLCK \<and> lf_type overlap = F_WRLCK then lf_wakelock st overlap else (st, overlap))
                          in LDone ((lf_free st lock)\<lparr>ls_locks := passed @ overlap\<lparr>lf_type := lf_type lock\<rparr> # rest\<rparr>)
                      else if c = 2 then
                        if \<not> needtolink then LCorrupt
                        else if lf_type overlap = lf_type lock then
                          LDone ((lf_free st lock)\<lparr>ls_locks := passed @ overlap # rest\<rparr>)
                        else if lf_start overlap = lf_start lock then
                          let (st, overlap) = lf_wakelock st (overlap\<lparr>lf_start := off_wrap (lf_end lock + 1)\<rparr>)
                          in LDone (st\<lparr>ls_locks := passed @ lock # overlap # rest\<rparr>)
                        else
                          (case lf_split st overlap lock rest of
                             (st, Before l1) \<Rightarrow>
                               let (st, l1) = lf_wakelock st l1 in LDone (st\<lparr>ls_locks := passed @ l1 # rest\<rparr>)
                           | (st, After l1 after) \<Rightarrow>
                               let (st, l1) = lf_wakelock st l1 in LDone (st\<lparr>ls_locks := passed @ l1 # lock # after\<rparr>)
                           | (st, Waits) \<Rightarrow> LPool (st\<lparr>ls_locks := passed @ overlap # rest\<rparr>)
                           | (st, Null) \<Rightarrow> LPanic)
                      else if c = 3 then
                        let (st, lock) =
                          (if lf_type lock = F_RDLCK \<and> lf_type overlap = F_WRLCK then (fst (lf_wakelock st overlap), lock)
                           else take_blocked st lock overlap)
                        in if needtolink then set_loop (lf_free st overlap) lock False passed [] rest
                           else set_loop (lf_free st overlap) lock False pre passed rest
                      else if c = 4 then
                        let (st, overlap) = lf_wakelock st (overlap\<lparr>lf_end := lf_start lock - 1\<rparr>)
                        in if needtolink then set_loop st lock False (passed @ [overlap]) [] rest
                           else set_loop st lock False pre [] rest
                      else
                        let (st, overlap) = lf_wakelock st (overlap\<lparr>lf_start := off_wrap (lf_end lock + 1)\<rparr>)
                        in LDone (st\<lparr>ls_locks := whole lock (overlap # rest)\<rparr>))"
  by pat_completeness auto
termination
  by (relation "measure (\<lambda>(_, _, _, _, _, lfs). length lfs)") (auto dest: lf_findoverlap_length [OF sym])

declare set_loop.simps [simp del]

text \<open>
  Deadlock detection.  The code takes the \<^verbatim>\<open>lf_id\<close> of a lock for the address of a process and reads
  its wait channel and wait message there, then the \<^verbatim>\<open>lf_next\<close> of the request that is the wait
  channel, and the flags and the owner of the lock found there.  These are memory outside the
  locks of the file: \<open>proc_at\<close> is what is read at an address taken for a process, \<open>p_lockstr\<close>
  whether the wait message is the string of \<^verbatim>\<open>lf_setlock\<close>, and \<open>next_at\<close> and \<open>lock_at\<close> are the fields of
  the lock structures.
\<close>

definition MAXDEPTH :: nat where "MAXDEPTH = 50"

record proc =
  p_wchan :: "nat option"
  p_lockstr :: bool

record kmem =
  proc_at :: "nat \<Rightarrow> proc"
  next_at :: "nat \<Rightarrow> nat option"
  lock_at :: "nat \<Rightarrow> u16 \<times> nat"

text \<open>No result is an access through a null pointer.\<close>

fun deadlock_walk :: "kmem \<Rightarrow> nat \<Rightarrow> nat \<Rightarrow> nat \<Rightarrow> bool option" where
  "deadlock_walk mem me 0 wproc = Some False"
| "deadlock_walk mem me (Suc i) wproc =
     (case p_wchan (proc_at mem wproc) of
        None \<Rightarrow> Some False
      | Some c \<Rightarrow>
          if \<not> p_lockstr (proc_at mem wproc) then Some False
          else case next_at mem c of
                 None \<Rightarrow> None
               | Some waitblock \<Rightarrow>
                   let (flags, owner) = lock_at mem waitblock
                   in if \<not> has_flag flags F_POSIX then Some False
                      else if owner = me then Some True
                      else deadlock_walk mem me i owner)"

text \<open>
  Putting a request on the list of a lock and to sleep, which forgets earlier wakeups, and taking
  it off again.
\<close>

definition block_on :: "lstate \<Rightarrow> lockf \<Rightarrow> lockf \<Rightarrow> lstate" where
  "block_on st lock block =
     st\<lparr>ls_locks := map (\<lambda>l. if lf_addr l = lf_addr block then l\<lparr>lf_blkhd := lf_blkhd l @ [lf_addr lock]\<rparr> else l) (ls_locks st),
        ls_wait := (ls_wait st)(lf_addr lock := Some (lf_addr block)),
        ls_woken := filter (\<lambda>a. a \<noteq> lf_addr lock) (ls_woken st)\<rparr>"

definition unblock :: "lstate \<Rightarrow> lockf \<Rightarrow> lstate" where
  "unblock st lock =
     (case ls_wait st (lf_addr lock) of
        None \<Rightarrow> st
      | Some b \<Rightarrow>
          st\<lparr>ls_locks := map (\<lambda>l. if lf_addr l = b then l\<lparr>lf_blkhd := remove1 (lf_addr lock) (lf_blkhd l)\<rparr> else l) (ls_locks st),
             ls_wait := (ls_wait st)(lf_addr lock := None)\<rparr>)"

text \<open>
  A sleep takes the next wakeup: the value of \<^verbatim>\<open>tsleep\<close>, what the others did meanwhile, and the
  memory that the deadlock check reads then.  The result holds the error number.
\<close>

type_synonym lwakes = "(nat \<times> (lstate \<Rightarrow> lstate) \<times> kmem) list"

fun lf_setlock :: "lwakes \<Rightarrow> kmem \<Rightarrow> lstate \<Rightarrow> lockf \<Rightarrow> (lwakes \<times> lstate \<times> nat) lfres" where
  "lf_setlock sl mem st lock =
     (case lf_getblock st lock of
        LPanic \<Rightarrow> LPanic | LCorrupt \<Rightarrow> LCorrupt | LAsleep st \<Rightarrow> LAsleep st | LPool st \<Rightarrow> LPool st
      | LDone None \<Rightarrow>
          (case set_loop st lock True [] [] (ls_locks st) of
             LDone st \<Rightarrow> LDone (sl, st, 0)
           | LPanic \<Rightarrow> LPanic | LCorrupt \<Rightarrow> LCorrupt | LAsleep st \<Rightarrow> LAsleep st | LPool st \<Rightarrow> LPool st)
      | LDone (Some block) \<Rightarrow>
          if \<not> has_flag (lf_flags lock) F_WAIT then LDone (sl, lf_free st lock, LF_EAGAIN)
          else
            case (if has_flag (lf_flags lock) F_POSIX \<and> has_flag (lf_flags block) F_POSIX
                  then deadlock_walk mem (lf_id lock) MAXDEPTH (lf_id block) else Some False) of
              None \<Rightarrow> LPanic
            | Some True \<Rightarrow> LDone (sl, lf_free st lock, EDEADLK)
            | Some False \<Rightarrow>
                (case (if has_flag (lf_flags lock) F_FLOCK \<and> lf_type lock = F_WRLCK
                       then lf_clearlock st (lock\<lparr>lf_type := F_UNLCK\<rparr>) else LDone st) of
                   LDone st \<Rightarrow>
                     let st = block_on st lock block
                     in (case sl of
                           [] \<Rightarrow> LAsleep st
                         | (error, others, mem) # sl \<Rightarrow>
                             let st = unblock (others st) lock
                             in if error \<noteq> 0 then LDone (sl, lf_free st lock, error) else lf_setlock sl mem st lock)
                 | LPanic \<Rightarrow> LPanic | LCorrupt \<Rightarrow> LCorrupt | LAsleep st \<Rightarrow> LAsleep st | LPool st \<Rightarrow> LPool st))"

declare lf_setlock.simps [simp del]

subsection \<open>The entry point\<close>

text \<open>The range of a request, or \<^verbatim>\<open>EINVAL\<close>.\<close>

definition lf_range :: "int \<Rightarrow> flock \<Rightarrow> (int \<times> int) option" where
  "lf_range sz fl =
     (if l_whence fl > 2 then None
      else
        let start = (if l_whence fl = 2 then off_wrap (sz + l_start fl) else l_start fl)
        in if start < 0 then None
           else if l_len fl = 0 then Some (start, -1)
           else
             let end' = off_wrap (off_wrap (start + l_len fl) - 1)
             in if end' < start then None else Some (start, end'))"

text \<open>The lock structure of a request, at the address \<open>a\<close>.\<close>

definition lf_request :: "nat \<Rightarrow> int \<Rightarrow> int \<Rightarrow> nat \<Rightarrow> nat \<Rightarrow> int \<Rightarrow> nat \<Rightarrow> u16 \<Rightarrow> lockf" where
  "lf_request a start end' uid owner pid type flags =
     \<lparr>lf_addr = a, lf_flags = flags, lf_type = type, lf_start = start, lf_end = end',
      lf_id = owner, lf_blkhd = [], lf_uid = uid, lf_pid = (if has_flag flags F_POSIX then pid else -1)\<rparr>"

definition lf_advlock :: "lwakes \<Rightarrow> kmem \<Rightarrow> lstate \<Rightarrow> int \<Rightarrow> nat \<Rightarrow> nat \<Rightarrow> int \<Rightarrow> nat \<Rightarrow> flock \<Rightarrow> u16
    \<Rightarrow> (lwakes \<times> lstate \<times> nat \<times> flock) lfres" where
  "lf_advlock sl mem st sz uid owner pid op fl flags =
     (case lf_range sz fl of
        None \<Rightarrow> LDone (sl, st, EINVAL, fl)
      | Some (start, end') \<Rightarrow>
          if ls_locks st = [] \<and> op \<noteq> F_SETLK then LDone (sl, st, 0, fl\<lparr>l_type := F_UNLCK\<rparr>)
          else
            case lf_alloc st uid (if op = F_SETLK then 1 else 2) of
              LPanic \<Rightarrow> LPanic | LCorrupt \<Rightarrow> LCorrupt | LAsleep st \<Rightarrow> LAsleep st | LPool st \<Rightarrow> LPool st
            | LDone None \<Rightarrow> LDone (sl, st, ENOLCK, fl)
            | LDone (Some (st, a)) \<Rightarrow>
                let lock = lf_request a start end' uid owner pid (l_type fl) flags
                in if op = F_SETLK then
                     (case lf_setlock sl mem st lock of
                        LDone (sl, st, error) \<Rightarrow> LDone (sl, st, error, fl)
                      | LPanic \<Rightarrow> LPanic | LCorrupt \<Rightarrow> LCorrupt | LAsleep st \<Rightarrow> LAsleep st | LPool st \<Rightarrow> LPool st)
                   else if op = F_UNLCK then
                     (case lf_clearlock st lock of
                        LDone st \<Rightarrow> LDone (sl, lf_free st lock, 0, fl)
                      | LPanic \<Rightarrow> LPanic | LCorrupt \<Rightarrow> LCorrupt | LAsleep st \<Rightarrow> LAsleep st | LPool st \<Rightarrow> LPool st)
                   else if op = F_GETLK then
                     (case lf_getlock st lock fl of
                        LDone fl \<Rightarrow> LDone (sl, lf_free st lock, 0, fl)
                      | LPanic \<Rightarrow> LPanic | LCorrupt \<Rightarrow> LCorrupt | LAsleep st \<Rightarrow> LAsleep st | LPool st \<Rightarrow> LPool st)
                   else LDone (sl, lf_free st lock, EINVAL, fl))"

end
