(* ===== verification/Lockf_Inv.thy ===== *)
theory Lockf_Inv
  imports Lockf
begin

text \<open>
  What a list of locks means: which owner holds which bytes of the file, and how.  Clearing
  and setting a range are shown to change exactly that range of their owner.
\<close>

subsection \<open>Ranges\<close>

definition lf_hi :: "lockf \<Rightarrow> int" where
  "lf_hi l = (if lf_end l = -1 then OFF_MAX else lf_end l)"

definition covers :: "lockf \<Rightarrow> int \<Rightarrow> bool" where
  "covers l i \<longleftrightarrow> lf_start l \<le> i \<and> i \<le> lf_hi l"

text \<open>A good range ends at the end of the file, or before the last byte a file can have.\<close>

definition lf_ok :: "lockf \<Rightarrow> bool" where
  "lf_ok l \<longleftrightarrow> 0 \<le> lf_start l \<and> lf_start l \<le> OFF_MAX \<and> (lf_end l = -1 \<or> lf_start l \<le> lf_end l \<and> lf_end l < OFF_MAX)"

lemma lf_ok_hi: "lf_ok l \<Longrightarrow> 0 \<le> lf_start l \<and> lf_start l \<le> lf_hi l \<and> lf_hi l \<le> OFF_MAX \<and> (lf_hi l = OFF_MAX \<longleftrightarrow> lf_end l = -1)"
  by (auto simp: lf_ok_def lf_hi_def OFF_MAX_def)

lemma lf_end_hi: "lf_hi l \<noteq> OFF_MAX \<Longrightarrow> lf_end l = lf_hi l"
  by (simp add: lf_hi_def split: if_splits)

lemma off_wrap_next: "-1 \<le> x \<Longrightarrow> x < OFF_MAX \<Longrightarrow> off_wrap (x + 1) = x + 1"
  by (simp add: off_wrap_def OFF_MAX_def)

definition before :: "lockf \<Rightarrow> lockf \<Rightarrow> bool" where
  "before a b \<longleftrightarrow> lf_hi a < lf_start b"

text \<open>The six cases of an overlap, in terms of first and last bytes.\<close>

lemma ovcase_hi:
  assumes "lf_ok f" "lf_ok l"
  shows "ovcase f l =
    (if lf_hi f < lf_start l \<or> lf_hi l < lf_start f then 0
     else if lf_start f = lf_start l \<and> lf_hi f = lf_hi l then 1
     else if lf_start f \<le> lf_start l \<and> lf_hi l \<le> lf_hi f then 2
     else if lf_start l \<le> lf_start f \<and> lf_hi f \<le> lf_hi l then 3
     else if lf_start f < lf_start l then 4 else 5)"
proof -
  have f: "lf_end f = (if lf_hi f = OFF_MAX then -1 else lf_hi f)" and l: "lf_end l = (if lf_hi l = OFF_MAX then -1 else lf_hi l)"
    using lf_ok_hi [OF assms(1)] lf_ok_hi [OF assms(2)] lf_end_hi by auto
  show ?thesis
    unfolding ovcase_def Let_def f l
    using lf_ok_hi [OF assms(1)] lf_ok_hi [OF assms(2)]
    by (cases "lf_hi f = OFF_MAX"; cases "lf_hi l = OFF_MAX"; simp; linarith?)
qed

lemma ovcase_iff:
  assumes "lf_ok f" "lf_ok l"
  shows "ovcase f l = 0 \<longleftrightarrow> before f l \<or> before l f"
    "ovcase f l = 1 \<longleftrightarrow> lf_start f = lf_start l \<and> lf_hi f = lf_hi l"
    "ovcase f l = 2 \<longleftrightarrow> lf_start f \<le> lf_start l \<and> lf_hi l \<le> lf_hi f \<and> \<not> (lf_start f = lf_start l \<and> lf_hi f = lf_hi l)"
    "ovcase f l = 3 \<longleftrightarrow> lf_start l \<le> lf_start f \<and> lf_hi f \<le> lf_hi l \<and> \<not> (lf_start f = lf_start l \<and> lf_hi f = lf_hi l)"
    "ovcase f l = 4 \<longleftrightarrow> lf_start f < lf_start l \<and> lf_start l \<le> lf_hi f \<and> lf_hi f < lf_hi l"
    "ovcase f l = 5 \<longleftrightarrow> lf_start l < lf_start f \<and> lf_start f \<le> lf_hi l \<and> lf_hi l < lf_hi f"
    "ovcase f l \<noteq> 6"
  unfolding before_def using ovcase_hi [OF assms] lf_ok_hi [OF assms(1)] lf_ok_hi [OF assms(2)] by (auto split: if_splits)

lemma ovcase_le: "ovcase f l \<le> 6"
  by (simp add: ovcase_def Let_def)

subsection \<open>Owners\<close>

definition own :: "nat \<Rightarrow> lockf list \<Rightarrow> lockf list" where
  "own o' ls = filter (\<lambda>l. lf_id l = o') ls"

lemma own_simps [simp]: "own o' [] = []" "own o' (l # ls) = (if lf_id l = o' then l # own o' ls else own o' ls)"
  "own o' (ls @ ls') = own o' ls @ own o' ls'"
  by (simp_all add: own_def)

definition own_ok :: "lockf list \<Rightarrow> bool" where
  "own_ok ls \<longleftrightarrow> (\<forall>l\<in>set ls. lf_ok l) \<and> sorted_wrt before ls"

text \<open>The invariant: the locks of every owner are in order and do not overlap.\<close>

definition locks_ok :: "lockf list \<Rightarrow> bool" where
  "locks_ok ls \<longleftrightarrow> (\<forall>o'. own_ok (own o' ls))"

definition hold :: "lockf list \<Rightarrow> int \<Rightarrow> nat \<Rightarrow> bool" where
  "hold ls i t \<longleftrightarrow> (\<exists>l\<in>set ls. covers l i \<and> lf_type l = t)"

lemma hold_simps [simp]: "\<not> hold [] i t" "hold (l # ls) i t \<longleftrightarrow> covers l i \<and> lf_type l = t \<or> hold ls i t"
  "hold (ls @ ls') i t \<longleftrightarrow> hold ls i t \<or> hold ls' i t"
  by (auto simp: hold_def)

text \<open>What owner \<open>o'\<close> holds at byte \<open>i\<close>.\<close>

definition holds :: "lockf list \<Rightarrow> nat \<Rightarrow> int \<Rightarrow> nat \<Rightarrow> bool" where
  "holds ls o' i t \<longleftrightarrow> hold (own o' ls) i t"

lemma own_ok_app: "own_ok (ls @ ls') \<longleftrightarrow> own_ok ls \<and> own_ok ls' \<and> (\<forall>a\<in>set ls. \<forall>b\<in>set ls'. before a b)"
  by (auto simp: own_ok_def sorted_wrt_append)

lemma own_ok_Cons: "own_ok (l # ls) \<longleftrightarrow> lf_ok l \<and> own_ok ls \<and> (\<forall>b\<in>set ls. before l b)"
  by (auto simp: own_ok_def)

lemma before_trans: "before a b \<Longrightarrow> lf_ok b \<Longrightarrow> before b c \<Longrightarrow> before a c"
  using lf_ok_hi [of b] by (simp add: before_def)

lemma before_not_cover: "before a b \<Longrightarrow> covers b i \<Longrightarrow> \<not> covers a i"
  by (simp add: before_def covers_def)

subsection \<open>The walk\<close>

text \<open>What the walk over the locks of one owner finds.\<close>

definition found_at :: "lockf \<Rightarrow> lockf list \<Rightarrow> nat \<Rightarrow> lockf list \<Rightarrow> lockf list \<Rightarrow> bool" where
  "found_at lock lfs c xs rest \<longleftrightarrow>
     lfs = xs @ rest \<and> (\<forall>l\<in>set (own (lf_id lock) xs). before l lock) \<and>
     (if c = 0 then rest = [] \<or> lf_id (hd rest) = lf_id lock \<and> before lock (hd rest)
      else rest \<noteq> [] \<and> lf_id (hd rest) = lf_id lock \<and> c = ovcase (hd rest) lock)"

lemma findoverlap_found:
  assumes "lf_ok lock"
  shows "own_ok (own (lf_id lock) lfs) \<Longrightarrow> \<exists>c xs rest. lf_findoverlap True lock pre lfs = (c, pre @ xs, rest) \<and> found_at lock lfs c xs rest"
proof (induction lfs arbitrary: pre)
  case Nil
  then show ?case by (simp add: found_at_def)
next
  case (Cons lf lfs)
  have tail: "own_ok (own (lf_id lock) lfs)" using Cons.prems by (simp add: own_ok_Cons split: if_splits)
  from Cons.IH [OF tail, of "pre @ [lf]"] obtain c xs rest
    where r: "lf_findoverlap True lock (pre @ [lf]) lfs = (c, pre @ lf # xs, rest)" "found_at lock lfs c xs rest" by auto
  consider "lf_id lf \<noteq> lf_id lock" | "lf_id lf = lf_id lock" "before lf lock"
    | "lf_id lf = lf_id lock" "before lock lf" | "lf_id lf = lf_id lock" "\<not> before lf lock" "\<not> before lock lf" by blast
  then show ?case
  proof cases
    case 1
    then show ?thesis using r by (intro exI [of _ c] exI [of _ "lf # xs"] exI [of _ rest]) (auto simp: found_at_def)
  next
    case 2
    have ok: "lf_ok lf" using Cons.prems 2 by (simp add: own_ok_Cons)
    have "\<not> before lock lf" using 2(2) ok assms lf_ok_hi [of lf] lf_ok_hi [of lock] by (simp add: before_def)
    then have "\<not> (lf_end lock \<noteq> -1 \<and> lf_start lf > lf_end lock)" by (auto simp: before_def lf_hi_def)
    moreover have "ovcase lf lock = 0" using ovcase_iff(1) [OF ok assms] 2 by simp
    ultimately show ?thesis using r 2
      by (intro exI [of _ c] exI [of _ "lf # xs"] exI [of _ rest]) (auto simp: found_at_def)
  next
    case 3
    have ok: "lf_ok lf" using Cons.prems 3 by (simp add: own_ok_Cons)
    then have "lf_end lock \<noteq> -1 \<and> lf_start lf > lf_end lock" using 3(2) lf_ok_hi [of lf]
      by (simp add: before_def lf_hi_def split: if_splits)
    moreover have "ovcase lf lock = 0" using ovcase_iff(1) [OF ok assms] 3 by simp
    ultimately show ?thesis using 3
      by (intro exI [of _ 0] exI [of _ "[]"] exI [of _ "lf # lfs"]) (auto simp: found_at_def)
  next
    case 4
    have ok: "lf_ok lf" using Cons.prems 4 by (simp add: own_ok_Cons)
    then have "ovcase lf lock \<noteq> 0" using ovcase_iff(1) [OF ok assms] 4 by simp
    then show ?thesis using 4
      by (intro exI [of _ "ovcase lf lock"] exI [of _ "[]"] exI [of _ "lf # lfs"]) (auto simp: found_at_def)
  qed
qed

subsection \<open>Replacing a lock by parts of it\<close>

definition parts :: "lockf \<Rightarrow> lockf list \<Rightarrow> bool" where
  "parts f new \<longleftrightarrow>
     own_ok new \<and> (\<forall>l\<in>set new. lf_id l = lf_id f \<and> lf_start f \<le> lf_start l \<and> lf_hi l \<le> lf_hi f)"

lemma parts_own: "parts f new \<Longrightarrow> own o' new = (if lf_id f = o' then new else [])"
  by (auto simp: parts_def own_def filter_id_conv filter_empty_conv)

lemma parts_before: "parts f new \<Longrightarrow> l \<in> set new \<Longrightarrow> before a f \<Longrightarrow> before a l"
  "parts f new \<Longrightarrow> l \<in> set new \<Longrightarrow> before f a \<Longrightarrow> before l a"
  by (fastforce simp: parts_def before_def)+

lemma own_ok_parts:
  assumes ok: "own_ok (P @ f # R)" and p: "parts f new" shows "own_ok (P @ new @ R)"
proof -
  have "own_ok new" "\<forall>a\<in>set P. \<forall>b\<in>set new. before a b" "\<forall>a\<in>set new. \<forall>b\<in>set R. before a b"
    using ok p parts_before [OF p] by (auto simp: own_ok_app own_ok_Cons parts_def)
  then show ?thesis using ok by (simp add: own_ok_app own_ok_Cons ball_Un)
qed

text \<open>
  One list came from another by taking the range of \<open>lock\<close> from its owner and giving the
  owner the types \<open>T\<close> there.
\<close>

definition retyped :: "lockf \<Rightarrow> (int \<Rightarrow> nat \<Rightarrow> bool) \<Rightarrow> lockf list \<Rightarrow> lockf list \<Rightarrow> bool" where
  "retyped lock T ls ls' \<longleftrightarrow>
     (\<forall>o'. o' \<noteq> lf_id lock \<longrightarrow> own o' ls' = own o' ls) \<and> own_ok (own (lf_id lock) ls') \<and>
     (\<forall>i t. hold (own (lf_id lock) ls') i t \<longleftrightarrow> (if covers lock i then T i t else hold (own (lf_id lock) ls) i t))"

abbreviation cleared :: "lockf \<Rightarrow> lockf list \<Rightarrow> lockf list \<Rightarrow> bool" where
  "cleared lock \<equiv> retyped lock (\<lambda>_ _. False)"

lemma retyped_locks_ok: "retyped lock T ls ls' \<Longrightarrow> locks_ok ls \<Longrightarrow> locks_ok ls'"
  unfolding retyped_def locks_ok_def by metis

lemma retyped_holds:
  assumes "retyped lock T ls ls'"
  shows "holds ls' o' i t \<longleftrightarrow> (if o' = lf_id lock \<and> covers lock i then T i t else holds ls o' i t)"
  using assms by (cases "o' = lf_id lock") (auto simp: retyped_def holds_def)

text \<open>A list that is as good as another one outside the range.\<close>

definition trimmed :: "lockf \<Rightarrow> lockf list \<Rightarrow> lockf list \<Rightarrow> bool" where
  "trimmed lock ls ls' \<longleftrightarrow>
     (\<forall>o'. o' \<noteq> lf_id lock \<longrightarrow> own o' ls' = own o' ls) \<and>
     (\<forall>i t. \<not> covers lock i \<longrightarrow> hold (own (lf_id lock) ls') i t = hold (own (lf_id lock) ls) i t)"

lemma trimmed_retyped: "trimmed lock ls ls' \<Longrightarrow> retyped lock T ls' ls'' \<Longrightarrow> retyped lock T ls ls''"
  by (auto simp: trimmed_def retyped_def)

lemma trimmed_refl: "trimmed lock ls ls"
  by (simp add: trimmed_def)

lemma trimmed_trans: "trimmed lock ls ls' \<Longrightarrow> trimmed lock ls' ls'' \<Longrightarrow> trimmed lock ls ls''"
  by (simp add: trimmed_def)

lemma trimmed_parts:
  assumes "parts f new" "lf_id f = lf_id lock" "\<And>i t. \<not> covers lock i \<Longrightarrow> hold new i t = hold [f] i t"
  shows "trimmed lock (P @ f # R) (P @ new @ R)"
  using assms by (auto simp: trimmed_def parts_own)

lemma retypedI:
  assumes "trimmed lock ls ls'" "own_ok (own (lf_id lock) ls')" "\<And>i t. covers lock i \<Longrightarrow> hold (own (lf_id lock) ls') i t = T i t"
  shows "retyped lock T ls ls'"
  using assms by (auto simp: trimmed_def retyped_def)

text \<open>Locks of the owner that lie wholly on one side of the range hold none of it.\<close>

lemma hold_outside:
  assumes "\<forall>l\<in>set P. before l lock" "\<forall>l\<in>set R. before lock l" "covers lock i"
  shows "hold (P @ R) i t = False"
  using assms before_not_cover by (auto simp: hold_def before_def covers_def)

subsection \<open>Changed locks\<close>

lemma hi_simps [simp]:
  "lf_hi (l\<lparr>lf_blkhd := x\<rparr>) = lf_hi l" "lf_hi (l\<lparr>lf_start := s\<rparr>) = lf_hi l" "lf_hi (l\<lparr>lf_type := t\<rparr>) = lf_hi l"
  "lf_hi (l\<lparr>lf_addr := a\<rparr>) = lf_hi l" "e \<noteq> -1 \<Longrightarrow> lf_hi (l\<lparr>lf_end := e\<rparr>) = e"
  by (simp_all add: lf_hi_def)

lemma ok_simps [simp]:
  "lf_ok (l\<lparr>lf_blkhd := x\<rparr>) = lf_ok l" "lf_ok (l\<lparr>lf_type := t\<rparr>) = lf_ok l" "lf_ok (l\<lparr>lf_addr := a\<rparr>) = lf_ok l"
  "covers (l\<lparr>lf_blkhd := x\<rparr>) = covers l" "covers (l\<lparr>lf_type := t\<rparr>) = covers l" "covers (l\<lparr>lf_addr := a\<rparr>) = covers l"
  by (simp_all add: lf_ok_def covers_def fun_eq_iff)

text \<open>The part behind the lock, and the part before it.\<close>

lemma part_behind:
  assumes f: "lf_ok f" and l: "lf_ok lock" and h: "lf_hi lock < lf_hi f"
  defines "n \<equiv> off_wrap (lf_end lock + 1)"
  shows "n = lf_hi lock + 1" "lf_ok (f\<lparr>lf_start := n\<rparr>)" "before lock (f\<lparr>lf_start := n\<rparr>)"
    "lf_start f \<le> lf_start lock + 1 \<Longrightarrow> lf_start f \<le> n"
proof -
  have e: "lf_end lock = lf_hi lock" "lf_hi lock < OFF_MAX" "0 \<le> lf_hi lock" "lf_start lock \<le> lf_hi lock"
    using h lf_ok_hi [OF f] lf_ok_hi [OF l] lf_end_hi [of lock] by linarith+
  show n: "n = lf_hi lock + 1" unfolding n_def e(1) using e(2,3) by (intro off_wrap_next) simp_all
  then show "before lock (f\<lparr>lf_start := n\<rparr>)" "lf_start f \<le> lf_start lock + 1 \<Longrightarrow> lf_start f \<le> n" using e(4) by (simp_all add: before_def)
  have "lf_end f = -1 \<or> lf_end f = lf_hi f \<and> lf_end f < OFF_MAX" using f by (auto simp: lf_ok_def lf_hi_def)
  then show "lf_ok (f\<lparr>lf_start := n\<rparr>)" unfolding lf_ok_def using n e(2,3) h by auto
qed

lemma part_front:
  assumes f: "lf_ok f" and l: "lf_ok lock" and s: "lf_start f < lf_start lock"
  shows "lf_ok (f\<lparr>lf_end := lf_start lock - 1\<rparr>)" "lf_hi (f\<lparr>lf_end := lf_start lock - 1\<rparr>) = lf_start lock - 1"
    "before (f\<lparr>lf_end := lf_start lock - 1\<rparr>) lock"
proof -
  have s0: "0 \<le> lf_start f" "lf_start lock \<le> OFF_MAX" using f l by (simp_all add: lf_ok_def)
  show hi: "lf_hi (f\<lparr>lf_end := lf_start lock - 1\<rparr>) = lf_start lock - 1" using s0 s by simp
  then show "before (f\<lparr>lf_end := lf_start lock - 1\<rparr>) lock" by (simp add: before_def)
  show "lf_ok (f\<lparr>lf_end := lf_start lock - 1\<rparr>)" using s0 s by (simp add: lf_ok_def)
qed

text \<open>Copies of a lock: same owner, same type, other bounds.\<close>

definition like :: "lockf \<Rightarrow> lockf \<Rightarrow> bool" where
  "like f g \<longleftrightarrow> lf_id g = lf_id f \<and> lf_type g = lf_type f"

definition behind :: "lockf \<Rightarrow> lockf \<Rightarrow> lockf \<Rightarrow> bool" where
  "behind lock f g \<longleftrightarrow> like f g \<and> lf_ok g \<and> lf_start g = lf_hi lock + 1 \<and> lf_hi g = lf_hi f"

definition front :: "lockf \<Rightarrow> lockf \<Rightarrow> lockf \<Rightarrow> bool" where
  "front lock f g \<longleftrightarrow> like f g \<and> lf_ok g \<and> lf_start g = lf_start f \<and> lf_hi g = lf_start lock - 1"

lemma behind_update:
  assumes "lf_ok f" "lf_ok lock" "lf_hi lock < lf_hi f"
  shows "behind lock f (f\<lparr>lf_blkhd := x, lf_start := off_wrap (lf_end lock + 1)\<rparr>)"
    "behind lock f (f\<lparr>lf_start := off_wrap (lf_end lock + 1), lf_blkhd := x\<rparr>)"
    "behind lock f (f\<lparr>lf_blkhd := x, lf_addr := a, lf_start := off_wrap (lf_end lock + 1), lf_blkhd := y\<rparr>)"
    "behind lock f (f\<lparr>lf_addr := a, lf_start := off_wrap (lf_end lock + 1), lf_blkhd := y\<rparr>)"
  using part_behind(1,2) [OF assms] by (simp_all add: behind_def like_def lf_ok_def)

lemma front_update:
  assumes "lf_ok f" "lf_ok lock" "lf_start f < lf_start lock"
  shows "front lock f (f\<lparr>lf_blkhd := x, lf_end := lf_start lock - 1\<rparr>)"
    "front lock f (f\<lparr>lf_end := lf_start lock - 1, lf_blkhd := x\<rparr>)"
  using part_front(1,2) [OF assms] assms by (auto simp: front_def like_def lf_ok_def lf_hi_def)

lemma parts_lists:
  assumes f: "lf_ok f" and l: "lf_ok lock"
  shows "parts f []"
    "behind lock f g \<Longrightarrow> lf_start f \<le> lf_hi lock + 1 \<Longrightarrow> parts f [g]"
    "front lock f h \<Longrightarrow> lf_start lock - 1 \<le> lf_hi f \<Longrightarrow> parts f [h]"
    "front lock f h \<Longrightarrow> behind lock f g \<Longrightarrow> lf_start f \<le> lf_start lock \<Longrightarrow> lf_hi lock \<le> lf_hi f \<Longrightarrow> parts f [h, g]"
  using lf_ok_hi [OF f] lf_ok_hi [OF l] by (auto simp: parts_def own_ok_def behind_def front_def like_def before_def)

text \<open>What is left of a lock without the range of another one.\<close>

definition cut :: "lockf \<Rightarrow> lockf \<Rightarrow> lockf list \<Rightarrow> bool" where
  "cut lock f new \<longleftrightarrow> parts f new \<and> (\<forall>i t. hold new i t \<longleftrightarrow> covers f i \<and> lf_type f = t \<and> \<not> covers lock i)"

lemma cut_whole:
  "lf_ok f \<Longrightarrow> lf_ok lock \<Longrightarrow> lf_start lock \<le> lf_start f \<Longrightarrow> lf_hi f \<le> lf_hi lock \<Longrightarrow> cut lock f []"
  by (simp add: cut_def parts_lists(1) covers_def)

lemma cut_behind:
  "lf_ok f \<Longrightarrow> lf_ok lock \<Longrightarrow> behind lock f g \<Longrightarrow> lf_start lock \<le> lf_start f \<Longrightarrow> lf_start f \<le> lf_hi lock \<Longrightarrow> cut lock f [g]"
  using parts_lists(2) [of f lock g] by (auto simp: cut_def covers_def behind_def like_def)

lemma cut_front:
  "lf_ok f \<Longrightarrow> lf_ok lock \<Longrightarrow> front lock f h \<Longrightarrow> lf_start lock \<le> lf_hi f \<Longrightarrow> lf_hi f \<le> lf_hi lock \<Longrightarrow> cut lock f [h]"
  using parts_lists(3) [of f lock h] by (auto simp: cut_def covers_def front_def like_def)

lemma cut_split:
  assumes "lf_ok f" "lf_ok lock" "front lock f h" "behind lock f g" "lf_start f \<le> lf_start lock" "lf_hi lock \<le> lf_hi f"
  shows "cut lock f [h, g]"
proof -
  have "lf_start lock \<le> lf_hi lock" using lf_ok_hi [OF assms(2)] by simp
  then show ?thesis using parts_lists(4) [OF assms] assms(3-6) by (auto simp: cut_def covers_def behind_def front_def like_def)
qed

lemma cut_parts: "cut lock f new \<Longrightarrow> parts f new"
  by (simp add: cut_def)

lemma trimmed_cut: "cut lock f new \<Longrightarrow> lf_id f = lf_id lock \<Longrightarrow> trimmed lock (P @ f # R) (P @ new @ R)"
  by (rule trimmed_parts) (auto simp: cut_def)

lemma own_ok_cut:
  assumes "own_ok (own o' (P @ f # R))" "lf_id f = o'" "cut lock f new"
  shows "own_ok (own o' P @ new @ own o' R)"
  using own_ok_parts [of "own o' P" f "own o' R" new] assms cut_parts by simp

text \<open>The end of a walk: the lock found covers the rest of the range.\<close>

lemma above_rest:
  assumes "own_ok (own (lf_id lock) (P @ f # R))" "lf_id f = lf_id lock" "lf_hi lock \<le> lf_hi f"
  shows "\<forall>l\<in>set (own (lf_id lock) R). before lock l"
  using assms by (auto simp: own_ok_app own_ok_Cons before_def)

lemma finish:
  assumes ok: "own_ok (own (lf_id lock) (P @ f # R))" and f: "lf_id f = lf_id lock"
    and P: "\<forall>l\<in>set (own (lf_id lock) P). before l lock" and hi: "lf_hi lock \<le> lf_hi f" and c: "cut lock f new"
  shows "cleared lock (P @ f # R) (P @ new @ R)"
proof (rule retypedI [OF trimmed_cut [OF c f]])
  have own: "own (lf_id lock) (P @ new @ R) = own (lf_id lock) P @ new @ own (lf_id lock) R" using parts_own [OF cut_parts [OF c]] f by simp
  show "own_ok (own (lf_id lock) (P @ new @ R))" unfolding own by (rule own_ok_cut [OF ok f c])
  fix i t assume i: "covers lock i"
  show "hold (own (lf_id lock) (P @ new @ R)) i t = False"
    unfolding own using hold_outside [OF P above_rest [OF ok f hi] i, of t] c i by (simp add: cut_def)
qed

lemma nothing_there:
  assumes ok: "own_ok (own (lf_id lock) (P @ R))" and R: "R = [] \<or> lf_id (hd R) = lf_id lock \<and> before lock (hd R)"
  shows "\<forall>l\<in>set (own (lf_id lock) R). before lock l"
proof (cases R)
  case (Cons r R')
  then have r: "lf_id r = lf_id lock" "before lock r" using R by simp_all
  then have "lf_ok r" "\<forall>l\<in>set (own (lf_id lock) R'). before r l" using ok Cons by (auto simp: own_ok_app own_ok_Cons)
  then show ?thesis using r Cons before_trans by fastforce
qed simp

subsection \<open>Clearing a range\<close>

text \<open>One round of a walk: it finds nothing, or a first overlap \<open>f\<close>.\<close>

lemma walk_cases:
  assumes ok: "own_ok (own (lf_id lock) (pre @ lfs))" and l: "lf_ok lock"
  obtains (none) xs rest where "lf_findoverlap True lock pre' lfs = (0, pre' @ xs, rest)" "lfs = xs @ rest"
      "\<forall>l\<in>set (own (lf_id lock) xs). before l lock" "\<forall>l\<in>set (own (lf_id lock) rest). before lock l"
  | (found) xs f R where "lf_findoverlap True lock pre' lfs = (ovcase f lock, pre' @ xs, f # R)" "lfs = xs @ f # R"
      "\<forall>l\<in>set (own (lf_id lock) xs). before l lock" "lf_id f = lf_id lock" "lf_ok f" "ovcase f lock \<in> {1, 2, 3, 4, 5}"
proof -
  have "own_ok (own (lf_id lock) lfs)" using ok by (simp add: own_ok_app)
  from findoverlap_found [OF l this, of pre'] obtain c xs rest
    where fo: "lf_findoverlap True lock pre' lfs = (c, pre' @ xs, rest)" and fa: "found_at lock lfs c xs rest" by blast
  show ?thesis
  proof (cases "c = 0")
    case True
    then have h: "rest = [] \<or> lf_id (hd rest) = lf_id lock \<and> before lock (hd rest)" "lfs = xs @ rest" using fa by (simp_all add: found_at_def)
    have "own_ok (own (lf_id lock) ((pre @ xs) @ rest))" using ok h(2) by simp
    from none [OF _ h(2) _ nothing_there [OF this h(1)]] fo fa True show ?thesis by (simp add: found_at_def)
  next
    case False
    then obtain f R where rest: "rest = f # R" and f: "lf_id f = lf_id lock" "c = ovcase f lock" "lfs = xs @ f # R"
      using fa by (cases rest) (auto simp: found_at_def)
    have fk: "lf_ok f" using ok f by (simp add: own_ok_app own_ok_Cons)
    have "c \<in> {1, 2, 3, 4, 5}" using False ovcase_iff(7) [OF fk l] ovcase_le [of f lock] f(2) by auto
    then show ?thesis using found [of f xs R] fo fa f fk rest by (simp add: found_at_def)
  qed
qed

lemma low_simps [simp]: "ls_low (fst (lf_wakelock st f)) = ls_low st" "ls_low (lf_free st f) = ls_low st"
  by (simp_all add: lf_wakelock_def lf_free_def)

text \<open>
  What \<^verbatim>\<open>lf_split\<close> makes of a lock that starts before the range and contains it, when it does not
  have to wait for memory.
\<close>

lemma split_cut:
  assumes f: "lf_ok f" and l: "lf_ok lock" and s: "lf_start f < lf_start lock" and h: "lf_hi lock \<le> lf_hi f"
    and low: "\<not> ls_low st"
  shows "\<exists>st' after. lf_split st f lock rest = (st', After (f\<lparr>lf_end := lf_start lock - 1\<rparr>) (after @ rest)) \<and>
    cut lock f (f\<lparr>lf_end := lf_start lock - 1, lf_blkhd := []\<rparr> # after) \<and> (\<forall>g\<in>set after. behind lock f g)"
proof -
  note fr = front_update(2) [OF f l s, of "[]"]
  show ?thesis
  proof (cases "lf_end f = lf_end lock")
    case True
    then have "lf_hi lock = lf_hi f" by (simp add: lf_hi_def)
    then have "cut lock f [f\<lparr>lf_end := lf_start lock - 1, lf_blkhd := []\<rparr>]"
      using cut_front [OF f l fr] lf_ok_hi [OF l] by simp
    then show ?thesis using True s by (intro exI [of _ st] exI [of _ "[]"]) (simp add: lf_split_def)
  next
    case False
    then have lt: "lf_hi lock < lf_hi f" using h lf_ok_hi [OF f] lf_ok_hi [OF l] lf_end_hi [of f] lf_end_hi [of lock] by fastforce
    note g = behind_update(4) [OF f l lt, of "[]" "ls_next st"]
    from cut_split [OF f l fr g] s h g show ?thesis using False low
      by (intro exI [of _ "fst (lf_split st f lock rest)"]
        exI [of _ "[f\<lparr>lf_addr := ls_next st, lf_start := off_wrap (lf_end lock + 1), lf_blkhd := []\<rparr>]"])
        (simp add: lf_split_def lf_alloc_def Let_def)
  qed
qed

lemma cut_wake: "cut lock (f\<lparr>lf_blkhd := x\<rparr>) new = cut lock f new" "behind lock (f\<lparr>lf_blkhd := x\<rparr>) = behind lock f"
  by (auto simp: cut_def parts_def behind_def like_def fun_eq_iff)

lemma end_blkhd_swap: "f\<lparr>lf_end := e, lf_blkhd := x\<rparr> = f\<lparr>lf_blkhd := x, lf_end := e\<rparr>"
  by simp

lemma clear_loop_post:
  "own_ok (own (lf_id lock) (pre @ lfs)) \<Longrightarrow> lf_ok lock \<Longrightarrow> \<forall>l\<in>set (own (lf_id lock) pre). before l lock \<Longrightarrow> \<not> ls_low st \<Longrightarrow>
   \<exists>st'. clear_loop st lock pre lfs = LDone st' \<and> cleared lock (pre @ lfs) (ls_locks st')"
proof (induction "length lfs" arbitrary: lfs pre st rule: less_induct)
  case less
  note ok = less.prems(1) and l = less.prems(2)
  from ok l show ?case
  proof (cases rule: walk_cases [where pre' = pre])
    case (none xs rest)
    then have P: "\<forall>l\<in>set (own (lf_id lock) (pre @ xs)). before l lock" using less.prems(3) by auto
    have "cleared lock (pre @ lfs) (pre @ lfs)"
      by (rule retypedI [OF trimmed_refl ok]) (use hold_outside [OF P none(4)] none(2) in simp)
    then show ?thesis using none(1,2) by (cases rest) (simp_all add: clear_loop.simps [of st lock pre])
  next
    case (found xs f R)
    let ?P = "pre @ xs" and ?f = "f\<lparr>lf_blkhd := []\<rparr>" and ?st = "fst (lf_wakelock st f)"
    have P: "\<forall>l\<in>set (own (lf_id lock) ?P). before l lock" using found(3) less.prems(3) by auto
    have lfs: "pre @ lfs = ?P @ f # R" and okf: "own_ok (own (lf_id lock) (?P @ f # R))" using ok found(2) by simp_all
    note iff = ovcase_iff [OF found(5) l] and fin = finish [OF okf found(4) P]
    note unfold = clear_loop.simps [of st lock pre lfs] found(1) lf_wakelock_def
    have len: "length R < length lfs" using found(2) by simp
    have bounds: "lf_start lock \<le> lf_hi lock" "lf_start f \<le> lf_hi f" using lf_ok_hi [OF found(5)] lf_ok_hi [OF l] by simp_all
    consider "ovcase f lock = 1" | "ovcase f lock = 2" "lf_start f = lf_start lock" | "ovcase f lock = 2" "lf_start f \<noteq> lf_start lock"
      | "ovcase f lock = 3" | "ovcase f lock = 4" | "ovcase f lock = 5" using found(6) by auto
    then show ?thesis
    proof cases
      case 1
      then have c: "cut lock f []" "lf_hi lock \<le> lf_hi f" using cut_whole [OF found(5) l] iff(2) by simp_all
      have "cleared lock (?P @ f # R) (?P @ [] @ R)" by (rule fin [OF c(2,1)])
      then show ?thesis unfolding lfs using 1 by (simp add: unfold)
    next
      case 2
      then have hi: "lf_hi lock < lf_hi f" using iff(3) by auto
      note g = behind_update(1) [OF found(5) l hi, of "[]"]
      have "cleared lock (?P @ f # R) (?P @ [?f\<lparr>lf_start := off_wrap (lf_end lock + 1)\<rparr>] @ R)"
        by (rule fin [OF less_imp_le [OF hi] cut_behind [OF found(5) l g]]) (use 2 bounds in simp_all)
      then show ?thesis unfolding lfs using 2 by (simp add: unfold)
    next
      case 3
      then have lt: "lf_start f < lf_start lock" "lf_hi lock \<le> lf_hi f" using iff(3) by auto
      from split_cut [of ?f lock ?st R] found(5) l lt less.prems(4) obtain st' after where
        s: "lf_split ?st ?f lock R = (st', After (?f\<lparr>lf_end := lf_start lock - 1\<rparr>) (after @ R))"
        "cut lock f (?f\<lparr>lf_end := lf_start lock - 1, lf_blkhd := []\<rparr> # after)" by (auto simp: cut_wake)
      have "cleared lock (?P @ f # R) (?P @ (?f\<lparr>lf_end := lf_start lock - 1\<rparr> # after) @ R)"
        using fin [OF lt(2) s(2)] by (simp add: end_blkhd_swap)
      then show ?thesis unfolding lfs using 3 s(1) by (simp add: unfold)
    next
      case 4
      then have c: "cut lock f []" using cut_whole [OF found(5) l] iff(4) by simp
      have "own_ok (own (lf_id lock) (?P @ R))" using own_ok_cut [OF okf found(4) c] by simp
      from less.hyps [OF len this l P, of "lf_free ?st ?f"] less.prems(4) obtain st' where
        "clear_loop (lf_free ?st ?f) lock ?P R = LDone st'" "cleared lock (?P @ R) (ls_locks st')" by auto
      then show ?thesis unfolding lfs using 4 trimmed_retyped [OF trimmed_cut [OF c found(4), of ?P R]] by (simp add: unfold)
    next
      case 5
      then have lt: "lf_start f < lf_start lock" "lf_hi f < lf_hi lock" "lf_start lock \<le> lf_hi f" using iff(5) by auto
      let ?h = "?f\<lparr>lf_end := lf_start lock - 1\<rparr>"
      note h = front_update(1) [OF found(5) l lt(1), of "[]"]
      have c: "cut lock f [?h]" using cut_front [OF found(5) l h] lt by simp
      have ok': "own_ok (own (lf_id lock) ((?P @ [?h]) @ R))" using own_ok_cut [OF okf found(4) c] found(4) by simp
      have P': "\<forall>l\<in>set (own (lf_id lock) (?P @ [?h])). before l lock" using P h by (auto simp: front_def before_def)
      from less.hyps [OF len ok' l P', of ?st] less.prems(4) obtain st' where
        "clear_loop ?st lock (?P @ [?h]) R = LDone st'" "cleared lock ((?P @ [?h]) @ R) (ls_locks st')" by auto
      then show ?thesis unfolding lfs using 5 trimmed_retyped [OF trimmed_cut [OF c found(4), of ?P R]] by (simp add: unfold)
    next
      case 6
      then have lt: "lf_start lock < lf_start f" "lf_start f \<le> lf_hi lock" "lf_hi lock < lf_hi f" using iff(6) by auto
      note g = behind_update(1) [OF found(5) l lt(3), of "[]"]
      have "cleared lock (?P @ f # R) (?P @ [?f\<lparr>lf_start := off_wrap (lf_end lock + 1)\<rparr>] @ R)"
        by (rule fin [OF less_imp_le [OF lt(3)] cut_behind [OF found(5) l g]]) (use lt in simp_all)
      then show ?thesis unfolding lfs using 6 by (simp add: unfold)
    qed
  qed
qed

lemma lf_clearlock_post:
  assumes "locks_ok (ls_locks st)" "lf_ok lock" "\<not> ls_low st"
  shows "\<exists>st'. lf_clearlock st lock = LDone st' \<and> cleared lock (ls_locks st) (ls_locks st')"
  using clear_loop_post [of lock "[]" "ls_locks st" st] assms
  by (auto simp: lf_clearlock_def locks_ok_def retyped_def own_ok_def)

end
