(* ===== verification/Lockf_Set.thy ===== *)
theory Lockf_Set
  imports Lockf_Inv
begin

text \<open>
  Setting a range: the owner holds it with the type asked for, and all else is as before.
\<close>

definition typed :: "lockf \<Rightarrow> int \<Rightarrow> nat \<Rightarrow> bool" where
  "typed lock i t \<longleftrightarrow> t = lf_type lock"

lemma blkhd_irrelevant:
  "retyped (lock\<lparr>lf_blkhd := x\<rparr>) T = retyped lock T" "typed (lock\<lparr>lf_blkhd := x\<rparr>) = typed lock"
  "before (lock\<lparr>lf_blkhd := x\<rparr>) = before lock" "before l (lock\<lparr>lf_blkhd := x\<rparr>) = before l lock"
  by (auto simp: retyped_def typed_def before_def fun_eq_iff)

lemma insert_lock:
  assumes t: "trimmed lock ls (A @ B)" and ok: "own_ok (own (lf_id lock) (A @ B))" and l: "lf_ok lock"
    and A: "\<forall>l\<in>set (own (lf_id lock) A). before l lock" and B: "\<forall>l\<in>set (own (lf_id lock) B). before lock l"
  shows "retyped lock (typed lock) ls (A @ lock # B)"
proof (rule retypedI)
  show "trimmed lock ls (A @ lock # B)" using t by (auto simp: trimmed_def)
  show "own_ok (own (lf_id lock) (A @ lock # B))" using ok l A B by (auto simp: own_ok_app own_ok_Cons)
  fix i t assume c: "covers lock i"
  then show "hold (own (lf_id lock) (A @ lock # B)) i t = typed lock i t"
    using hold_outside [OF A B c, of t] by (auto simp: typed_def)
qed

text \<open>The lock found keeps its place and takes the new type.\<close>

lemma retype_lock:
  assumes ok: "own_ok (own (lf_id lock) (P @ f # R))" and f: "lf_id f = lf_id lock"
    and P: "\<forall>l\<in>set (own (lf_id lock) P). before l lock" and s: "lf_start f \<le> lf_start lock" and h: "lf_hi lock \<le> lf_hi f"
    and g: "lf_id g = lf_id f" "lf_start g = lf_start f" "lf_hi g = lf_hi f" "lf_ok g" "lf_type g = lf_type lock"
    and t: "lf_type f = lf_type lock \<or> (\<forall>i. covers f i \<longrightarrow> covers lock i)"
  shows "retyped lock (typed lock) (P @ f # R) (P @ g # R)"
proof -
  have p: "parts f [g]" using g by (simp add: parts_def own_ok_def)
  have c: "covers g = covers f" using g by (auto simp: covers_def fun_eq_iff)
  have "retyped lock (typed lock) (P @ f # R) (P @ [g] @ R)"
  proof (rule retypedI)
    show "trimmed lock (P @ f # R) (P @ [g] @ R)" by (rule trimmed_parts [OF p f]) (use t c g in auto)
    show "own_ok (own (lf_id lock) (P @ [g] @ R))" using own_ok_parts [OF _ p] ok f g(1) by simp
    fix i ty assume i: "covers lock i"
    then have "covers g i" using c s h by (auto simp: covers_def)
    then show "hold (own (lf_id lock) (P @ [g] @ R)) i ty = typed lock i ty"
      using hold_outside [OF P above_rest [OF ok f h] i, of ty] f g by (auto simp: typed_def)
  qed
  then show ?thesis by simp
qed

lemma behind_before: "behind lock f g \<Longrightarrow> before lock g"
  by (simp add: behind_def before_def)

lemma front_before: "front lock f g \<Longrightarrow> before g lock"
  by (simp add: front_def before_def)

lemma own_like: "like f g \<Longrightarrow> lf_id g = lf_id f"
  by (simp add: like_def)

lemma take_blocked_eq: "\<exists>st' x. take_blocked st lock f = (st', lock\<lparr>lf_blkhd := x\<rparr>)"
  by (auto simp: take_blocked_def)

text \<open>The walk after the lock went into the list.\<close>

lemma set_linked_post:
  "lf_ok lock \<Longrightarrow> own_ok (own (lf_id lock) pre) \<Longrightarrow> \<forall>l\<in>set (own (lf_id lock) pre). before l lock \<Longrightarrow> own (lf_id lock) mid = [] \<Longrightarrow>
   own_ok (own (lf_id lock) lfs) \<Longrightarrow> \<forall>l\<in>set (own (lf_id lock) lfs). lf_start lock < lf_start l \<Longrightarrow>
   \<exists>st'. set_loop st lock False pre mid lfs = LDone st' \<and> retyped lock (typed lock) (pre @ mid @ lfs) (ls_locks st')"
proof (induction "length lfs" arbitrary: lfs mid st lock rule: less_induct)
  case less
  note l = less.prems(1) and pre = less.prems(2,3) and mid = less.prems(4) and ok = less.prems(5) and up = less.prems(6)
  have no: "own (lf_id lock) xs = []" if "\<forall>l\<in>set (own (lf_id lock) xs). before l lock" "set xs \<subseteq> set lfs" for xs
  proof (rule ccontr)
    assume "own (lf_id lock) xs \<noteq> []"
    then obtain a where a: "a \<in> set (own (lf_id lock) xs)" by (cases "own (lf_id lock) xs") auto
    then have "a \<in> set (own (lf_id lock) lfs)" using that(2) by (auto simp: own_def)
    then have "lf_start lock < lf_start a" "lf_ok a" using up ok by (auto simp: own_ok_def)
    moreover have "lf_hi a < lf_start lock" using a that(1) by (simp add: before_def)
    ultimately show False using lf_ok_hi [of a] by auto
  qed
  have ord: "before a b" if "a \<in> set (own (lf_id lock) pre)" "b \<in> set (own (lf_id lock) lfs)" for a b
    using pre(2) up that by (force simp: before_def)
  have "own_ok (own (lf_id lock) ([] @ lfs))" using ok by simp
  from this l show ?case
  proof (cases rule: walk_cases [where pre' = mid])
    case (none xs rest)
    have xs: "own (lf_id lock) xs = []" using no [OF none(3)] none(2) by simp
    have "retyped lock (typed lock) (pre @ mid @ lfs) (pre @ lock # (mid @ xs) @ rest)"
      using xs mid pre ok none(2,4) l ord
      by (intro insert_lock) (auto simp: trimmed_refl own_ok_app)
    then show ?thesis using none(1) by (simp add: set_loop.simps [of st lock])
  next
    case (found xs f R)
    have xs: "own (lf_id lock) xs = []" using no [OF found(3)] found(2) by auto
    have st: "lf_start lock < lf_start f" using up found(2,4) by simp
    note iff = ovcase_iff [OF found(5) l]
    have okf: "own_ok (own (lf_id lock) ((pre @ mid @ xs) @ f # R))"
      using pre ok found(2,4) xs mid ord by (auto simp: own_ok_app)
    have len: "length R < length lfs" using found(2) by simp
    have eq: "pre @ mid @ lfs = (pre @ mid @ xs) @ f # R" using found(2) by simp
    consider "ovcase f lock = 3" | "ovcase f lock = 5" using found(6) st iff(2,3,5) by auto
    then show ?thesis
    proof cases
      case 1
      then have c: "cut lock f []" using cut_whole [OF found(5) l] iff(4) by simp
      have okR: "own_ok (own (lf_id lock) R)" "\<forall>l\<in>set (own (lf_id lock) R). lf_start lock < lf_start l"
        using ok up found(2,4) by (auto simp: own_ok_app own_ok_Cons)
      have IH: "\<exists>st'. set_loop st1 (lock\<lparr>lf_blkhd := x\<rparr>) False pre (mid @ xs) R = LDone st' \<and>
        retyped lock (typed lock) (pre @ (mid @ xs) @ R) (ls_locks st')" for st1 x
        using less.hyps [OF len, of "lock\<lparr>lf_blkhd := x\<rparr>" "mid @ xs" st1] l pre mid xs okR by (simp add: blkhd_irrelevant)
      note tr = trimmed_retyped [OF trimmed_cut [OF c found(4), of "pre @ mid @ xs" R], of "typed lock"]
      obtain st1 x where t: "take_blocked st lock f = (st1, lock\<lparr>lf_blkhd := x\<rparr>)" using take_blocked_eq by blast
      show ?thesis unfolding eq
        using 1 IH [of "lf_free (fst (lf_wakelock st f)) f" "lf_blkhd lock"] IH [of "lf_free st1 f" x] tr
        by (simp add: set_loop.simps [of st lock] found(1) t) blast
    next
      case 2
      then have lt: "lf_start f \<le> lf_hi lock" "lf_hi lock < lf_hi f" using iff(6) by auto
      let ?g = "f\<lparr>lf_start := off_wrap (lf_end lock + 1), lf_blkhd := []\<rparr>"
      note g = behind_update(2) [OF found(5) l lt(2), of "[]"]
      have c: "cut lock f [?g]" by (rule cut_behind [OF found(5) l g]) (use st lt in simp_all)
      have "retyped lock (typed lock) ((pre @ mid @ xs) @ f # R) (pre @ lock # (mid @ xs @ [?g] @ R))"
      proof (rule insert_lock [OF _ _ l pre(2)])
        show "trimmed lock ((pre @ mid @ xs) @ f # R) (pre @ mid @ xs @ [?g] @ R)" using trimmed_cut [OF c found(4), of "pre @ mid @ xs" R] by simp
        show "own_ok (own (lf_id lock) (pre @ mid @ xs @ [?g] @ R))" using own_ok_cut [OF okf found(4) c] found(4) mid xs by simp
        show "\<forall>l\<in>set (own (lf_id lock) (mid @ xs @ [?g] @ R)). before lock l"
          using above_rest [OF okf found(4)] lt behind_before [OF g] mid xs by auto
      qed
      then show ?thesis unfolding eq using 2 by (simp add: set_loop.simps [of st lock] found(1) lf_wakelock_def)
    qed
  qed
qed

text \<open>The lock goes between the parts that remain of the lock found.\<close>

lemma place_lock:
  assumes ok: "own_ok (own (lf_id lock) (P @ f # R))" and f: "lf_id f = lf_id lock" and l: "lf_ok lock"
    and P: "\<forall>l\<in>set (own (lf_id lock) P). before l lock" and hi: "lf_hi lock \<le> lf_hi f" and c: "cut lock f (A @ B)"
    and A: "\<forall>l\<in>set A. before l lock" and B: "\<forall>l\<in>set B. before lock l"
  shows "retyped lock (typed lock) (P @ f # R) (P @ A @ lock # B @ R)"
proof -
  have own: "own (lf_id lock) ((P @ A) @ B @ R) = own (lf_id lock) P @ (A @ B) @ own (lf_id lock) R"
    using parts_own [OF cut_parts [OF c]] f by simp
  have "retyped lock (typed lock) (P @ f # R) ((P @ A) @ lock # B @ R)"
  proof (rule insert_lock [OF _ _ l])
    show "trimmed lock (P @ f # R) ((P @ A) @ B @ R)" using trimmed_cut [OF c f, of P R] by simp
    show "own_ok (own (lf_id lock) ((P @ A) @ B @ R))" unfolding own by (rule own_ok_cut [OF ok f c])
    show "\<forall>l\<in>set (own (lf_id lock) (P @ A)). before l lock" using P A by (auto simp: own_def)
    show "\<forall>l\<in>set (own (lf_id lock) (B @ R)). before lock l" using B above_rest [OF ok f hi] by (auto simp: own_def)
  qed
  then show ?thesis by simp
qed

text \<open>The walk goes on behind the lock found, which reaches into the range.\<close>

lemma set_link_on:
  assumes ok: "own_ok (own (lf_id lock) (P @ f # R))" and f: "lf_id f = lf_id lock" and l: "lf_ok lock"
    and P: "\<forall>l\<in>set (own (lf_id lock) P). before l lock" and c: "cut lock f A"
    and A: "\<forall>l\<in>set A. before l lock" and hi: "lf_start lock \<le> lf_hi f"
  shows "\<exists>st'. set_loop st (lock\<lparr>lf_blkhd := x\<rparr>) False (P @ A) [] R = LDone st' \<and> retyped lock (typed lock) (P @ f # R) (ls_locks st')"
proof -
  let ?l = "lock\<lparr>lf_blkhd := x\<rparr>"
  have own: "own (lf_id lock) (P @ A @ R) = own (lf_id lock) P @ A @ own (lf_id lock) R"
    using parts_own [OF cut_parts [OF c]] f by simp
  have all: "own_ok (own (lf_id lock) (P @ A @ R))" unfolding own by (rule own_ok_cut [OF ok f c])
  have "\<exists>st'. set_loop st ?l False (P @ A) [] R = LDone st' \<and> retyped ?l (typed ?l) ((P @ A) @ [] @ R) (ls_locks st')"
  proof (rule set_linked_post)
    show "own_ok (own (lf_id ?l) (P @ A))" "own_ok (own (lf_id ?l) R)" using all by (auto simp: own_ok_app)
    show "\<forall>l\<in>set (own (lf_id ?l) (P @ A)). before l ?l" using P A by (auto simp: own_def blkhd_irrelevant)
    show "\<forall>l\<in>set (own (lf_id ?l) R). lf_start ?l < lf_start l" using ok f hi by (auto simp: own_ok_app own_ok_Cons before_def)
  qed (use l in simp_all)
  then show ?thesis using trimmed_retyped [OF trimmed_cut [OF c f, of P R], of "typed lock"] by (auto simp: blkhd_irrelevant)
qed

lemma set_loop_post:
  assumes ok: "own_ok (own (lf_id lock) lfs)" and l: "lf_ok lock" and low: "\<not> ls_low st"
  shows "\<exists>st'. set_loop st lock True [] [] lfs = LDone st' \<and> retyped lock (typed lock) lfs (ls_locks st')"
proof -
  have "own_ok (own (lf_id lock) ([] @ lfs))" using ok by simp
  from this l show ?thesis
  proof (cases rule: walk_cases [where pre' = "[]"])
    case (none xs rest)
    have "retyped lock (typed lock) lfs (xs @ lock # rest)"
      by (rule insert_lock [OF _ _ l none(3,4)]) (use none(2) ok trimmed_refl in simp_all)
    then show ?thesis using none(1) by (simp add: set_loop.simps [of st lock])
  next
    case (found P f R)
    note lfs = found(2) and P = found(3) and f = found(4,5) and iff = ovcase_iff [OF found(5) l]
    note unfold = set_loop.simps [of st lock] found(1) [unfolded found(2)] lf_wakelock_def
    have okf: "own_ok (own (lf_id lock) (P @ f # R))" using ok lfs by simp
    note place = place_lock [OF okf f(1) l P] and on = set_link_on [OF okf f(1) l P]
    have bounds: "lf_start lock \<le> lf_hi lock" "lf_start f \<le> lf_hi f" using lf_ok_hi [OF f(2)] lf_ok_hi [OF l] by simp_all
    consider "ovcase f lock = 1" | "ovcase f lock = 2" "lf_type f = lf_type lock"
      | "ovcase f lock = 2" "lf_type f \<noteq> lf_type lock" "lf_start f = lf_start lock"
      | "ovcase f lock = 2" "lf_type f \<noteq> lf_type lock" "lf_start f \<noteq> lf_start lock"
      | "ovcase f lock = 3" | "ovcase f lock = 4" | "ovcase f lock = 5" using found(6) by auto
    then show ?thesis
    proof cases
      case 1
      then have eq: "lf_start f = lf_start lock" "lf_hi f = lf_hi lock" using iff(2) by simp_all
      have "retyped lock (typed lock) (P @ f # R) (P @ f\<lparr>lf_blkhd := x, lf_type := lf_type lock\<rparr> # R)" for x
        by (rule retype_lock [OF okf f(1) P]) (use eq f in \<open>simp_all add: covers_def\<close>)
      from this [of "[]"] this [of "lf_blkhd f"] show ?thesis unfolding lfs using 1 by (auto simp: unfold)
    next
      case 2
      then have "lf_start f \<le> lf_start lock" "lf_hi lock \<le> lf_hi f" using iff(3) by auto
      then have "retyped lock (typed lock) (P @ f # R) (P @ f # R)"
        by (rule retype_lock [OF okf f(1) P]) (use 2 f in simp_all)
      then show ?thesis unfolding lfs using 2 by (simp add: unfold)
    next
      case 3
      then have hi: "lf_hi lock < lf_hi f" using iff(3) by auto
      note g = behind_update(2) [OF f(2) l hi, of "[]"]
      from place [OF less_imp_le [OF hi], of "[]", simplified, OF cut_behind [OF f(2) l g]] 3 bounds behind_before [OF g]
      show ?thesis unfolding lfs by (simp add: unfold)
    next
      case 4
      then have lt: "lf_start f < lf_start lock" "lf_hi lock \<le> lf_hi f" using iff(3) by auto
      let ?h = "f\<lparr>lf_end := lf_start lock - 1, lf_blkhd := []\<rparr>"
      from split_cut [OF f(2) l lt low, of R] obtain st' after where
        s: "lf_split st f lock R = (st', After (f\<lparr>lf_end := lf_start lock - 1\<rparr>) (after @ R))"
        "cut lock f (?h # after)" "\<forall>g\<in>set after. behind lock f g" by blast
      have "retyped lock (typed lock) (P @ f # R) (P @ [?h] @ lock # after @ R)"
        by (rule place [OF lt(2)])
          (use s front_before [OF front_update(2) [OF f(2) l lt(1), of "[]"]] behind_before in auto)
      then show ?thesis unfolding lfs using 4 s(1) by (simp add: unfold)
    next
      case 5
      then have c: "cut lock f []" "lf_start lock \<le> lf_hi f" using cut_whole [OF f(2) l] iff(4) bounds by auto
      obtain st1 x where t: "take_blocked st lock f = (st1, lock\<lparr>lf_blkhd := x\<rparr>)" using take_blocked_eq by blast
      show ?thesis unfolding lfs using 5 on [OF c(1) _ c(2), of "lf_free st1 f" x]
          on [OF c(1) _ c(2), of "lf_free (fst (lf_wakelock st f)) f" "lf_blkhd lock"]
        by (simp add: set_loop.simps [of st lock] unfold(2) t)
    next
      case 6
      then have lt: "lf_start f < lf_start lock" "lf_hi f < lf_hi lock" "lf_start lock \<le> lf_hi f" using iff(5) by auto
      note h = front_update(2) [OF f(2) l lt(1), of "[]"]
      have c: "cut lock f [f\<lparr>lf_end := lf_start lock - 1, lf_blkhd := []\<rparr>]" using cut_front [OF f(2) l h] lt by simp
      show ?thesis unfolding lfs using 6 on [OF c _ lt(3), of _ "lf_blkhd lock"] front_before [OF h] by (simp add: unfold)
    next
      case 7
      then have lt: "lf_start lock < lf_start f" "lf_start f \<le> lf_hi lock" "lf_hi lock < lf_hi f" using iff(6) by auto
      note g = behind_update(2) [OF f(2) l lt(3), of "[]"]
      from place [OF less_imp_le [OF lt(3)], of "[]", simplified, OF cut_behind [OF f(2) l g]] 7 lt behind_before [OF g]
      show ?thesis unfolding lfs by (simp add: unfold)
    qed
  qed
qed

end
