(* ===== verification/Lockf_Laws.thy ===== *)
theory Lockf_Laws
  imports Lockf_Set
begin

text \<open>
  What the operations of \<^verbatim>\<open>vfs_lockf.c\<close> promise.
\<close>

subsection \<open>Locks that block\<close>

text \<open>A lock of another owner that has bytes in common with the request, and conflicts with it.\<close>

definition conflict :: "nat \<Rightarrow> nat \<Rightarrow> bool" where
  "conflict t t' \<longleftrightarrow> t = F_WRLCK \<or> t' = F_WRLCK"

definition blocks :: "lockf \<Rightarrow> lockf \<Rightarrow> bool" where
  "blocks lock l \<longleftrightarrow> lf_id l \<noteq> lf_id lock \<and> lf_start l \<le> lf_hi lock \<and> lf_start lock \<le> lf_hi l \<and> conflict (lf_type lock) (lf_type l)"

definition meets :: "lockf \<Rightarrow> lockf \<Rightarrow> bool" where
  "meets lock l \<longleftrightarrow> lf_id l \<noteq> lf_id lock \<and> ovcase l lock \<noteq> 0"

lemma findoverlap_others:
  "\<exists>c pre'. lf_findoverlap False lock pre lfs = (c, pre', dropWhile (\<lambda>l. \<not> meets lock l) lfs) \<and>
     (\<forall>l r. dropWhile (\<lambda>l. \<not> meets lock l) lfs = l # r \<longrightarrow> c = ovcase l lock)"
  by (induction lfs arbitrary: pre) (auto simp: meets_def)

lemma blocks_meets: "lf_ok lock \<Longrightarrow> lf_ok l \<Longrightarrow> blocks lock l \<longleftrightarrow> meets lock l \<and> conflict (lf_type lock) (lf_type l)"
  using ovcase_iff(1) [of l lock] by (auto simp: blocks_def meets_def before_def)

lemma find_dropWhile: "(\<And>x. x \<in> set xs \<Longrightarrow> P x \<Longrightarrow> Q x) \<Longrightarrow> find P (dropWhile (\<lambda>x. \<not> Q x) xs) = find P xs"
  by (induction xs) auto

lemma getblock_loop_find:
  "lf_ok lock \<Longrightarrow> \<forall>l\<in>set lfs. lf_ok l \<Longrightarrow> lf_getblock_loop lock lfs = LDone (find (blocks lock) lfs)"
proof (induction "length lfs" arbitrary: lfs rule: less_induct)
  case less
  define d where "d = dropWhile (\<lambda>l. \<not> meets lock l) lfs"
  obtain c pre where fo: "lf_findoverlap False lock [] lfs = (c, pre, d)" and c: "\<And>l r. d = l # r \<Longrightarrow> c = ovcase l lock"
    using findoverlap_others [of lock "[]" lfs] unfolding d_def by blast
  have fd: "find (blocks lock) lfs = find (blocks lock) d"
    unfolding d_def by (rule find_dropWhile [symmetric]) (use less.prems blocks_meets in blast)
  show ?case
  proof (cases d)
    case Nil
    then show ?thesis using fo fd by (simp add: lf_getblock_loop.simps [of lock lfs])
  next
    case (Cons l r)
    then have l: "meets lock l" using hd_dropWhile [of "\<lambda>l. \<not> meets lock l" lfs] by (simp add: d_def)
    have sub: "set d \<subseteq> set lfs" "length d \<le> length lfs" unfolding d_def using set_dropWhileD length_dropWhile_le by fast+
    then have lok: "lf_ok l" and r: "\<forall>l\<in>set r. lf_ok l" "length r < length lfs" using less.prems(2) Cons by auto
    have "c \<noteq> 6" using c [OF Cons] ovcase_iff(7) [OF lok less.prems(1)] by simp
    then show ?thesis using less.hyps [OF r(2) less.prems(1) r(1)] fo fd Cons l blocks_meets [OF less.prems(1) lok]
      by (auto simp: lf_getblock_loop.simps [of lock lfs] conflict_def)
  qed
qed

lemma locks_ok_all: "locks_ok ls \<Longrightarrow> l \<in> set ls \<Longrightarrow> lf_ok l"
  by (auto simp: locks_ok_def own_ok_def own_def)

lemma getblock_find: "locks_ok (ls_locks st) \<Longrightarrow> lf_ok lock \<Longrightarrow> lf_getblock st lock = LDone (find (blocks lock) (ls_locks st))"
  using getblock_loop_find locks_ok_all by (simp add: lf_getblock_def)

lemma blocks_holds:
  assumes "locks_ok ls" "lf_ok lock"
  shows "(\<exists>l\<in>set ls. blocks lock l) \<longleftrightarrow>
    (\<exists>p i t. p \<noteq> lf_id lock \<and> covers lock i \<and> holds ls p i t \<and> conflict (lf_type lock) t)"
proof
  assume "\<exists>l\<in>set ls. blocks lock l"
  then obtain l where l: "l \<in> set ls" "blocks lock l" by blast
  let ?i = "max (lf_start l) (lf_start lock)"
  have "covers lock ?i" "covers l ?i" using l lf_ok_hi [OF assms(2)] lf_ok_hi [OF locks_ok_all [OF assms(1) l(1)]]
    by (auto simp: covers_def blocks_def)
  moreover have "holds ls (lf_id l) ?i (lf_type l)" using l(1) calculation by (auto simp: holds_def hold_def own_def)
  ultimately show "\<exists>p i t. p \<noteq> lf_id lock \<and> covers lock i \<and> holds ls p i t \<and> conflict (lf_type lock) t"
    using l(2) unfolding blocks_def by blast
next
  assume "\<exists>p i t. p \<noteq> lf_id lock \<and> covers lock i \<and> holds ls p i t \<and> conflict (lf_type lock) t"
  then show "\<exists>l\<in>set ls. blocks lock l" by (fastforce simp: holds_def hold_def own_def blocks_def covers_def)
qed

lemma getblock_None:
  assumes "locks_ok (ls_locks st)" "lf_ok lock"
  shows "lf_getblock st lock = LDone None \<longleftrightarrow>
    \<not> (\<exists>p i t. p \<noteq> lf_id lock \<and> covers lock i \<and> holds (ls_locks st) p i t \<and> conflict (lf_type lock) t)"
  unfolding blocks_holds [OF assms, symmetric] getblock_find [OF assms] by (auto simp: find_None_iff)

subsection \<open>The table of locks\<close>

text \<open>No byte is held by two owners in conflicting ways.\<close>

definition exclusive :: "(nat \<Rightarrow> int \<Rightarrow> nat \<Rightarrow> bool) \<Rightarrow> bool" where
  "exclusive h \<longleftrightarrow> (\<forall>p q i t t'. p \<noteq> q \<longrightarrow> h p i t \<longrightarrow> h q i t' \<longrightarrow> \<not> conflict t t')"

text \<open>
  What the system calls rely on: a table that says who holds which byte how, where a request
  can be tested, set and cleared.  Setting and clearing may need memory; the laws are about a
  state in which there is some.
\<close>

locale lock_table =
  fixes ok :: "'s \<Rightarrow> bool" and held :: "'s \<Rightarrow> nat \<Rightarrow> int \<Rightarrow> nat \<Rightarrow> bool"
    and valid :: "'q \<Rightarrow> bool" and who :: "'q \<Rightarrow> nat" and within :: "'q \<Rightarrow> int \<Rightarrow> bool" and kind :: "'q \<Rightarrow> nat"
    and prompt :: "'s \<Rightarrow> bool" and free :: "'s \<Rightarrow> 'q \<Rightarrow> bool" and put :: "'s \<Rightarrow> 'q \<Rightarrow> 's lfres" and clear :: "'s \<Rightarrow> 'q \<Rightarrow> 's lfres"
  assumes free_law: "ok s \<Longrightarrow> valid q \<Longrightarrow>
      free s q \<longleftrightarrow> \<not> (\<exists>p i t. p \<noteq> who q \<and> within q i \<and> held s p i t \<and> conflict (kind q) t)"
    and put_law: "ok s \<Longrightarrow> valid q \<Longrightarrow> prompt s \<Longrightarrow> \<exists>s'. put s q = LDone s' \<and> ok s' \<and>
      (\<forall>p i t. held s' p i t \<longleftrightarrow> (if p = who q \<and> within q i then t = kind q else held s p i t))"
    and clear_law: "ok s \<Longrightarrow> valid q \<Longrightarrow> prompt s \<Longrightarrow> \<exists>s'. clear s q = LDone s' \<and> ok s' \<and>
      (\<forall>p i t. held s' p i t \<longleftrightarrow> \<not> (p = who q \<and> within q i) \<and> held s p i t)"
begin

lemma put_exclusive:
  assumes "ok s" "valid q" "prompt s" "free s q" "exclusive (held s)"
  shows "\<exists>s'. put s q = LDone s' \<and> ok s' \<and> exclusive (held s')"
proof -
  obtain s' where s': "put s q = LDone s'" "ok s'"
    "\<And>p i t. held s' p i t \<longleftrightarrow> (if p = who q \<and> within q i then t = kind q else held s p i t)"
    using put_law [OF assms(1-3)] by blast
  have f: "\<And>p i t. p \<noteq> who q \<Longrightarrow> within q i \<Longrightarrow> held s p i t \<Longrightarrow> \<not> conflict (kind q) t \<and> \<not> conflict t (kind q)"
    using free_law [OF assms(1,2)] assms(4) by (auto simp: conflict_def)
  have "exclusive (held s')" unfolding exclusive_def s'(3) using f assms(5) [unfolded exclusive_def] by (simp split: if_splits) metis
  then show ?thesis using s' by blast
qed

lemma clear_exclusive:
  assumes "ok s" "valid q" "prompt s" "exclusive (held s)"
  shows "\<exists>s'. clear s q = LDone s' \<and> ok s' \<and> exclusive (held s')"
proof -
  obtain s' where s': "clear s q = LDone s'" "ok s'" "\<And>p i t. held s' p i t \<longleftrightarrow> \<not> (p = who q \<and> within q i) \<and> held s p i t"
    using clear_law [OF assms(1-3)] by blast
  have "exclusive (held s')" using assms(4) unfolding exclusive_def s'(3) by blast
  then show ?thesis using s' by blast
qed

text \<open>After a clear, another owner is kept off the range by third owners only.\<close>

lemma clear_frees:
  assumes "ok s" "valid q" "prompt s" "valid r" "clear s q = LDone s'" "\<forall>i. within r i \<longrightarrow> within q i"
  shows "free s' r \<longleftrightarrow> \<not> (\<exists>p i t. p \<noteq> who q \<and> p \<noteq> who r \<and> within r i \<and> held s p i t \<and> conflict (kind r) t)"
proof -
  have s': "ok s'" "\<And>p i t. held s' p i t \<longleftrightarrow> \<not> (p = who q \<and> within q i) \<and> held s p i t"
    using clear_law [OF assms(1-3)] assms(5) by auto
  show ?thesis unfolding free_law [OF s'(1) assms(4)] s'(2) using assms(6) by auto
qed

end

interpretation lk: lock_table "\<lambda>st. locks_ok (ls_locks st)" "\<lambda>st. holds (ls_locks st)" lf_ok lf_id covers lf_type
    "\<lambda>st. \<not> ls_low st" "\<lambda>st lock. lf_getblock st lock = LDone None" "\<lambda>st lock. set_loop st lock True [] [] (ls_locks st)" lf_clearlock
proof
  fix st :: lstate and lock :: lockf assume ok: "locks_ok (ls_locks st)" and l: "lf_ok lock"
  show "lf_getblock st lock = LDone None \<longleftrightarrow>
    \<not> (\<exists>p i t. p \<noteq> lf_id lock \<and> covers lock i \<and> holds (ls_locks st) p i t \<and> conflict (lf_type lock) t)"
    by (rule getblock_None [OF ok l])
  assume low: "\<not> ls_low st"
  from set_loop_post [of lock "ls_locks st" st] ok l low obtain st' where
    s: "set_loop st lock True [] [] (ls_locks st) = LDone st'" "retyped lock (typed lock) (ls_locks st) (ls_locks st')"
    by (auto simp: locks_ok_def)
  then show "\<exists>st'. set_loop st lock True [] [] (ls_locks st) = LDone st' \<and> locks_ok (ls_locks st') \<and>
    (\<forall>p i t. holds (ls_locks st') p i t \<longleftrightarrow> (if p = lf_id lock \<and> covers lock i then t = lf_type lock else holds (ls_locks st) p i t))"
    using retyped_locks_ok [OF s(2) ok] retyped_holds [OF s(2)] by (auto simp: typed_def)
  from lf_clearlock_post [OF ok l low] obtain st' where
    c: "lf_clearlock st lock = LDone st'" "cleared lock (ls_locks st) (ls_locks st')" by blast
  then show "\<exists>st'. lf_clearlock st lock = LDone st' \<and> locks_ok (ls_locks st') \<and>
    (\<forall>p i t. holds (ls_locks st') p i t \<longleftrightarrow> \<not> (p = lf_id lock \<and> covers lock i) \<and> holds (ls_locks st) p i t)"
    using retyped_locks_ok [OF c(2) ok] retyped_holds [OF c(2)] by auto
qed

subsection \<open>The range of a request\<close>

definition off_ok :: "int \<Rightarrow> bool" where
  "off_ok x \<longleftrightarrow> - (2 ^ 63) \<le> x \<and> x \<le> OFF_MAX"

lemma off_wrap_cases:
  "off_ok x \<Longrightarrow> off_wrap x = x" "OFF_MAX < x \<Longrightarrow> x \<le> 2 * OFF_MAX + 1 \<Longrightarrow> off_wrap x = x - 2 ^ 64"
  using minus_mod_self2 [of "x + 2 ^ 63" "2 ^ 64"] by (simp_all add: off_ok_def off_wrap_def OFF_MAX_def)

text \<open>The first byte of a request, as a number that does not wrap.\<close>

definition req_base :: "int \<Rightarrow> flock \<Rightarrow> int" where
  "req_base sz fl = (if l_whence fl = 2 then sz + l_start fl else l_start fl)"

lemma last_byte:
  assumes "0 \<le> s" "s \<le> OFF_MAX" "off_ok n" "- (2 ^ 63) < n" "n \<noteq> 0"
  shows "(if off_wrap (off_wrap (s + n) - 1) < s then None else Some (s, off_wrap (off_wrap (s + n) - 1))) =
    (if n < 0 \<or> OFF_MAX < s + n - 1 then None else Some (s, s + n - 1))"
proof -
  consider "s + n \<le> OFF_MAX" | "s + n = OFF_MAX + 1" | "OFF_MAX + 1 < s + n" by linarith
  then show ?thesis
  proof cases
    case 1
    then have "off_wrap (s + n) = s + n" "off_wrap (s + n - 1) = s + n - 1"
      using assms by (auto intro!: off_wrap_cases(1) simp: off_ok_def OFF_MAX_def)
    then show ?thesis using 1 assms by auto
  next
    case 2
    then have n: "n = OFF_MAX + 1 - s" by simp
    show ?thesis using assms unfolding n by (simp add: off_wrap_def OFF_MAX_def)
  next
    case 3
    then have "off_wrap (s + n) = s + n - 2 ^ 64" using assms by (intro off_wrap_cases(2)) (simp_all add: off_ok_def)
    moreover have "off_wrap (s + n - 2 ^ 64 - 1) = s + n - 2 ^ 64 - 1"
      using 3 assms by (intro off_wrap_cases(1)) (auto simp: off_ok_def OFF_MAX_def)
    ultimately show ?thesis using 3 assms by (auto simp: OFF_MAX_def off_ok_def)
  qed
qed



text \<open>The smallest length does wrap: it is taken for the whole file.\<close>

lemma range_wraps: "lf_range 0 \<lparr>l_start = 0, l_len = - (2 ^ 63), l_pid = 0, l_type = 3, l_whence = 0\<rparr> = Some (0, OFF_MAX)"
  by (simp add: lf_range_def off_wrap_def OFF_MAX_def)

subsection \<open>Requests\<close>

definition in_range :: "int \<Rightarrow> int \<Rightarrow> int \<Rightarrow> bool" where
  "in_range s e i \<longleftrightarrow> s \<le> i \<and> i \<le> (if e = -1 then OFF_MAX else e)"

lemma off_wrap_le: "off_wrap x \<le> OFF_MAX"
proof -
  have "(x + 2 ^ 63) mod 2 ^ 64 < 2 ^ 64" by simp
  then show ?thesis by (simp add: off_wrap_def OFF_MAX_def)
qed

lemma lf_range_bounds:
  assumes "lf_range sz fl = Some (s, e)" "off_ok (l_start fl)"
  shows "0 \<le> s" "s \<le> OFF_MAX" "e = -1 \<or> s \<le> e" "e \<le> OFF_MAX"
  using assms off_wrap_le [of "sz + l_start fl"] off_wrap_le [of "off_wrap (s + l_len fl) - 1"]
  by (auto simp: lf_range_def Let_def off_ok_def OFF_MAX_def split: if_splits)

lemma request_simps [simp]:
  "lf_id (lf_request a s e uid owner pid ty flags) = owner" "lf_type (lf_request a s e uid owner pid ty flags) = ty"
  "lf_addr (lf_request a s e uid owner pid ty flags) = a" "lf_uid (lf_request a s e uid owner pid ty flags) = uid"
  "lf_blkhd (lf_request a s e uid owner pid ty flags) = []" "lf_flags (lf_request a s e uid owner pid ty flags) = flags"
  "covers (lf_request a s e uid owner pid ty flags) = in_range s e"
  by (auto simp: lf_request_def covers_def in_range_def lf_hi_def fun_eq_iff)

lemma request_ok:
  assumes "lf_range sz fl = Some (s, e)" "off_ok (l_start fl)" "e \<noteq> OFF_MAX"
  shows "lf_ok (lf_request a s e uid owner pid ty flags)"
  using lf_range_bounds [OF assms(1,2)] assms(3) by (auto simp: lf_request_def lf_ok_def)

text \<open>
  A request with a well formed range that does not end at the largest offset, on a table without
  overlaps, while there is memory; whether the user is over the limit; and a request that may be
  granted.
\<close>

definition askable :: "lstate \<Rightarrow> int \<Rightarrow> flock \<Rightarrow> int \<Rightarrow> int \<Rightarrow> bool" where
  "askable st sz fl s e \<longleftrightarrow> locks_ok (ls_locks st) \<and> \<not> ls_low st \<and> lf_range sz fl = Some (s, e) \<and> off_ok (l_start fl) \<and> e \<noteq> OFF_MAX"

definition over_limit :: "lstate \<Rightarrow> nat \<Rightarrow> nat \<Rightarrow> bool" where
  "over_limit st uid op \<longleftrightarrow> uid \<noteq> 0 \<and> ls_cnt st uid > (if op = F_SETLK then maxlocksperuid else 2 * maxlocksperuid)"

definition grantable :: "lstate \<Rightarrow> int \<Rightarrow> nat \<Rightarrow> nat \<Rightarrow> flock \<Rightarrow> int \<Rightarrow> int \<Rightarrow> bool" where
  "grantable st sz uid op fl s e \<longleftrightarrow> askable st sz fl s e \<and> \<not> over_limit st uid op"

lemma alloc_over: "over_limit st uid op \<Longrightarrow> lf_alloc st uid (if op = F_SETLK then 1 else 2) = LDone None"
  by (auto simp: over_limit_def lf_alloc_def split: if_splits)

lemma alloc_under: "\<not> ls_low st \<Longrightarrow> \<not> over_limit st uid op \<Longrightarrow>
    \<exists>st' a. lf_alloc st uid (if op = F_SETLK then 1 else 2) = LDone (Some (st', a))"
  by (auto simp: over_limit_def lf_alloc_def Let_def)

lemma alloc_locks: "lf_alloc st uid k = LDone (Some (st', a)) \<Longrightarrow> ls_locks st' = ls_locks st \<and> ls_low st' = ls_low st \<and> a = ls_next st"
  by (auto simp: lf_alloc_def Let_def split: if_splits)

lemma free_locks [simp]: "ls_locks (lf_free st l) = ls_locks st"
  by (simp add: lf_free_def)

lemma grantableE:
  assumes "grantable st sz uid op fl s e"
  obtains st1 where "lf_alloc st uid (if op = F_SETLK then 1 else 2) = LDone (Some (st1, ls_next st))" "ls_locks st1 = ls_locks st"
    "locks_ok (ls_locks st1)" "\<not> ls_low st1" "lf_range sz fl = Some (s, e)" "\<And>owner pid ty flags. lf_ok (lf_request (ls_next st) s e uid owner pid ty flags)"
proof -
  obtain st1 a where a: "lf_alloc st uid (if op = F_SETLK then 1 else 2) = LDone (Some (st1, a))"
    using assms alloc_under unfolding grantable_def askable_def by blast
  show thesis by (rule that [of st1]) (use a alloc_locks [OF a] assms request_ok in \<open>auto simp: grantable_def askable_def\<close>)
qed

text \<open>
  A table for the examples: owner 1 reads the first ten bytes and writes the next ten, owner 2
  reads everything from byte 30 on.
\<close>

definition lf_sample :: lstate where
  "lf_sample = \<lparr>ls_locks = [lf_request 0 0 9 5 1 101 F_RDLCK F_POSIX, lf_request 1 30 (-1) 6 2 102 F_RDLCK F_POSIX,
       lf_request 2 10 19 5 1 101 F_WRLCK F_POSIX],
     ls_cnt = (\<lambda>u. if u = 5 then 2 else if u = 6 then 1 else 0), ls_wait = (\<lambda>_. None), ls_woken = [], ls_next = 3, ls_low = False\<rparr>"

text \<open>Memory in which no process sleeps.\<close>

definition quiet :: kmem where
  "quiet = \<lparr>proc_at = (\<lambda>p. \<lparr>p_wchan = None, p_lockstr = False\<rparr>), next_at = (\<lambda>a. None), lock_at = (\<lambda>a. (0, 0))\<rparr>"

definition fl_sample :: "int \<Rightarrow> int \<Rightarrow> nat \<Rightarrow> flock" where
  "fl_sample start len type = \<lparr>l_start = start, l_len = len, l_pid = 0, l_type = type, l_whence = 0\<rparr>"

lemma lf_sample_ok: "locks_ok (ls_locks lf_sample)"
  by (auto simp: locks_ok_def own_ok_def lf_sample_def lf_request_def lf_ok_def before_def lf_hi_def OFF_MAX_def)

lemma sample_grantable:
  "0 \<le> start \<Longrightarrow> 0 < len \<Longrightarrow> start \<le> 1000 \<Longrightarrow> len \<le> 1000 \<Longrightarrow> grantable lf_sample sz uid op (fl_sample start len type) start (start + len - 1)"
  using lf_sample_ok
  by (auto simp: grantable_def askable_def over_limit_def lf_range_def fl_sample_def off_ok_def off_wrap_def OFF_MAX_def lf_sample_def maxlocksperuid_def)

lemma sample_askable: "0 \<le> start \<Longrightarrow> 0 < len \<Longrightarrow> start \<le> 1000 \<Longrightarrow> len \<le> 1000 \<Longrightarrow> askable lf_sample sz (fl_sample start len type) start (start + len - 1)"
  using sample_grantable by (simp add: grantable_def)

lemma sample_under: "\<not> over_limit lf_sample 5 op"
  by (simp add: over_limit_def lf_sample_def maxlocksperuid_def)

lemma sample_holds:
  "holds (ls_locks lf_sample) p i t \<longleftrightarrow>
     p = 1 \<and> (0 \<le> i \<and> i \<le> 9 \<and> t = F_RDLCK \<or> 10 \<le> i \<and> i \<le> 19 \<and> t = F_WRLCK) \<or> p = 2 \<and> 30 \<le> i \<and> i \<le> OFF_MAX \<and> t = F_RDLCK"
  by (auto simp: holds_def lf_sample_def in_range_def)





text \<open>What \<^verbatim>\<open>lf_getlock\<close> reports of a lock.\<close>

definition report :: "lockf \<Rightarrow> flock \<Rightarrow> flock" where
  "report l fl = fl\<lparr>l_type := lf_type l, l_whence := 0, l_start := lf_start l,
     l_len := (if lf_end l = -1 then 0 else off_wrap (lf_end l - lf_start l + 1)), l_pid := lf_pid l\<rparr>"

lemma getlock_find:
  assumes "locks_ok (ls_locks st)" "lf_ok lock"
  shows "lf_getlock st lock fl = LDone (case find (blocks lock) (ls_locks st) of None \<Rightarrow> fl\<lparr>l_type := F_UNLCK\<rparr> | Some l \<Rightarrow> report l fl)"
  unfolding lf_getlock_def getblock_find [OF assms] by (simp add: report_def split: option.splits)

text \<open>Asking for the range of a report gives the range of the lock reported.\<close>

lemma report_range: "lf_ok l \<Longrightarrow> lf_range sz (report l fl) = Some (lf_start l, lf_end l)"
  using off_wrap_cases(1) [of "lf_end l + 1"] off_wrap_cases(1) [of "lf_end l"] off_wrap_cases(1) [of "lf_end l - lf_start l + 1"]
  by (auto simp: lf_range_def Let_def report_def lf_ok_def off_ok_def OFF_MAX_def)

text \<open>
  C31 (advlock_reports): asking for a conflicting lock changes no lock and no count.  The answer
  is "unlocked" exactly when no other owner holds a byte of the range in a conflicting way;
  otherwise it describes such a lock, and the range of the answer is the range of that lock.
  The request is as for setting a lock: the user is below the limit, the range does not end at
  the largest offset, and there is memory.
\<close>

theorem advlock_reports:
  assumes "grantable st sz uid F_GETLK fl s e"
  shows "\<exists>st' fl'. lf_advlock sl mem st sz uid owner pid F_GETLK fl flags = LDone (sl, st', 0, fl') \<and>
    ls_locks st' = ls_locks st \<and> ls_cnt st' = ls_cnt st \<and>
    (if \<exists>p i t. p \<noteq> owner \<and> in_range s e i \<and> holds (ls_locks st) p i t \<and> conflict (l_type fl) t
     then \<exists>l\<in>set (ls_locks st). lf_id l \<noteq> owner \<and> (\<exists>i. in_range s e i \<and> covers l i) \<and> conflict (l_type fl) (lf_type l) \<and>
       l_type fl' = lf_type l \<and> l_pid fl' = lf_pid l \<and> lf_range sz fl' = Some (lf_start l, lf_end l)
     else fl' = fl\<lparr>l_type := F_UNLCK\<rparr>)"
  using assms
proof (rule grantableE)
  fix st1
  let ?q = "lf_request (ls_next st) s e uid owner pid (l_type fl) flags"
  assume st1: "lf_alloc st uid (if F_GETLK = F_SETLK then 1 else 2) = LDone (Some (st1, ls_next st))" "ls_locks st1 = ls_locks st"
    "locks_ok (ls_locks st1)" "\<not> ls_low st1" "lf_range sz fl = Some (s, e)" "\<And>owner pid ty flags. lf_ok (lf_request (ls_next st) s e uid owner pid ty flags)"
  have cnt: "ls_cnt (lf_free st1 ?q) = ls_cnt st" using st1(1) by (auto simp: lf_alloc_def lf_free_def Let_def split: if_splits)
  have adv: "ls_locks st \<noteq> [] \<Longrightarrow> lf_advlock sl mem st sz uid owner pid F_GETLK fl flags =
    LDone (sl, lf_free st1 ?q, 0, case find (blocks ?q) (ls_locks st) of None \<Rightarrow> fl\<lparr>l_type := F_UNLCK\<rparr> | Some l \<Rightarrow> report l fl)"
    using st1(1,5) getlock_find [OF st1(3,6), of owner pid "l_type fl" flags fl] st1(2) by (simp add: lf_advlock_def Let_def)
  note block = blocks_holds [OF st1(3,6), of owner pid "l_type fl" flags, unfolded st1(2) request_simps, symmetric]
  show ?thesis
  proof (cases "find (blocks ?q) (ls_locks st)")
    case None
    then have "\<not> (\<exists>l\<in>set (ls_locks st). blocks ?q l)" by (simp add: find_None_iff)
    then have no: "\<not> (\<exists>p i t. p \<noteq> owner \<and> in_range s e i \<and> holds (ls_locks st) p i t \<and> conflict (l_type fl) t)" unfolding block .
    have "\<exists>st'. lf_advlock sl mem st sz uid owner pid F_GETLK fl flags = LDone (sl, st', 0, fl\<lparr>l_type := F_UNLCK\<rparr>) \<and>
      ls_locks st' = ls_locks st \<and> ls_cnt st' = ls_cnt st"
      using adv None cnt st1(2,5) by (cases "ls_locks st = []") (simp add: lf_advlock_def, simp)
    then show ?thesis unfolding if_not_P [OF no] by blast
  next
    case (Some l)
    then have l: "l \<in> set (ls_locks st)" "blocks ?q l" by (auto simp: find_Some_iff)
    then have lok: "lf_ok l" using st1(2,3) locks_ok_all by auto
    have "covers ?q (max s (lf_start l)) \<and> covers l (max s (lf_start l))" using l(2) lf_ok_hi [OF lok] lf_ok_hi [OF st1(6)]
      by (auto simp: blocks_def covers_def lf_request_def max_def)
    then have i: "\<exists>i. in_range s e i \<and> covers l i" by auto
    have "ls_locks st \<noteq> []" using l(1) by auto
    then have "lf_advlock sl mem st sz uid owner pid F_GETLK fl flags = LDone (sl, lf_free st1 ?q, 0, report l fl)" using adv Some by simp
    moreover have "l_type (report l fl) = lf_type l" "l_pid (report l fl) = lf_pid l" by (simp_all add: report_def)
    moreover have "lf_id l \<noteq> owner" "conflict (l_type fl) (lf_type l)" using l(2) by (simp_all add: blocks_def)
    ultimately show ?thesis using cnt st1(2) l report_range [OF lok, of sz fl] i unfolding block by auto
  qed
qed

theorem advlock_reports_witness:
  "\<exists>st' fl'. lf_advlock [] quiet lf_sample 0 6 2 102 F_GETLK (fl_sample 5 10 F_RDLCK) F_POSIX = LDone ([], st', 0, fl') \<and>
    ls_locks st' = ls_locks lf_sample \<and> l_type fl' = F_WRLCK \<and> lf_range 0 fl' = Some (10, 19)"
proof -
  have c: "\<exists>p i t. p \<noteq> 2 \<and> in_range 5 14 i \<and> holds (ls_locks lf_sample) p i t \<and> conflict F_RDLCK t"
    by (intro exI [of _ 1] exI [of _ 12] exI [of _ 3]) (simp add: sample_holds in_range_def conflict_def)
  show ?thesis
    using advlock_reports [OF sample_grantable [of 5 10 0 6 F_GETLK F_RDLCK], of "[]" quiet 2 102 F_POSIX] c
    by (auto simp: lf_sample_def fl_sample_def conflict_def lf_request_def)
qed

subsection \<open>The largest offset\<close>

text \<open>
  A range that ends at the largest offset makes the start of the rest of a longer lock wrap
  around: after unlocking from byte 10 on, the owner of a lock on the whole file keeps a lock
  that starts at the smallest offset and reaches to the end of the file.
\<close>

lemma unlock_top_wraps:
  "\<exists>st'. lf_clearlock (lf_sample\<lparr>ls_locks := [lf_request 0 0 (-1) 5 1 101 F_WRLCK F_POSIX]\<rparr>)
      (lf_request 3 10 OFF_MAX 5 1 101 F_UNLCK F_POSIX) = LDone st' \<and>
    map (\<lambda>l. (lf_start l, lf_end l)) (ls_locks st') = [(0, 9), (- (2 ^ 63), -1)]"
  by (simp add: lf_clearlock_def clear_loop.simps lf_request_def ovcase_def lf_wakelock_def lf_split_def lf_alloc_def Let_def OFF_MAX_def off_wrap_def lf_sample_def)

end
