(* ===== verification/Lockf_Wait.thy ===== *)
theory Lockf_Wait
  imports Lockf_Laws "HOL-Library.Multiset"
begin

text \<open>
  The bookkeeping of the locks of a file: who waits for which lock, and how many structures
  each user has.
\<close>

subsection \<open>Books\<close>

text \<open>
  \<open>T\<close> are all structures in use, locks and requests.  A request waits for a lock exactly when
  it is on the list of that lock, no two structures have the same address, and the count of
  a user is the number of structures of that user.
\<close>

definition users :: "nat \<Rightarrow> lockf list \<Rightarrow> int" where
  "users u T = int (length (filter (\<lambda>l. lf_uid l = u) T))"

definition waiting :: "lockf list \<Rightarrow> (nat \<Rightarrow> nat option) \<Rightarrow> bool" where
  "waiting T w \<longleftrightarrow> (\<forall>a b. w a = Some b \<longleftrightarrow> (\<exists>l\<in>set T. lf_addr l = b \<and> a \<in> set (lf_blkhd l)))"

definition book :: "lockf list \<Rightarrow> lstate \<Rightarrow> bool" where
  "book T st \<longleftrightarrow> distinct (map lf_addr T) \<and> (\<forall>l\<in>set T. lf_addr l < ls_next st \<and> distinct (lf_blkhd l)) \<and>
     waiting T (ls_wait st) \<and> (\<forall>u. ls_cnt st u = users u T)"

lemma users_simps [simp]: "users u [] = 0" "users u (l # T) = (if lf_uid l = u then 1 else 0) + users u T"
  "users u (T @ T') = users u T + users u T'"
  by (simp_all add: users_def)

lemma book_perm:
  assumes "book T st" "mset T' = mset T"
  shows "book T' st"
proof -
  have s: "set T' = set T" using assms(2) by (rule mset_eq_setD)
  have d: "distinct (map lf_addr T') = distinct (map lf_addr T)" using assms(2) by (metis mset_eq_imp_distinct_iff mset_map)
  have u: "users u T' = users u T" for u unfolding users_def using assms(2) by (metis mset_filter size_mset)
  show ?thesis using assms(1) unfolding book_def waiting_def s d u .
qed

text \<open>
  No request loses its place in a queue without being woken, none is woken that keeps its place,
  and memory does not run short by itself.
\<close>

definition evolves :: "lstate \<Rightarrow> lstate \<Rightarrow> bool" where
  "evolves st st' \<longleftrightarrow> ls_next st \<le> ls_next st' \<and> ls_low st' = ls_low st \<and> (\<forall>a. ls_wait st' a \<noteq> None \<longrightarrow> ls_wait st a \<noteq> None) \<and>
     (\<forall>a. ls_wait st a \<noteq> None \<longrightarrow> ls_wait st' a \<noteq> None \<or> a \<in> set (ls_woken st')) \<and> set (ls_woken st) \<subseteq> set (ls_woken st') \<and>
     (\<forall>a\<in>set (ls_woken st'). a \<in> set (ls_woken st) \<or> ls_wait st' a = None)"

lemma evolves_refl: "evolves st st"
  by (simp add: evolves_def)

lemma evolves_trans:
  assumes "evolves st st'" "evolves st' st''"
  shows "evolves st st''"
proof -
  have w: "ls_wait st'' a = None" if "ls_wait st' a = None" for a using that assms(2) unfolding evolves_def by metis
  show ?thesis using assms w unfolding evolves_def by (meson order_trans subsetD)
qed

lemma evolves_simps [simp]:
  "evolves st (st'\<lparr>ls_locks := x\<rparr>) = evolves st st'" "evolves (st\<lparr>ls_locks := x\<rparr>) st' = evolves st st'"
  "evolves st (lf_free st' l) = evolves st st'" "evolves (lf_free st l) st' = evolves st st'"
  by (simp_all add: evolves_def lf_free_def)

lemma book_locks [simp]: "book T (st\<lparr>ls_locks := x\<rparr>) = book T st"
  by (simp add: book_def)

text \<open>A request is on one list only.\<close>

lemma book_disjoint:
  assumes "book (f # T) st" "l \<in> set T" "a \<in> set (lf_blkhd f)"
  shows "a \<notin> set (lf_blkhd l)"
proof
  assume "a \<in> set (lf_blkhd l)"
  then have "ls_wait st a = Some (lf_addr l)" "ls_wait st a = Some (lf_addr f)"
    using assms unfolding book_def waiting_def by (metis list.set_intros)+
  then show False using assms(1,2) by (auto simp: book_def)
qed

lemma book_wake:
  assumes "book (f # T) st" "lf_wakelock st f = (st', f')"
  shows "book (f' # T) st'" "evolves st st'"
proof -
  have w: "ls_wait st a = Some b \<longleftrightarrow> lf_addr f = b \<and> a \<in> set (lf_blkhd f) \<or> (\<exists>l\<in>set T. lf_addr l = b \<and> a \<in> set (lf_blkhd l))" for a b
    using assms(1) by (auto simp: book_def waiting_def)
  show "book (f' # T) st'" using assms w book_disjoint [OF assms(1)] by (auto simp: book_def waiting_def lf_wakelock_def split: if_splits)
  show "evolves st st'" using assms(2) by (auto simp: evolves_def lf_wakelock_def split: if_splits)
qed

lemma book_same:
  "book (f # T) st \<Longrightarrow> lf_addr g = lf_addr f \<Longrightarrow> lf_blkhd g = lf_blkhd f \<Longrightarrow> lf_uid g = lf_uid f \<Longrightarrow> book (g # T) st"
  by (simp add: book_def waiting_def)

lemma book_free:
  "book (f # T) st \<Longrightarrow> lf_blkhd f = [] \<Longrightarrow> lf_uid g = lf_uid f \<Longrightarrow> book T (lf_free st g)"
  by (auto simp: book_def waiting_def lf_free_def)

lemma book_alloc:
  assumes "book T st" "lf_addr g = ls_next st" "lf_blkhd g = []"
  shows "book (g # T) (st\<lparr>ls_cnt := (ls_cnt st)(lf_uid g := ls_cnt st (lf_uid g) + 1), ls_next := ls_next st + 1\<rparr>)"
  using assms by (auto simp: book_def waiting_def)

lemma book_take:
  assumes "book (lock # f # T) st" "take_blocked st lock f = (st', lock')"
  shows "book (lock' # f\<lparr>lf_blkhd := []\<rparr> # T) st'" "evolves st st'"
proof -
  have f: "book (f # lock # T) st" by (rule book_perm [OF assms(1)]) simp
  have w: "ls_wait st a = Some b \<longleftrightarrow> lf_addr lock = b \<and> a \<in> set (lf_blkhd lock) \<or> lf_addr f = b \<and> a \<in> set (lf_blkhd f) \<or>
      (\<exists>l\<in>set T. lf_addr l = b \<and> a \<in> set (lf_blkhd l))" for a b
    using assms(1) by (auto simp: book_def waiting_def)
  show "book (lock' # f\<lparr>lf_blkhd := []\<rparr> # T) st'"
    using assms w book_disjoint [OF f] by (auto simp: book_def waiting_def take_blocked_def split: if_splits)
  have "ls_wait st a = Some (lf_addr f)" if "a \<in> set (lf_blkhd f)" for a using w that by blast
  then show "evolves st st'" using assms(2) by (auto simp: evolves_def take_blocked_def split: if_splits)
qed

subsection \<open>Clearing keeps the books\<close>

text \<open>The state \<open>st'\<close> has the books of \<open>st\<close>, with the structures \<open>T\<close> in use.\<close>

definition booked :: "lockf list \<Rightarrow> lstate \<Rightarrow> lstate \<Rightarrow> bool" where
  "booked T st st' \<longleftrightarrow> book T st' \<and> evolves st st'"

lemma booked_refl: "book T st \<Longrightarrow> booked T st st"
  by (simp add: booked_def evolves_refl)

lemma booked_trans: "evolves st st' \<Longrightarrow> booked T st' st'' \<Longrightarrow> booked T st st''"
  using evolves_trans by (auto simp: booked_def)

lemma booked_locks [simp]: "booked T st (st'\<lparr>ls_locks := x\<rparr>) = booked T st st'"
  by (simp add: booked_def)

lemma mid_wake:
  assumes "book (P @ f # R) st" "lf_wakelock st f = (st', f')"
  shows "booked (P @ f' # R) st st'"
proof -
  have "book (f # P @ R) st" by (rule book_perm [OF assms(1)]) simp
  note b = book_wake [OF this assms(2)]
  have "book (P @ f' # R) st'" by (rule book_perm [OF b(1)]) simp
  then show ?thesis using b(2) by (simp add: booked_def)
qed

lemma mid_same:
  assumes "book (P @ f # R) st" "lf_addr g = lf_addr f" "lf_blkhd g = lf_blkhd f" "lf_uid g = lf_uid f"
  shows "book (P @ g # R) st"
proof -
  have "book (f # P @ R) st" by (rule book_perm [OF assms(1)]) simp
  from book_same [OF this assms(2-4)] show ?thesis by (rule book_perm) simp
qed

lemma mid_free:
  assumes "book (P @ f # R) st" "lf_blkhd f = []" "lf_uid g = lf_uid f"
  shows "book (P @ R) (lf_free st g)"
proof -
  have "book (f # P @ R) st" by (rule book_perm [OF assms(1)]) simp
  from book_free [OF this assms(2,3)] show ?thesis .
qed

lemma mid_split:
  assumes "book (P @ f # R) st" "lf_split st f lock R = (st', After l1 after)"
  shows "booked (P @ l1 # after) st st'" "lf_addr l1 = lf_addr f \<and> lf_blkhd l1 = lf_blkhd f \<and> lf_uid l1 = lf_uid f"
proof -
  have b: "book (P @ f\<lparr>lf_end := lf_start lock - 1\<rparr> # R) st" by (rule mid_same [OF assms(1)]) simp_all
  let ?g = "f\<lparr>lf_addr := ls_next st, lf_start := off_wrap (lf_end lock + 1), lf_blkhd := []\<rparr>"
  let ?st = "st\<lparr>ls_cnt := (ls_cnt st)(lf_uid f := ls_cnt st (lf_uid f) + 1), ls_next := ls_next st + 1\<rparr>"
  have g: "book (?g # P @ f\<lparr>lf_end := lf_start lock - 1\<rparr> # R) ?st" using book_alloc [OF b, of ?g] by simp
  have alloc: "lf_alloc st (lf_uid f) 0 = (if ls_low st then LPool (st\<lparr>ls_cnt := (ls_cnt st)(lf_uid f := ls_cnt st (lf_uid f) + 1)\<rparr>)
      else LDone (Some (?st, ls_next st)))" by (simp add: lf_alloc_def Let_def)
  have s: "booked (P @ f\<lparr>lf_end := lf_start lock - 1\<rparr> # ?g # R) st ?st"
    using book_perm [OF g, of "P @ f\<lparr>lf_end := lf_start lock - 1\<rparr> # ?g # R"] by (simp add: booked_def evolves_def)
  show "booked (P @ l1 # after) st st'"
    using assms(2) booked_refl [OF b] s by (auto simp: lf_split_def alloc Let_def split: if_splits)
  show "lf_addr l1 = lf_addr f \<and> lf_blkhd l1 = lf_blkhd f \<and> lf_uid l1 = lf_uid f"
    using assms(2) by (auto simp: lf_split_def alloc Let_def split: if_splits)
qed

lemma clear_loop_books:
  "book (F @ pre @ lfs) st \<Longrightarrow> clear_loop st lock pre lfs = LDone st' \<Longrightarrow> booked (F @ ls_locks st') st st'"
proof (induction "length lfs" arbitrary: pre lfs st rule: less_induct)
  case less
  obtain c P rest where fo: "lf_findoverlap True lock pre lfs = (c, P, rest)" by (metis prod_cases3)
  have eq: "pre @ lfs = P @ rest" using lf_findoverlap_app [OF fo] by auto
  note res = less.prems(2)
  show ?case
  proof (cases "rest = [] \<or> c = 0")
    case True
    then show ?thesis using res fo eq booked_refl [OF less.prems(1)] by (cases rest) (auto simp: clear_loop.simps [of st lock])
  next
    case False
    then obtain f R where rest: "rest = f # R" by (cases rest) auto
    obtain st1 f1 where w: "lf_wakelock st f = (st1, f1)" by fastforce
    have f1: "f1 = f\<lparr>lf_blkhd := []\<rparr>" using w by (auto simp: lf_wakelock_def)
    have b: "book ((F @ P) @ f1 # R) st1" "evolves st st1"
      using mid_wake [of "F @ P" f R st, OF _ w] less.prems(1) eq rest by (simp_all add: booked_def)
    have len: "length R < length lfs" using lf_findoverlap_length [OF fo] rest by simp
    have on: "booked (F @ P @ g # R) st st1" if "lf_addr g = lf_addr f1" "lf_blkhd g = lf_blkhd f1" "lf_uid g = lf_uid f1" for g
      using mid_same [OF b(1) that] b(2) by (simp add: booked_def)
    have fr: "booked (F @ P @ R) st (lf_free st1 f1)" using mid_free [OF b(1)] b(2) f1 by (simp add: booked_def)
    note unfold = res [unfolded clear_loop.simps [of st lock pre lfs] fo rest prod.case list.case w Let_def]
    consider "c = 1" | "c = 2" "lf_start f1 = lf_start lock" | "c = 2" "lf_start f1 \<noteq> lf_start lock" | "c = 3" | "c = 4" | "c \<notin> {0, 1, 2, 3, 4, 6}"
      using False unfold rest by (cases "c = 6") auto
    then show ?thesis
    proof cases
      case 1
      then show ?thesis using unfold fr by auto
    next
      case 2
      then show ?thesis using unfold on by auto
    next
      case 3
      then show ?thesis using unfold mid_split(1) [OF b(1), of lock] booked_trans [OF b(2)] by (auto split: split_res.splits prod.splits)
    next
      case 4
      then show ?thesis using unfold less.hyps [OF len, of P "lf_free st1 f1"] fr booked_trans [of st "lf_free st1 f1"] by (auto simp: booked_def)
    next
      case 5
      then show ?thesis using unfold less.hyps [OF len, of "P @ [f1\<lparr>lf_end := lf_start lock - 1\<rparr>]" st1] on [of "f1\<lparr>lf_end := lf_start lock - 1\<rparr>"]
          booked_trans [OF b(2)] by (auto simp: booked_def)
    next
      case 6
      then show ?thesis using unfold on by auto
    qed
  qed
qed

subsection \<open>Setting keeps the books\<close>

lemma booked_perm: "booked T st st' \<Longrightarrow> mset T' = mset T \<Longrightarrow> booked T' st st'"
  using book_perm by (auto simp: booked_def)

lemma mid_wake_same:
  assumes "book (P @ f # R) st" "lf_wakelock st g = (st', g')" "lf_addr g = lf_addr f" "lf_blkhd g = lf_blkhd f" "lf_uid g = lf_uid f"
  shows "booked (P @ g' # R) st st'"
  by (rule mid_wake [OF mid_same [OF assms(1,3-5)] assms(2)])

lemma mid_take:
  assumes "book (F @ lock # Q @ f # R) st" "take_blocked st lock f = (st1, lock1)"
  shows "booked (F @ lock1 # Q @ R) st (lf_free st1 f)"
proof -
  have "book (lock # f # F @ Q @ R) st" by (rule book_perm [OF assms(1)]) simp
  note t = book_take [OF this assms(2)]
  have "book ((F @ lock1 # Q) @ f\<lparr>lf_blkhd := []\<rparr> # R) st1" by (rule book_perm [OF t(1)]) simp
  from mid_free [OF this, of f] t(2) show ?thesis by (simp add: booked_def)
qed

lemma mid_drop:
  assumes "book (F @ lock # Q @ f # R) st"
  shows "booked (F @ lock # Q @ R) st (lf_free (fst (lf_wakelock st f)) f)"
proof -
  have "booked ((F @ lock # Q) @ f\<lparr>lf_blkhd := []\<rparr> # R) st (fst (lf_wakelock st f))"
    by (rule mid_wake) (use assms in \<open>simp_all add: lf_wakelock_def\<close>)
  then show ?thesis using mid_free [of "F @ lock # Q" "f\<lparr>lf_blkhd := []\<rparr>" R _ f] by (simp add: booked_def)
qed

text \<open>Case 3: the overlap goes, and the walk goes on with a lock that differs in its list at most.\<close>

lemma set_contains_books:
  assumes "book (F @ lock # Q @ f # R) st"
    and "\<And>st1 x. book (F @ lock\<lparr>lf_blkhd := x\<rparr> # Q @ R) st1 \<Longrightarrow> set_loop st1 (lock\<lparr>lf_blkhd := x\<rparr>) False A B R = LDone st' \<Longrightarrow> booked T st1 st'"
    and "(let (st, lock) = (if lf_type lock = F_RDLCK \<and> lf_type f = F_WRLCK then (fst (lf_wakelock st f), lock) else take_blocked st lock f)
          in set_loop (lf_free st f) lock False A B R) = LDone st'"
  shows "booked T st st'"
proof (cases "lf_type lock = F_RDLCK \<and> lf_type f = F_WRLCK")
  case True
  have b: "booked (F @ lock # Q @ R) st (lf_free (fst (lf_wakelock st f)) f)" by (rule mid_drop [OF assms(1)])
  then have "booked T (lf_free (fst (lf_wakelock st f)) f) st'"
    using assms(2) [of "lf_blkhd lock" "lf_free (fst (lf_wakelock st f)) f"] assms(3) True by (simp add: booked_def)
  then show ?thesis using b booked_trans unfolding booked_def by blast
next
  case False
  obtain st1 x where t: "take_blocked st lock f = (st1, lock\<lparr>lf_blkhd := x\<rparr>)" using take_blocked_eq by blast
  have b: "booked (F @ lock\<lparr>lf_blkhd := x\<rparr> # Q @ R) st (lf_free st1 f)" by (rule mid_take [OF assms(1) t])
  then have "booked T (lf_free st1 f) st'" using assms(2) [of x "lf_free st1 f"] assms(3) False t by (auto simp: booked_def)
  then show ?thesis using b booked_trans unfolding booked_def by blast
qed

lemma set_linked_books:
  "book (F @ lock # pre @ mid @ lfs) st \<Longrightarrow> lf_ok lock \<Longrightarrow> own_ok (own (lf_id lock) lfs) \<Longrightarrow>
   \<forall>l\<in>set (own (lf_id lock) lfs). lf_start lock < lf_start l \<Longrightarrow>
   set_loop st lock False pre mid lfs = LDone st' \<Longrightarrow> booked (F @ ls_locks st') st st'"
proof (induction "length lfs" arbitrary: mid lfs st lock rule: less_induct)
  case less
  note b = less.prems(1) and l = less.prems(2) and ok = less.prems(3) and up = less.prems(4) and res = less.prems(5)
  have "own_ok (own (lf_id lock) ([] @ lfs))" using ok by simp
  from this l show ?case
  proof (cases rule: walk_cases [where pre' = mid])
    case (none xs rest)
    have "booked (F @ pre @ lock # mid @ lfs) st st" by (rule booked_perm [OF booked_refl [OF b]]) simp
    then show ?thesis using res none(1,2) by (auto simp: set_loop.simps [of st lock])
  next
    case (found xs f R)
    have st: "lf_start lock < lf_start f" using up found(2,4) by simp
    note iff = ovcase_iff [OF found(5) l]
    have len: "length R < length lfs" using found(2) by simp
    have bf: "book (F @ lock # (pre @ mid @ xs) @ f # R) st" using b found(2) by simp
    note unfold = res [unfolded set_loop.simps [of st lock] if_False if_True found(1)]
    consider "ovcase f lock = 3" | "ovcase f lock = 5" using found(6) st iff(2,3,5) by auto
    then show ?thesis
    proof cases
      case 1
      have R: "own_ok (own (lf_id lock) R)" "\<forall>l\<in>set (own (lf_id lock) R). lf_start lock < lf_start l"
        using ok up found(2,4) by (auto simp: own_ok_app own_ok_Cons)
      show ?thesis
      proof (rule set_contains_books [OF bf, where A = pre and B = "mid @ xs"])
        show "(let (st, lock) = (if lf_type lock = F_RDLCK \<and> lf_type f = F_WRLCK then (fst (lf_wakelock st f), lock) else take_blocked st lock f)
          in set_loop (lf_free st f) lock False pre (mid @ xs) R) = LDone st'" using unfold 1 by simp
      qed (use less.hyps [OF len, of "lock\<lparr>lf_blkhd := _\<rparr>" "mid @ xs"] l R in auto)
    next
      case 2
      let ?g = "f\<lparr>lf_start := off_wrap (lf_end lock + 1)\<rparr>"
      have "booked ((F @ lock # pre @ mid @ xs) @ ?g\<lparr>lf_blkhd := []\<rparr> # R) st (fst (lf_wakelock st ?g))"
        by (rule mid_wake_same [of _ f _ _ ?g]) (use bf in \<open>simp_all add: lf_wakelock_def\<close>)
      from booked_perm [OF this, of "F @ pre @ lock # (mid @ xs) @ ?g\<lparr>lf_blkhd := []\<rparr> # R"]
      show ?thesis using unfold 2 by (auto simp: lf_wakelock_def)
    qed
  qed
qed

lemma lock_free:
  assumes "booked (F @ lock # Q) st st1" "lf_blkhd lock = []"
  shows "booked (F @ Q) st (lf_free st1 lock)"
  using mid_free [of F lock Q st1 lock] assms by (simp add: booked_def)

lemma split_wake_books:
  assumes "book (F @ lock # P @ f # R) st" "lf_split st f lock R = (st1, After l1 after)" "lf_wakelock st1 l1 = (st2, l2)"
  shows "booked (F @ P @ l2 # lock # after) st st2"
proof -
  have b: "book ((F @ lock # P) @ f # R) st" using assms(1) by simp
  note s = mid_split [OF b assms(2)]
  have "booked ((F @ lock # P) @ l2 # after) st1 st2" by (rule mid_wake [OF _ assms(3)]) (use s in \<open>simp add: booked_def\<close>)
  then have "booked ((F @ lock # P) @ l2 # after) st st2" using s(1) booked_trans by (auto simp: booked_def)
  then show ?thesis by (rule booked_perm) simp
qed

lemma set_loop_books:
  assumes b: "book (F @ lock # lfs) st" and l: "lf_ok lock" and ok: "own_ok (own (lf_id lock) lfs)" and e: "lf_blkhd lock = []"
    and res: "set_loop st lock True [] [] lfs = LDone st'"
  shows "booked (F @ ls_locks st') st st'"
proof -
  have "own_ok (own (lf_id lock) ([] @ lfs))" using ok by simp
  from this l show ?thesis
  proof (cases rule: walk_cases [where pre' = "[]"])
    case (none xs rest)
    have "booked (F @ xs @ lock # rest) st st" by (rule booked_perm [OF booked_refl [OF b]]) (simp add: none(2))
    then show ?thesis using res none(1) by (auto simp: set_loop.simps [of st lock])
  next
    case (found P f R)
    note iff = ovcase_iff [OF found(5) l] and hi = lf_ok_hi [OF found(5)] lf_ok_hi [OF l]
    have bf: "book (F @ lock # P @ f # R) st" using b found(2) by simp
    note unfold = res [unfolded set_loop.simps [of st lock] if_False if_True found(1)]
    have R: "own_ok (own (lf_id lock) R)" using ok found(2,4) by (simp add: own_ok_app own_ok_Cons)
    have up: "\<forall>l\<in>set (own (lf_id lock) R). lf_start lock < lf_start l" if "lf_start lock \<le> lf_hi f"
      using ok found(2,4) that by (auto simp: own_ok_app own_ok_Cons before_def)
    have wk: "booked (F @ lock # P @ g\<lparr>lf_blkhd := []\<rparr> # R) st (fst (lf_wakelock st g))"
      if "lf_addr g = lf_addr f" "lf_blkhd g = lf_blkhd f" "lf_uid g = lf_uid f" for g
      using mid_wake_same [of "F @ lock # P" f R st g "fst (lf_wakelock st g)" "g\<lparr>lf_blkhd := []\<rparr>"] bf that by (simp add: lf_wakelock_def)
    have sm: "booked (F @ lock # P @ g # R) st st1"
      if "booked (F @ lock # P @ h # R) st st1" "lf_addr g = lf_addr h" "lf_blkhd g = lf_blkhd h" "lf_uid g = lf_uid h" for g h st1
      using mid_same [of "F @ lock # P" h R st1 g] that by (simp add: booked_def)
    consider "ovcase f lock = 1" | "ovcase f lock = 2" "lf_type f = lf_type lock" | "ovcase f lock = 2" "lf_type f \<noteq> lf_type lock"
      | "ovcase f lock = 3" | "ovcase f lock = 4" | "ovcase f lock = 5" using found(6) by auto
    then show ?thesis
    proof cases
      case 1
      have "booked (F @ P @ f\<lparr>lf_type := lf_type lock\<rparr> # R) st (lf_free st lock)"
        by (rule lock_free [OF sm [OF booked_refl [OF bf]] e]) simp_all
      moreover have "booked (F @ P @ f\<lparr>lf_blkhd := [], lf_type := lf_type lock\<rparr> # R) st (lf_free (fst (lf_wakelock st f)) lock)"
        by (rule lock_free [OF sm [OF wk [of f]] e]) simp_all
      ultimately show ?thesis using unfold 1 by (auto simp: lf_wakelock_def split: if_splits)
    next
      case 2
      then show ?thesis using unfold lock_free [OF booked_refl [OF bf] e] by auto
    next
      case 3
      let ?g = "f\<lparr>lf_start := off_wrap (lf_end lock + 1)\<rparr>"
      show ?thesis
      proof (cases "lf_start f = lf_start lock")
        case True
        have "booked (F @ P @ lock # ?g\<lparr>lf_blkhd := []\<rparr> # R) st (fst (lf_wakelock st ?g))"
          by (rule booked_perm [OF wk [of ?g]]) simp_all
        then show ?thesis using unfold 3 True by (auto simp: lf_wakelock_def)
      next
        case False
        then have "lf_start f < lf_start lock" "lf_hi lock \<le> lf_hi f" using iff(3) 3 by auto
        then have "lf_start f \<noteq> lf_start lock" by simp
        then obtain st1 l1 after where s: "lf_split st f lock R = (st1, After l1 after)"
          using unfold 3 by (auto simp: lf_split_def lf_alloc_def Let_def split: if_splits)
        obtain st2 l2 where w: "lf_wakelock st1 l1 = (st2, l2)" by fastforce
        show ?thesis using unfold 3 False s w split_wake_books [OF bf s w] by auto
      qed
    next
      case 4
      then have "lf_start lock \<le> lf_hi f" using iff(4) hi by auto
      note up = up [OF this]
      show ?thesis
      proof (rule set_contains_books [OF bf, where A = P and B = "[]"])
        show "(let (st, lock) = (if lf_type lock = F_RDLCK \<and> lf_type f = F_WRLCK then (fst (lf_wakelock st f), lock) else take_blocked st lock f)
          in set_loop (lf_free st f) lock False P [] R) = LDone st'" using unfold 4 by simp
      qed (use set_linked_books [where lock = "lock\<lparr>lf_blkhd := _\<rparr>" and mid = "[]"] l R up in auto)
    next
      case 5
      let ?h = "f\<lparr>lf_end := lf_start lock - 1\<rparr>"
      have w: "booked (F @ lock # (P @ [?h\<lparr>lf_blkhd := []\<rparr>]) @ [] @ R) st (fst (lf_wakelock st ?h))" using wk [of ?h] by simp
      have "set_loop (fst (lf_wakelock st ?h)) lock False (P @ [?h\<lparr>lf_blkhd := []\<rparr>]) [] R = LDone st'"
        using unfold 5 by (simp add: lf_wakelock_def)
      moreover have "lf_start lock \<le> lf_hi f" using iff(5) 5 by auto
      ultimately have "booked (F @ ls_locks st') (fst (lf_wakelock st ?h)) st'"
        using set_linked_books [OF conjunct1 [OF w [unfolded booked_def]] l R up] by blast
      then show ?thesis using w booked_trans by (auto simp: booked_def)
    next
      case 6
      let ?g = "f\<lparr>lf_start := off_wrap (lf_end lock + 1)\<rparr>"
      have "booked (F @ P @ lock # ?g\<lparr>lf_blkhd := []\<rparr> # R) st (fst (lf_wakelock st ?g))"
        by (rule booked_perm [OF wk [of ?g]]) simp_all
      then show ?thesis using unfold 6 by (auto simp: lf_wakelock_def)
    qed
  qed
qed

end
