(* ===== verification/Lockf_Threads.thy ===== *)
theory Lockf_Threads
  imports Lockf_Wait
begin

text \<open>
  The threads that use the locks of a file.  A request that has to wait is put on the list of
  the lock in its way and sleeps; other threads run meanwhile, and the request goes on when it
  is woken or interrupted.
\<close>

subsection \<open>Waiting\<close>

text \<open>Queues aside, the locks are the same.\<close>

definition same_locks :: "lockf list \<Rightarrow> lockf list \<Rightarrow> bool" where
  "same_locks ls ls' \<longleftrightarrow> map (lf_blkhd_update (\<lambda>_. [])) ls' = map (lf_blkhd_update (\<lambda>_. [])) ls"

lemma own_strip: "own p (map (lf_blkhd_update (\<lambda>_. [])) ls) = map (lf_blkhd_update (\<lambda>_. [])) (own p ls)"
  by (induction ls) auto

lemma strip_simps: "own_ok (map (lf_blkhd_update (\<lambda>_. [])) ls) = own_ok ls" "hold (map (lf_blkhd_update (\<lambda>_. [])) ls) i t = hold ls i t"
  by (induction ls) (auto simp: own_ok_Cons before_def own_ok_def covers_def)

lemma same_locks_same:
  assumes "same_locks ls ls'"
  shows "locks_ok ls' = locks_ok ls" "holds ls' = holds ls"
proof -
  have o: "map (lf_blkhd_update (\<lambda>_. [])) (own p ls') = map (lf_blkhd_update (\<lambda>_. [])) (own p ls)" for p
    using assms own_strip unfolding same_locks_def by metis
  show "locks_ok ls' = locks_ok ls" unfolding locks_ok_def using o strip_simps(1) by metis
  show "holds ls' = holds ls" unfolding holds_def fun_eq_iff using o strip_simps(2) by metis
qed

lemma block_on_same: "same_locks (ls_locks st) (ls_locks (block_on st lock block))"
  by (auto simp: same_locks_def block_on_def)

lemma unblock_same: "same_locks (ls_locks st) (ls_locks (unblock st lock))"
  by (auto simp: same_locks_def unblock_def split: option.splits)

text \<open>Both only change the lists of one lock, found by its address.\<close>

lemma map_addr:
  assumes "distinct (map lf_addr (P @ b # R))"
  shows "map (\<lambda>l. if lf_addr l = lf_addr b then g l else l) (P @ b # R) = P @ g b # R"
proof -
  have "lf_addr b \<notin> lf_addr ` set P" "lf_addr b \<notin> lf_addr ` set R" using assms by auto
  then show ?thesis by (auto intro!: map_idI simp: image_iff)
qed

lemma block_on_books:
  assumes b: "book (F @ lock # ls_locks st) st" and m: "block \<in> set (ls_locks st)" and w: "ls_wait st (lf_addr lock) = None"
  shows "book (F @ lock # ls_locks (block_on st lock block)) (block_on st lock block)"
proof -
  obtain P R where ls: "ls_locks st = P @ block # R" using m by (meson split_list)
  let ?g = "block\<lparr>lf_blkhd := lf_blkhd block @ [lf_addr lock]\<rparr>"
  have "book ((F @ lock # P) @ block # R) st" using b ls by simp
  then have c: "book (block # F @ lock # P @ R) st" by (rule book_perm) simp
  have n: "lf_addr lock \<notin> set (lf_blkhd l)" if "l \<in> set (block # F @ lock # P @ R)" for l
  proof
    assume "lf_addr lock \<in> set (lf_blkhd l)"
    then have "ls_wait st (lf_addr lock) = Some (lf_addr l)" using c that unfolding book_def waiting_def by blast
    then show False using w by simp
  qed
  have "book (?g # F @ lock # P @ R) (block_on st lock block)"
    using c n unfolding book_def waiting_def by (auto simp: block_on_def split: if_splits)
  moreover have "ls_locks (block_on st lock block) = P @ ?g # R"
    using b ls map_addr [of P block R] by (simp add: block_on_def book_def)
  ultimately show ?thesis using book_perm [of "?g # F @ lock # P @ R" _ "F @ lock # P @ ?g # R"] by simp
qed

lemma unblock_books:
  assumes b: "book (F @ ls_locks st) st" and F: "\<forall>q\<in>set F. lf_blkhd q = []"
  shows "book (F @ ls_locks (unblock st lock)) (unblock st lock)"
proof (cases "ls_wait st (lf_addr lock)")
  case None
  then show ?thesis using b by (simp add: unblock_def)
next
  case (Some a)
  then obtain l where "l \<in> set (F @ ls_locks st)" "lf_addr l = a" "lf_addr lock \<in> set (lf_blkhd l)"
    using b unfolding book_def waiting_def by blast
  then have l: "l \<in> set (ls_locks st)" "a = lf_addr l" using F by auto
  obtain P R where ls: "ls_locks st = P @ l # R" using l(1) by (meson split_list)
  let ?g = "l\<lparr>lf_blkhd := remove1 (lf_addr lock) (lf_blkhd l)\<rparr>"
  have "book ((F @ P) @ l # R) st" using b ls by simp
  then have c: "book (l # F @ P @ R) st" by (rule book_perm) simp
  have n: "lf_addr lock \<notin> set (lf_blkhd m)" if "m \<in> set (F @ P @ R)" for m
  proof
    assume "lf_addr lock \<in> set (lf_blkhd m)"
    then have "ls_wait st (lf_addr lock) = Some (lf_addr m)" using c that unfolding book_def waiting_def by auto
    then show False using Some l(2) that c by (auto simp: book_def)
  qed
  have e: "unblock st lock = st\<lparr>ls_locks := P @ ?g # R, ls_wait := (ls_wait st)(lf_addr lock := None)\<rparr>"
    using Some b ls l(2) map_addr [of P l R "\<lambda>l. l\<lparr>lf_blkhd := remove1 (lf_addr lock) (lf_blkhd l)\<rparr>"]
    by (simp add: unblock_def book_def)
  have "book (?g # F @ P @ R) (unblock st lock)" using c n unfolding book_def waiting_def e by (auto split: if_splits)
  then show ?thesis using book_perm [of "?g # F @ P @ R" _ "F @ P @ ?g # R"] e by simp
qed

subsection \<open>The invariant\<close>

text \<open>
  \<open>F\<close> are the requests that sleep.  Besides the shape of the list, the exclusion of conflicting
  locks and the books, every sleeping request is on the list of a lock or was woken, never both,
  and there is memory.
\<close>

definition queue_ok :: "lockf list \<Rightarrow> lstate \<Rightarrow> bool" where
  "queue_ok F st \<longleftrightarrow> (\<forall>q\<in>set F. lf_ok q \<and> lf_blkhd q = [] \<and> (ls_wait st (lf_addr q) \<noteq> None \<or> lf_addr q \<in> set (ls_woken st))) \<and>
     (\<forall>a. ls_wait st a \<noteq> None \<longrightarrow> a \<in> lf_addr ` set F) \<and> (\<forall>a\<in>set (ls_woken st). ls_wait st a = None)"

definition table_ok :: "lstate \<Rightarrow> bool" where
  "table_ok st \<longleftrightarrow> locks_ok (ls_locks st) \<and> exclusive (holds (ls_locks st))"

definition lf_inv :: "lockf list \<Rightarrow> lstate \<Rightarrow> bool" where
  "lf_inv F st \<longleftrightarrow> table_ok st \<and> \<not> ls_low st \<and> book (F @ ls_locks st) st \<and> queue_ok F st"

text \<open>A thread that is about to set a lock.\<close>

definition ready :: "lockf list \<Rightarrow> lockf \<Rightarrow> lstate \<Rightarrow> bool" where
  "ready F lock st \<longleftrightarrow> table_ok st \<and> \<not> ls_low st \<and> book (F @ lock # ls_locks st) st \<and> queue_ok F st \<and> lf_ok lock \<and> lf_blkhd lock = []"

definition settled :: "lockf list \<Rightarrow> lockf \<Rightarrow> (lwakes \<times> lstate \<times> nat) lfres \<Rightarrow> bool" where
  "settled F lock r \<longleftrightarrow> (case r of LDone (sl, st, error) \<Rightarrow> sl = [] \<and> lf_inv F st | LAsleep st \<Rightarrow> lf_inv (lock # F) st | _ \<Rightarrow> False)"

lemma queue_evolves:
  assumes q: "queue_ok F st" and e: "evolves st st'"
  shows "queue_ok F st'"
proof -
  have w: "ls_wait st' a \<noteq> None \<Longrightarrow> ls_wait st a \<noteq> None" "ls_wait st a \<noteq> None \<Longrightarrow> ls_wait st' a \<noteq> None \<or> a \<in> set (ls_woken st')"
    "a \<in> set (ls_woken st) \<Longrightarrow> a \<in> set (ls_woken st')" "a \<in> set (ls_woken st') \<Longrightarrow> a \<in> set (ls_woken st) \<or> ls_wait st' a = None" for a
    using e by (auto simp only: evolves_def)
  have "ls_wait st' a = None" if "a \<in> set (ls_woken st')" for a
    using q w(1) [of a] w(4) [OF that] unfolding queue_ok_def by (cases "ls_wait st' a") auto
  moreover have "ls_wait st' (lf_addr p) \<noteq> None \<or> lf_addr p \<in> set (ls_woken st')" if "p \<in> set F" for p
    using q that w(2,3) [of "lf_addr p"] by (auto simp only: queue_ok_def)
  moreover have "a \<in> lf_addr ` set F" if "ls_wait st' a \<noteq> None" for a
    using q w(1) [OF that] by (auto simp only: queue_ok_def)
  ultimately show ?thesis using q by (simp add: queue_ok_def)
qed

lemma queue_simps [simp]: "queue_ok F (lf_free st l) = queue_ok F st" "queue_ok F (st\<lparr>ls_locks := x\<rparr>) = queue_ok F st"
  by (simp_all add: queue_ok_def lf_free_def)

lemma table_simps [simp]: "table_ok (lf_free st l) = table_ok st"
  by (simp add: table_ok_def)

lemma ready_unwaited: "ready F lock st \<Longrightarrow> ls_wait st (lf_addr lock) = None"
  unfolding ready_def queue_ok_def book_def by force

lemma ready_free: "ready F lock st \<Longrightarrow> lf_inv F (lf_free st lock)"
  using mid_free [of F lock "ls_locks st" st lock] by (simp add: ready_def lf_inv_def)

lemma ready_clear:
  assumes r: "ready F lock st" and l: "lf_ok l"
  shows "\<exists>st'. lf_clearlock st l = LDone st' \<and> ready F lock st' \<and> (\<forall>b\<in>set (ls_locks st). lf_id b \<noteq> lf_id l \<longrightarrow> b \<in> set (ls_locks st'))"
proof -
  have ok: "locks_ok (ls_locks st)" "exclusive (holds (ls_locks st))" "\<not> ls_low st" and b: "book ((F @ [lock]) @ [] @ ls_locks st) st"
    using r by (simp_all add: ready_def table_ok_def)
  from lf_clearlock_post [OF ok(1) l ok(3)] obtain st' where
    c: "lf_clearlock st l = LDone st'" "cleared l (ls_locks st) (ls_locks st')" by blast
  have t: "table_ok st'" using lk.clear_exclusive [OF ok(1) l ok(3,2)] c(1) by (simp add: table_ok_def)
  have "booked ((F @ [lock]) @ ls_locks st') st st'"
    using c(1) clear_loop_books [OF b] booked_refl [OF b] by (auto simp: lf_clearlock_def split: if_splits)
  then have "ready F lock st'" using r t queue_evolves by (auto simp: ready_def booked_def evolves_def)
  moreover have "\<forall>b\<in>set (ls_locks st). lf_id b \<noteq> lf_id l \<longrightarrow> b \<in> set (ls_locks st')"
  proof (intro ballI impI)
    fix b assume "b \<in> set (ls_locks st)" "lf_id b \<noteq> lf_id l"
    then have "b \<in> set (own (lf_id b) (ls_locks st))" "own (lf_id b) (ls_locks st') = own (lf_id b) (ls_locks st)"
      using c(2) by (auto simp: retyped_def own_def)
    then show "b \<in> set (ls_locks st')" unfolding own_def by (metis filter_is_subset subsetD)
  qed
  ultimately show ?thesis using c(1) by blast
qed

lemma ready_put:
  assumes r: "ready F lock st" and g: "lf_getblock st lock = LDone None"
  shows "\<exists>st'. set_loop st lock True [] [] (ls_locks st) = LDone st' \<and> lf_inv F st'"
proof -
  have ok: "locks_ok (ls_locks st)" "exclusive (holds (ls_locks st))" "\<not> ls_low st" and l: "lf_ok lock" and b: "book (F @ lock # ls_locks st) st"
    using r by (simp_all add: ready_def table_ok_def)
  from lk.put_exclusive [OF ok(1) l ok(3) g ok(2)] obtain st' where
    s: "set_loop st lock True [] [] (ls_locks st) = LDone st'" "table_ok st'" by (auto simp: table_ok_def)
  have "booked (F @ ls_locks st') st st'" by (rule set_loop_books [OF b l _ _ s(1)]) (use ok(1) r in \<open>simp_all add: locks_ok_def ready_def\<close>)
  then show ?thesis using s r queue_evolves by (auto simp: ready_def booked_def lf_inv_def evolves_def)
qed

lemma ready_sleep:
  assumes r: "ready F lock st" and m: "block \<in> set (ls_locks st)"
  shows "lf_inv (lock # F) (block_on st lock block)"
proof -
  let ?st = "block_on st lock block"
  have b: "book (F @ lock # ls_locks ?st) ?st"
    using block_on_books [OF _ m ready_unwaited [OF r]] r by (simp add: ready_def)
  have "book ((lock # F) @ ls_locks ?st) ?st" by (rule book_perm [OF b]) simp
  moreover have "table_ok ?st" using r same_locks_same [OF block_on_same [of st lock block]] by (simp add: ready_def table_ok_def)
  moreover have "queue_ok (lock # F) ?st" using r by (auto simp: queue_ok_def ready_def block_on_def)
  moreover have "\<not> ls_low ?st" using r by (simp add: ready_def block_on_def)
  ultimately show ?thesis by (simp add: lf_inv_def)
qed

text \<open>
  What the sleep functions provide to the deadlock check: the wait channel of a process that sleeps
  with the message of \<^verbatim>\<open>lf_setlock\<close> is a request that waits for a lock.  A wakeup clears the
  channel, and \<^verbatim>\<open>lf_wakelock\<close> wakes the request it unlinks.
\<close>

definition reads_ok :: "kmem \<Rightarrow> bool" where
  "reads_ok mem \<longleftrightarrow> (\<forall>p c. p_wchan (proc_at mem p) = Some c \<and> p_lockstr (proc_at mem p) \<longrightarrow> next_at mem c \<noteq> None)"

lemma walk_reads:
  assumes "reads_ok mem"
  shows "\<exists>b. deadlock_walk mem me n p = Some b"
proof (induction n arbitrary: p)
  case (Suc n)
  have "next_at mem c \<noteq> None" if "p_wchan (proc_at mem p) = Some c" "p_lockstr (proc_at mem p)" for c
    using assms that by (auto simp: reads_ok_def)
  then show ?case using Suc by (fastforce split: option.splits prod.splits)
qed auto

lemma setlock_settles:
  assumes r: "ready F lock st" and mem: "reads_ok mem"
  shows "settled F lock (lf_setlock [] mem st lock)"
proof -
  have ok: "locks_ok (ls_locks st)" and l: "lf_ok lock" using r by (simp_all add: ready_def table_ok_def)
  show ?thesis
  proof (cases "find (blocks lock) (ls_locks st)")
    case None
    then have g: "lf_getblock st lock = LDone None" using getblock_find [OF ok l] by simp
    from ready_put [OF r g] g show ?thesis by (auto simp: lf_setlock.simps settled_def)
  next
    case (Some b)
    then have g: "lf_getblock st lock = LDone (Some b)" using getblock_find [OF ok l] by simp
    have b: "b \<in> set (ls_locks st)" "lf_id b \<noteq> lf_id lock" using Some by (auto simp: find_Some_iff blocks_def)
    have "lf_ok (lock\<lparr>lf_type := F_UNLCK\<rparr>)" using l by (simp add: lf_ok_def)
    from ready_clear [OF r this] b obtain st1 where
      c: "lf_clearlock st (lock\<lparr>lf_type := F_UNLCK\<rparr>) = LDone st1" "ready F lock st1" "b \<in> set (ls_locks st1)" by auto
    obtain d where "deadlock_walk mem (lf_id lock) MAXDEPTH (lf_id b) = Some d" using walk_reads [OF mem] by blast
    then show ?thesis using g ready_free [OF r] ready_sleep [OF r b(1)] ready_sleep [OF c(2,3)] c(1)
      by (cases d) (simp_all add: lf_setlock.simps settled_def Let_def)
  qed
qed

subsection \<open>Threads\<close>

text \<open>What a sleeping request does when \<^verbatim>\<open>tsleep\<close> returns.\<close>

definition lf_resume :: "nat \<Rightarrow> kmem \<Rightarrow> lstate \<Rightarrow> lockf \<Rightarrow> (lwakes \<times> lstate \<times> nat) lfres" where
  "lf_resume error mem st lock =
     (let st = unblock st lock in if error \<noteq> 0 then LDone ([], lf_free st lock, error) else lf_setlock [] mem st lock)"

text \<open>It is what \<^verbatim>\<open>lf_setlock\<close> does in one piece when it knows how the sleep ends.\<close>

lemma setlock_resumes:
  "lf_setlock [] mem st lock = LAsleep st1 \<Longrightarrow> locks_ok (ls_locks st) \<Longrightarrow> lf_ok lock \<Longrightarrow> \<not> ls_low st \<Longrightarrow>
   lf_setlock [(error, others, mem')] mem st lock = lf_resume error mem' (others st1) lock"
  using getblock_find [of st lock] set_loop_post [of lock "ls_locks st" st] lf_clearlock_post [of st "lock\<lparr>lf_type := F_UNLCK\<rparr>"]
  by (auto simp: lf_setlock.simps [of "[]" mem] lf_setlock.simps [of "[(error, others, mem')]"] lf_resume_def Let_def locks_ok_def lf_ok_def
    split: option.splits if_splits lfres.splits bool.splits)

text \<open>
  A step of the system: a call that returns, a call that goes to sleep, a sleeping request
  that ends, and one that finds another lock in its way.  Ranges do not end at the largest offset.
  A call that has to wait for memory in \<^verbatim>\<open>pool_get\<close> takes no step: the runs are those in which there
  is memory, and \<open>upgrade_races\<close> below shows what happens otherwise.
\<close>

definition call_ok :: "int \<Rightarrow> flock \<Rightarrow> bool" where
  "call_ok sz fl \<longleftrightarrow> off_ok (l_start fl) \<and> (case lf_range sz fl of None \<Rightarrow> True | Some (s, e) \<Rightarrow> e \<noteq> OFF_MAX)"

inductive lk_step :: "lockf list \<times> lstate \<Rightarrow> lockf list \<times> lstate \<Rightarrow> bool" where
  returns: "reads_ok mem \<Longrightarrow> call_ok sz fl \<Longrightarrow> lf_advlock [] mem st sz uid owner pid op fl flags = LDone (sl, st', error, fl') \<Longrightarrow> lk_step (F, st) (F, st')"
| sleeps: "reads_ok mem \<Longrightarrow> call_ok sz fl \<Longrightarrow> lf_advlock [] mem st sz uid owner pid op fl flags = LAsleep st' \<Longrightarrow> lf_range sz fl = Some (s, e) \<Longrightarrow>
    lk_step (F, st) (lf_request (ls_next st) s e uid owner pid (l_type fl) flags # F, st')"
| resumes: "reads_ok mem \<Longrightarrow> lf_resume error mem st q = LDone (sl, st', error') \<Longrightarrow> lk_step (F @ q # G, st) (F @ G, st')"
| waits_on: "reads_ok mem \<Longrightarrow> lf_resume error mem st q = LAsleep st' \<Longrightarrow> lk_step (F @ q # G, st) (q # F @ G, st')"

definition lk_init :: "lockf list \<times> lstate" where
  "lk_init = ([], \<lparr>ls_locks = [], ls_cnt = (\<lambda>_. 0), ls_wait = (\<lambda>_. None), ls_woken = [], ls_next = 0, ls_low = False\<rparr>)"

abbreviation lk_reach :: "lockf list \<times> lstate \<Rightarrow> bool" where
  "lk_reach s \<equiv> rtranclp lk_step lk_init s"

lemma inv_init: "lf_inv (fst lk_init) (snd lk_init)"
  by (simp add: lk_init_def lf_inv_def table_ok_def locks_ok_def own_ok_def exclusive_def holds_def book_def waiting_def queue_ok_def)

lemma unblock_next: "evolves (unblock st q) st' \<Longrightarrow> ls_next st \<le> ls_next st'"
  by (auto simp: evolves_def unblock_def split: option.splits)

lemma inv_unblock:
  assumes "lf_inv (F @ q # G) st"
  shows "ready (F @ G) q (unblock st q)"
proof -
  have b: "book ((F @ q # G) @ ls_locks st) st" and Q: "queue_ok (F @ q # G) st" using assms by (simp_all add: lf_inv_def)
  have b1: "book ((F @ q # G) @ ls_locks (unblock st q)) (unblock st q)"
    by (rule unblock_books [OF b]) (use Q in \<open>simp add: queue_ok_def\<close>)
  have "book ((F @ G) @ q # ls_locks (unblock st q)) (unblock st q)" by (rule book_perm [OF b1]) simp
  moreover have "table_ok (unblock st q)" using assms same_locks_same [OF unblock_same [of st q]] by (simp add: lf_inv_def table_ok_def)
  moreover have "lf_addr q \<notin> lf_addr ` set (F @ G)" using b by (auto simp: book_def)
  then have "\<forall>p\<in>set (F @ G). lf_addr p \<noteq> lf_addr q" by (metis imageI)
  then have "queue_ok (F @ G) (unblock st q)" using Q by (auto simp: queue_ok_def unblock_def split: option.splits)
  moreover have "\<not> ls_low (unblock st q)" using assms by (simp add: lf_inv_def unblock_def split: option.splits)
  ultimately show ?thesis using Q by (simp add: ready_def queue_ok_def)
qed

lemma resume_settles:
  assumes "lf_inv (F @ q # G) st" and mem: "reads_ok mem"
  shows "settled (F @ G) q (lf_resume error mem st q)"
  using ready_free [OF inv_unblock [OF assms(1)]] setlock_settles [OF inv_unblock [OF assms(1)] mem]
  by (auto simp: lf_resume_def settled_def Let_def)

lemma alloc_ready:
  assumes i: "lf_inv F st" and c: "call_ok sz fl" "lf_range sz fl = Some (s, e)" and a: "lf_alloc st uid k = LDone (Some (st1, a))"
  shows "a = ls_next st" "ready F (lf_request (ls_next st) s e uid owner pid ty flags) st1"
proof -
  let ?q = "lf_request (ls_next st) s e uid owner pid ty flags"
  have st1: "st1 = st\<lparr>ls_cnt := (ls_cnt st)(uid := ls_cnt st uid + 1), ls_next := ls_next st + 1\<rparr>" "a = ls_next st"
    using a by (auto simp: lf_alloc_def Let_def split: if_splits)
  have "book (?q # F @ ls_locks st) st1" using book_alloc [of "F @ ls_locks st" st ?q] i st1(1) by (simp add: lf_inv_def)
  then have "book (F @ ?q # ls_locks st1) st1" using st1(1) by (auto intro: book_perm)
  moreover have "lf_ok ?q" using request_ok [of sz fl s e] c by (simp add: call_ok_def)
  ultimately show "ready F ?q st1" using i st1(1) by (simp add: ready_def lf_inv_def table_ok_def queue_ok_def)
  show "a = ls_next st" by (rule st1)
qed

text \<open>A call neither panics nor corrupts the list, and keeps the invariant.\<close>

lemma advlock_settles:
  assumes i: "lf_inv F st" and c: "call_ok sz fl" and mem: "reads_ok mem"
  shows "case lf_advlock [] mem st sz uid owner pid op fl flags of
      LDone (sl, st', error, fl') \<Rightarrow> sl = [] \<and> lf_inv F st'
    | LAsleep st' \<Rightarrow> (\<forall>s e. lf_range sz fl = Some (s, e) \<longrightarrow> lf_inv (lf_request (ls_next st) s e uid owner pid (l_type fl) flags # F) st')
    | _ \<Rightarrow> False"
proof (cases "lf_range sz fl")
  case None
  then show ?thesis using i by (simp add: lf_advlock_def)
next
  case (Some se)
  obtain s e where r: "lf_range sz fl = Some (s, e)" using Some by (cases se) auto
  show ?thesis
  proof (cases "(ls_locks st = [] \<and> op \<noteq> F_SETLK) \<or> over_limit st uid op")
    case True
    then show ?thesis using i r alloc_over [of st uid op] by (auto simp: lf_advlock_def)
  next
    case False
    let ?q = "lf_request (ls_next st) s e uid owner pid (l_type fl) flags"
    have nc: "\<not> (ls_locks st = [] \<and> op \<noteq> F_SETLK)" using False by simp
    obtain st1 a where a: "lf_alloc st uid (if op = F_SETLK then 1 else 2) = LDone (Some (st1, a))"
      using False alloc_under [of st uid op] i unfolding lf_inv_def by blast
    note q = alloc_ready(1) [OF i c r a] alloc_ready(2) [OF i c r a, of owner pid "l_type fl" flags]
    have ok: "lf_ok ?q" "locks_ok (ls_locks st1)" using q(2) by (simp_all add: ready_def table_ok_def)
    obtain st2 where cl: "lf_clearlock st1 ?q = LDone st2" "lf_inv F (lf_free st2 ?q)"
      using ready_clear [OF q(2) ok(1)] ready_free by blast
    have adv: "lf_advlock [] mem st sz uid owner pid op fl flags =
      (if op = F_SETLK then (case lf_setlock [] mem st1 ?q of LDone (sl, st, error) \<Rightarrow> LDone (sl, st, error, fl)
         | LPanic \<Rightarrow> LPanic | LCorrupt \<Rightarrow> LCorrupt | LAsleep st \<Rightarrow> LAsleep st | LPool st \<Rightarrow> LPool st)
       else if op = F_UNLCK then LDone ([], lf_free st2 ?q, 0, fl)
       else if op = F_GETLK then (case lf_getlock st1 ?q fl of LDone fl \<Rightarrow> LDone ([], lf_free st1 ?q, 0, fl)
         | LPanic \<Rightarrow> LPanic | LCorrupt \<Rightarrow> LCorrupt | LAsleep st \<Rightarrow> LAsleep st | LPool st \<Rightarrow> LPool st)
       else LDone ([], lf_free st1 ?q, EINVAL, fl))"
      unfolding lf_advlock_def r option.case prod.case if_not_P [OF nc] a lfres.case Let_def q(1) using cl(1) by simp
    show ?thesis unfolding adv using setlock_settles [OF q(2) mem] ready_free [OF q(2)] cl(2) getlock_find [OF ok(2,1), of fl] r
      by (auto simp: settled_def split: lfres.splits)
  qed
qed

lemma step_inv:
  assumes "lk_step s s'" "lf_inv (fst s) (snd s)"
  shows "lf_inv (fst s') (snd s')"
  using assms(1)
proof (cases rule: lk_step.cases)
  case (returns mem sz fl st uid owner pid op flags sl st' error fl' F)
  then show ?thesis using advlock_settles [of F st sz fl mem uid owner pid flags op] assms(2) by simp
next
  case (sleeps mem sz fl st uid owner pid op flags st' s e F)
  then show ?thesis using advlock_settles [of F st sz fl mem uid owner pid flags op] assms(2) by simp
next
  case (resumes mem error st q sl st' error' F G)
  then show ?thesis using resume_settles [of F q G st mem error] assms(2) by (simp add: settled_def)
next
  case (waits_on mem error st q st' F G)
  then show ?thesis using resume_settles [of F q G st mem error] assms(2) by (simp add: settled_def)
qed

lemma reach_inv: "lk_reach s \<Longrightarrow> lf_inv (fst s) (snd s)"
  by (induction rule: rtranclp_induct) (use inv_init step_inv in auto)

subsection \<open>What holds at all times\<close>

text \<open>
  A run for the examples: owner 1 locks the first ten bytes for writing, then owner 2 asks for
  them and goes to sleep.
\<close>

definition lk_one :: lstate where
  "lk_one = \<lparr>ls_locks = [lf_request 0 0 9 5 1 101 F_WRLCK F_POSIX], ls_cnt = (\<lambda>u. if u = 5 then 1 else 0),
     ls_wait = (\<lambda>_. None), ls_woken = [], ls_next = 1, ls_low = False\<rparr>"

definition lk_two :: lstate where
  "lk_two = \<lparr>ls_locks = [(lf_request 0 0 9 5 1 101 F_WRLCK F_POSIX)\<lparr>lf_blkhd := [1]\<rparr>], ls_cnt = (\<lambda>u. if u = 5 then 1 else if u = 6 then 1 else 0),
     ls_wait = (\<lambda>a. if a = 1 then Some 0 else None), ls_woken = [], ls_next = 2, ls_low = False\<rparr>"

definition lk_waiter :: lockf where
  "lk_waiter = lf_request 1 0 9 6 2 102 F_RDLCK (F_POSIX OR F_WAIT)"

lemma sample_call: "call_ok 0 (fl_sample 0 10 t)" "lf_range 0 (fl_sample 0 10 t) = Some (0, 9)" "reads_ok quiet"
  by (simp_all add: call_ok_def fl_sample_def lf_range_def off_ok_def OFF_MAX_def off_wrap_def reads_ok_def quiet_def)

lemma sample_first: "lk_step lk_init ([], lk_one)"
proof -
  have "lf_advlock [] quiet (snd lk_init) 0 5 1 101 F_SETLK (fl_sample 0 10 F_WRLCK) F_POSIX = LDone ([], lk_one, 0, fl_sample 0 10 F_WRLCK)"
    using sample_call(2) [of F_WRLCK]
    by (auto simp: lf_advlock_def lk_init_def lf_alloc_def lf_setlock.simps lf_getblock_def lf_getblock_loop.simps set_loop.simps lk_one_def fl_sample_def maxlocksperuid_def)
  from lk_step.returns [OF sample_call(3,1) this, of "[]"] show ?thesis by (simp add: lk_init_def)
qed

lemma no_waits: "deadlock_walk quiet me n p = Some False"
  by (cases n) (simp_all add: quiet_def)

lemma sample_second: "lk_step ([], lk_one) ([lk_waiter], lk_two)"
proof -
  have "lf_advlock [] quiet lk_one 0 6 2 102 F_SETLK (fl_sample 0 10 F_RDLCK) (F_POSIX OR F_WAIT) = LAsleep lk_two"
    using sample_call(2) [of F_RDLCK]
    by (auto simp: lf_advlock_def lk_one_def lf_alloc_def lf_setlock.simps lf_getblock_def lf_getblock_loop.simps lf_request_def ovcase_def
      has_flag_def no_waits block_on_def lk_two_def fl_sample_def maxlocksperuid_def Let_def fun_eq_iff)
  from lk_step.sleeps [OF sample_call(3,1) this sample_call(2), of "[]"] show ?thesis by (simp add: lk_waiter_def lk_one_def fl_sample_def)
qed

lemma sample_run: "lk_reach ([lk_waiter], lk_two)"
  using sample_first sample_second by (meson rtranclp.rtrancl_into_rtrancl rtranclp.rtrancl_refl)







subsection \<open>Deadlocks\<close>

text \<open>
  What an owner waits for in a state of the system: whether the lock in its way is a POSIX lock,
  and the owner of that lock; and whom it waits for after a number of hops over POSIX locks.
\<close>

definition sleeper :: "lockf list \<Rightarrow> lstate \<Rightarrow> nat \<Rightarrow> lockf option" where
  "sleeper F st p = find (\<lambda>q. lf_id q = p \<and> ls_wait st (lf_addr q) \<noteq> None) F"

definition waits_for :: "lockf list \<Rightarrow> lstate \<Rightarrow> nat \<Rightarrow> (bool \<times> nat) option" where
  "waits_for F st p =
     (case sleeper F st p of
        None \<Rightarrow> None
      | Some q \<Rightarrow>
          map_option (\<lambda>l. (has_flag (lf_flags l) F_POSIX, lf_id l)) (find (\<lambda>l. ls_wait st (lf_addr q) = Some (lf_addr l)) (ls_locks st)))"

fun hops :: "lockf list \<Rightarrow> lstate \<Rightarrow> nat \<Rightarrow> nat \<Rightarrow> nat option" where
  "hops F st 0 p = Some p"
| "hops F st (Suc k) p = (case waits_for F st p of Some (True, q) \<Rightarrow> hops F st k q | _ \<Rightarrow> None)"

text \<open>
  The memory shows the requests and locks of the file: an owner is the address of a process, the
  process sleeps on its request, and nobody waits for a lock of another file.
\<close>

definition shows_waits :: "lockf list \<Rightarrow> lstate \<Rightarrow> kmem \<Rightarrow> bool" where
  "shows_waits F st mem \<longleftrightarrow>
     (\<forall>p. case sleeper F st p of
            None \<Rightarrow> p_wchan (proc_at mem p) = None \<or> \<not> p_lockstr (proc_at mem p)
          | Some q \<Rightarrow> p_wchan (proc_at mem p) = Some (lf_addr q) \<and> p_lockstr (proc_at mem p) \<and>
              next_at mem (lf_addr q) = ls_wait st (lf_addr q)) \<and>
     (\<forall>l\<in>set (ls_locks st). lock_at mem (lf_addr l) = (lf_flags l, lf_id l))"

lemma walk_step:
  assumes i: "lf_inv F st" and m: "shows_waits F st mem"
  shows "deadlock_walk mem me (Suc n) p =
    (case waits_for F st p of
       None \<Rightarrow> Some False
     | Some (posix, q) \<Rightarrow> if \<not> posix then Some False else if q = me then Some True else deadlock_walk mem me n q)"
proof (cases "sleeper F st p")
  case None
  then show ?thesis using m by (auto simp: shows_waits_def waits_for_def split: option.splits dest!: spec [of _ p])
next
  case (Some q)
  then have q: "q \<in> set F" "ls_wait st (lf_addr q) \<noteq> None" by (auto simp: sleeper_def find_Some_iff)
  then obtain b where b: "ls_wait st (lf_addr q) = Some b" by auto
  then obtain l where l: "l \<in> set (F @ ls_locks st)" "lf_addr l = b" "lf_addr q \<in> set (lf_blkhd l)"
    using i unfolding lf_inv_def book_def waiting_def by blast
  then have "l \<in> set (ls_locks st)" using i by (auto simp: lf_inv_def queue_ok_def)
  then have "find (\<lambda>l. b = lf_addr l) (ls_locks st) \<noteq> None" using l(2) by (auto simp: find_None_iff)
  then obtain l' where f: "find (\<lambda>l. b = lf_addr l) (ls_locks st) = Some l'" by auto
  then have "l' \<in> set (ls_locks st)" "lf_addr l' = b" by (auto simp: find_Some_iff)
  then have "lock_at mem b = (lf_flags l', lf_id l')" using m by (auto simp: shows_waits_def)
  moreover have "p_wchan (proc_at mem p) = Some (lf_addr q) \<and> p_lockstr (proc_at mem p) \<and> next_at mem (lf_addr q) = Some b"
    using conjunct1 [OF m [unfolded shows_waits_def], THEN spec [of _ p]] Some b by simp
  ultimately show ?thesis using Some b f by (simp add: waits_for_def)
qed

lemma walk_hops:
  assumes "lf_inv F st" "shows_waits F st mem"
  shows "deadlock_walk mem me n p = Some (\<exists>k. 0 < k \<and> k \<le> n \<and> hops F st k p = Some me)"
proof (induction n arbitrary: p)
  case (Suc n)
  have ex: "(\<exists>k. 0 < k \<and> k \<le> Suc n \<and> hops F st k p = Some me) \<longleftrightarrow> (\<exists>k\<le>n. hops F st (Suc k) p = Some me)"
    by (metis Suc_le_mono gr0_conv_Suc zero_less_Suc)
  have zero: "(\<exists>k\<le>n. hops F st k q = Some me) \<longleftrightarrow> q = me \<or> (\<exists>k. 0 < k \<and> k \<le> n \<and> hops F st k q = Some me)" for q
    by (metis hops.simps(1) le0 not_gr_zero option.inject)
  show ?case
  proof (cases "waits_for F st p")
    case None
    then show ?thesis unfolding ex walk_step [OF assms] by simp
  next
    case (Some bq)
    obtain posix q where bq: "bq = (posix, q)" by fastforce
    show ?thesis unfolding ex walk_step [OF assms] Some bq using zero [of q] Some bq by (cases posix) (simp_all add: Suc)
  qed
qed auto


text \<open>Owner 2 holds a second range and sleeps for the lock of owner 1, which then asks for that range.\<close>

definition lk_three :: lstate where
  "lk_three = \<lparr>ls_locks = [(lf_request 0 0 9 5 1 101 F_WRLCK F_POSIX)\<lparr>lf_blkhd := [2]\<rparr>, lf_request 1 20 29 6 2 102 F_WRLCK F_POSIX],
     ls_cnt = (\<lambda>u. if u = 5 then 1 else if u = 6 then 2 else 0),
     ls_wait = (\<lambda>a. if a = 2 then Some 0 else None), ls_woken = [], ls_next = 3, ls_low = False\<rparr>"

definition lk_between :: lstate where
  "lk_between = \<lparr>ls_locks = [lf_request 0 0 9 5 1 101 F_WRLCK F_POSIX, lf_request 1 20 29 6 2 102 F_WRLCK F_POSIX],
     ls_cnt = (\<lambda>u. if u = 5 then 1 else if u = 6 then 1 else 0), ls_wait = (\<lambda>_. None), ls_woken = [], ls_next = 2, ls_low = False\<rparr>"

definition lk_memory :: kmem where
  "lk_memory = \<lparr>proc_at = (\<lambda>p. if p = 2 then \<lparr>p_wchan = Some 2, p_lockstr = True\<rparr> else \<lparr>p_wchan = None, p_lockstr = False\<rparr>),
     next_at = (\<lambda>a. if a = 2 then Some 0 else None), lock_at = (\<lambda>a. (F_POSIX, if a = 0 then 1 else 2))\<rparr>"

lemma sample_far: "call_ok 0 (fl_sample 20 10 t)" "lf_range 0 (fl_sample 20 10 t) = Some (20, 29)"
  by (simp_all add: call_ok_def fl_sample_def lf_range_def off_ok_def OFF_MAX_def off_wrap_def)

lemma sample_between: "lk_step ([], lk_one) ([], lk_between)"
proof -
  have "lf_advlock [] quiet lk_one 0 6 2 102 F_SETLK (fl_sample 20 10 F_WRLCK) F_POSIX = LDone ([], lk_between, 0, fl_sample 20 10 F_WRLCK)"
    using sample_far(2) [of F_WRLCK]
    by (auto simp: lf_advlock_def lk_one_def lf_alloc_def lf_setlock.simps lf_getblock_def lf_getblock_loop.simps set_loop.simps
      lf_request_def ovcase_def lk_between_def fl_sample_def maxlocksperuid_def fun_eq_iff)
  from lk_step.returns [OF sample_call(3) sample_far(1) this, of "[]"] show ?thesis .
qed

lemma sample_third: "lk_step ([], lk_between) ([lf_request 2 0 9 6 2 102 F_RDLCK (F_POSIX OR F_WAIT)], lk_three)"
proof -
  have "lf_advlock [] quiet lk_between 0 6 2 102 F_SETLK (fl_sample 0 10 F_RDLCK) (F_POSIX OR F_WAIT) = LAsleep lk_three"
    using sample_call(2) [of F_RDLCK]
    by (auto simp: lf_advlock_def lk_between_def lf_alloc_def lf_setlock.simps lf_getblock_def lf_getblock_loop.simps lf_request_def ovcase_def
      has_flag_def no_waits block_on_def lk_three_def fl_sample_def maxlocksperuid_def Let_def fun_eq_iff)
  from lk_step.sleeps [OF sample_call(3,1) this sample_call(2), of "[]"] show ?thesis by (simp add: lk_between_def fl_sample_def)
qed

lemma sample_long_run: "lk_reach ([lf_request 2 0 9 6 2 102 F_RDLCK (F_POSIX OR F_WAIT)], lk_three)"
  using sample_first sample_between sample_third by (meson rtranclp.rtrancl_into_rtrancl rtranclp.rtrancl_refl)


subsection \<open>Waiting for memory\<close>

text \<open>
  The third part of a split lock may have to wait in \<^verbatim>\<open>pool_get\<close>, when the check for conflicting
  locks is already over.  Owner 1 holds bytes 0 to 29 for reading and asks for bytes 10 to 19 for
  writing; while it waits for memory, owner 2 gets byte 15 for reading; then the lock for writing
  is put into the list, and both hold byte 15.
\<close>

lemma upgrade_races:
  fixes st :: lstate
  defines "st \<equiv> lk_one\<lparr>ls_locks := [lf_request 0 0 29 5 1 101 F_RDLCK F_POSIX], ls_low := True\<rparr>"
    and "r1 \<equiv> lf_request 7 10 19 5 1 101 F_WRLCK F_POSIX" and "r2 \<equiv> lf_request 8 15 15 6 2 102 F_RDLCK F_POSIX"
  shows "\<exists>st1 st2 st3. lf_setlock [] quiet st r1 = LPool st1 \<and> lf_setlock [] quiet (st1\<lparr>ls_low := False\<rparr>) r2 = LDone ([], st2, 0) \<and>
    split_woken st2 0 r1 True = LDone st3 \<and> holds (ls_locks st3) 1 15 F_WRLCK \<and> holds (ls_locks st3) 2 15 F_RDLCK"
  unfolding st_def r1_def r2_def
  by (simp add: lf_setlock.simps lf_getblock_def lf_getblock_loop.simps set_loop.simps lf_split_def lf_alloc_def lk_one_def
    lf_request_def ovcase_def Let_def split_woken_def extract_def lf_wakelock_def holds_def covers_def lf_hi_def off_wrap_def)

end
