(* ===== verification/Spec2Isabelle.thy ===== *)
theory Spec2Isabelle
  imports Clist Mbuf_Laws Mbuf_Queue Bpf_Dev_Laws Extent_Laws Lockf_Threads
begin

text \<open>
  A verification library for five parts of the Bitrig kernel.  Paths are below \<^verbatim>\<open>sys/\<close> in the
  source tree.

  \<^bold>\<open>The parts and how they meet.\<close>  The character queues of terminals (\<^verbatim>\<open>kern/tty_subr.c\<close>) hold the
  input and output of a line in a ring with a quote bit per character.  Network buffers
  (\<^verbatim>\<open>kern/uipc_mbuf.c\<close>, \<^verbatim>\<open>kern/uipc_mbuf2.c\<close>, \<^verbatim>\<open>sys/mbuf.h\<close>) hold packets as chains of small
  buffers, which share clusters of memory by reference counts.  The packet filter machine
  (\<^verbatim>\<open>net/bpf_filter.c\<close>) runs checked programs over a packet that lies in one piece or in such a
  chain.  Extent maps (\<^verbatim>\<open>kern/subr_extent.c\<close>) hand out ranges of addresses to drivers.  Advisory
  locks (\<^verbatim>\<open>kern/vfs_lockf.c\<close>) keep the byte ranges of a file that processes have locked, and put
  to sleep the requests that have to wait.

  \<^bold>\<open>Conventions.\<close>  A structure is a record, an enumeration a datatype.  Machine integers are words
  where they wrap in the code (flags, filter registers, extent addresses); file offsets are
  integers with the wrap-around written out; lengths and indices that the code keeps in range
  are natural numbers.  A pointer walk over a list is a split of the list.  An operation takes
  the state and returns it changed; a panic, a read outside a buffer, a lack of memory and an
  error number are values of the result.  The success of an allocation is read off counters in
  the state.  A call that may sleep takes a list of wakeups, each with the value of \<^verbatim>\<open>tsleep\<close> and
  with what other threads did; an exhausted list means that the caller still sleeps.

  \<^bold>\<open>Theories.\<close>

  \<^item> \<open>Prelude\<close>: word types, flag tests, reading and writing a piece of memory.

  \<^item> \<open>Bitmap\<close>: the bit macros of \<^verbatim>\<open>sys/param.h\<close> and \<^verbatim>\<open>clrbits\<close>.  The locale \<open>bitmap\<close> says what a
  bit array promises; the byte array is its instance.  \<open>clrbits\<close> with its byte-wise middle
  part equals the bit-by-bit loop.

  \<^item> \<open>Clist\<close>: \<^verbatim>\<open>clalloc\<close>, \<^verbatim>\<open>getc\<close>, \<^verbatim>\<open>putc\<close>, \<^verbatim>\<open>unputc\<close>, \<^verbatim>\<open>q_to_b\<close>, \<^verbatim>\<open>b_to_q\<close>, \<^verbatim>\<open>ndqb\<close>, \<^verbatim>\<open>ndflush\<close>,
  \<^verbatim>\<open>firstc\<close>, \<^verbatim>\<open>nextc\<close>, \<^verbatim>\<open>catq\<close> on a record with the ring and its indices.  The ring is a list of
  characters by an abstraction function; each operation refines the list operation and
  keeps the invariant.  The locale \<open>char_queue\<close> holds what a client of a queue relies on.

  \<^item> \<open>Mbuf\<close>, \<open>Mbuf_Chain\<close>, \<open>Mbuf_Copy\<close>, \<open>Mbuf_Split\<close>, \<open>Mbuf_Defrag\<close>, \<open>Mbuf_Pulldown\<close>, \<open>Mbuf_Laws\<close>: an mbuf
  is a record, a chain a list of them, and the clusters with their reference counts are in the
  store.  The invariant \<open>chain_ok\<close> says that every mbuf's data lies in its buffer and that the
  counts cover the mbufs that refer to a cluster.  The lemmas give the bytes of the resulting
  chain for \<^verbatim>\<open>m_copydata\<close>, \<^verbatim>\<open>m_apply\<close>, \<^verbatim>\<open>m_adj\<close>, \<^verbatim>\<open>m_cat\<close>, \<^verbatim>\<open>m_prepend\<close>, \<^verbatim>\<open>m_pullup\<close>, \<^verbatim>\<open>m_split\<close>,
  \<^verbatim>\<open>m_copym0\<close>, \<^verbatim>\<open>m_defrag\<close>, \<^verbatim>\<open>m_devget\<close> and \<^verbatim>\<open>m_pulldown\<close>, that no other chain changes, when they
  give up, and the behaviour of tags.

  \<^item> \<open>Mbuf_Queue\<close>: the packet lists \<^verbatim>\<open>ml_*\<close> and the bounded queues \<^verbatim>\<open>mq_*\<close> at the level of
  pointers: the packets are addresses, a map gives the next packet, and a list has its ends
  and its length.  Each operation is shown to be the list operation, with the packets dropped
  from a full queue freed and counted.

  \<^item> \<open>Bpf\<close>, \<open>Bpf_Packet\<close>, \<open>Bpf_Laws\<close>: the interpreter steps over a state with the registers, the
  scratch memory and the program counter.  A program that passes \<^verbatim>\<open>bpf_validate\<close> returns a
  value after at most as many steps as it has instructions, without leaving the program or
  the scratch memory.  The locale \<open>packet_source\<close> says how bytes, half words and words of a
  packet are read; buffers and chains are its instances, so that both give the same result.

  \<^item> \<open>Extent\<close>, \<open>Extent_Inv\<close>, \<open>Extent_Search\<close>, \<open>Extent_Laws\<close>: the regions of a map are a sorted list
  of disjoint ranges.  An allocation returns an aligned block inside the subregion that was
  free, and finds one if there is one; a fixed allocation and a release change the allocated
  set by exactly the block; every call keeps the invariant, also over sleeps.  The locale
  \<open>block_map\<close> is the interface of drivers.

  \<^item> \<open>Lockf\<close>, \<open>Lockf_Inv\<close>, \<open>Lockf_Set\<close>, \<open>Lockf_Laws\<close>: the locks of a file are a list of records.  The
  list is read as a table of who holds which byte how.  Setting and clearing change the table
  on exactly the range of the request, whatever overlaps there are; a query reports a lock
  that conflicts if there is one.  The locale \<open>lock_table\<close> holds these laws and what follows
  from them for the exclusion of conflicting locks.

  \<^item> \<open>Lockf_Wait\<close>, \<open>Lockf_Threads\<close>: the books of the lock table (who waits for what, how many
  structures a user has) and the threads as a step relation, in which calls return, go to
  sleep, are woken or interrupted in any order.  Reachable states have no conflicting locks,
  no request sleeps on a lock that is gone, and no call panics.  The deadlock check finds
  exactly the cycles of at most 50 hops.

  \<^bold>\<open>Bounds and fuel.\<close>  All loops are structural or come with a termination proof, except the
  filter machine, the bulk transfers of the character queues, \<^verbatim>\<open>m_split\<close> and \<^verbatim>\<open>m_copym0\<close>, which
  are partial functions; that they return is part of what is shown.  The depth of the deadlock check is the constant of the code.  Lengths of
  chains are below the largest signed 32-bit number and ranges of locks end below the largest
  offset; lemmas next to the theorems show what goes wrong at these limits.

  \<^bold>\<open>Limits of the code that came out.\<close>  The lemmas \<open>ndqb_reads_next_quote\<close>, \<open>split_stale_header\<close>,
  \<open>devget_empty_leaks\<close>,
  \<open>xhalf_reads_stale\<close>, \<open>empty_buffer_faults\<close>, \<open>shift_count_unchecked\<close>, \<open>conflictok_wrong\<close>,
  \<open>alloc_wraps_at_top\<close>, \<open>boundary_loses_alignment\<close>, \<open>sleep_error_leaks\<close>, \<open>range_wraps\<close> and
  \<open>unlock_top_wraps\<close> each evaluate the code on an input where it does not do what its comments
  say.

  \<^bold>\<open>Not modelled.\<close>  Interrupt levels and locks around the operations: each operation runs in one
  piece between its sleeps, which is what \<^verbatim>\<open>spltty\<close> and the kernel lock provide.  Statistics,
  debugging output and the functions that print for the debugger.  The counts of locks per user
  are those of one file.  The parts of the kernel around the five components (scheduler,
  virtual memory, file systems, protocols, drivers) and the user programs: the components use
  them through sleeping and allocation only, which are parameters here.
\<close>

end
